(* ===== verification/Prelude.thy ===== *)
theory Prelude
  imports
    Main
    "HOL-Library.Word"
    "HOL-Library.List_Lexorder"
    "HOL-Library.Char_ord"
    "HOL-Library.Multiset"
    "HOL-Library.Monad_Syntax"
begin

text \<open>
  Shared vocabulary of the development.  Go strings are byte strings and are compared byte by
  byte, so they are lists of \<open>char\<close> with the lexicographic order of the library.  A Go
  \<open>map[string]T\<close> value is an association list with distinct keys; the order of the list is the
  order in which one \<open>range\<close> loop visits it, which Go leaves open, so a theorem about every list
  with distinct keys covers every iteration order.  The machine integers \<open>uint64\<close> and
  \<open>uint32\<close> are words of that width.
\<close>

section \<open>Types\<close>

type_synonym u64 = "64 word"
type_synonym u32 = "32 word"

type_synonym 'v go_map = "(string \<times> 'v) list"

text \<open>A value of type \<open>'a option\<close> in result position: \<open>None\<close> is a Go panic.\<close>

section \<open>Collections of facts\<close>

named_theorems perm_simps \<open>multiset equations of routines that permute a list\<close>
named_theorems inv_intros \<open>operations preserve the state invariant\<close>
named_theorems account_simps \<open>the balance of a counter name after an operation\<close>

section \<open>Lists sorted by a key\<close>

text \<open>
  Two lists that are sorted by a key and hold the same elements are equal when no two elements
  share a key: whatever sorted the list, the result is the same.
\<close>

lemma sorted_by_key_unique:
  assumes "mset xs = mset ys" and "distinct (map f xs)"
    and "sorted (map f xs)" and "sorted (map f ys)"
  shows "xs = ys"
proof (rule map_sorted_distinct_set_unique)
  have s: "set xs = set ys" using assms(1) by (rule mset_eq_setD)
  show "inj_on f (set xs \<union> set ys)" using assms(2) s by (simp add: distinct_map)
  show "distinct (map f ys)"
    using assms(1,2) by (metis mset_eq_imp_distinct_iff mset_map)
qed (use assms mset_eq_setD in auto)

lemma strict_sorted_iff_distinct:
  "sorted_wrt (<) (xs :: 'a::linorder list) \<longleftrightarrow> sorted xs \<and> distinct xs"
  by (rule strict_sorted_iff)

lemma map_of_mset_eq:
  assumes "mset xs = mset ys" and "distinct (map fst xs)"
  shows "map_of xs = map_of ys"
proof -
  have "distinct (map fst ys)"
    using assms by (metis mset_eq_imp_distinct_iff mset_map)
  moreover have "set xs = set ys" using assms(1) by (rule mset_eq_setD)
  ultimately show ?thesis using assms(2) by (simp add: map_of_inject_set)
qed

lemma mset_swap_update:
  assumes "i < length xs" and "j < length xs"
  shows "mset (xs[i := xs ! j, j := xs ! i]) = mset xs"
proof (cases "i = j")
  case True
  then show ?thesis by simp
next
  case False
  then show ?thesis using mset_swap [OF assms(2,1)] by (simp add: list_update_swap)
qed

lemma filter_cong_mset [perm_simps]:
  "mset xs = mset ys \<Longrightarrow> mset (filter P xs) = mset (filter P ys)"
  by (simp add: mset_filter)

section \<open>Updating a list at a set of positions\<close>

definition map_at :: "nat set \<Rightarrow> ('a \<Rightarrow> 'a) \<Rightarrow> 'a list \<Rightarrow> 'a list" where
  "map_at A f h = map (\<lambda>i. if i \<in> A then f (h ! i) else h ! i) [0..<length h]"

lemma map_at_sel [simp]:
  "length (map_at A f h) = length h"
  "i < length h \<Longrightarrow> map_at A f h ! i = (if i \<in> A then f (h ! i) else h ! i)"
  by (simp_all add: map_at_def)

lemma map_at_insert:
  "a < length h \<Longrightarrow> a \<notin> A \<Longrightarrow> map_at A f (h[a := f (h ! a)]) = map_at (insert a A) f h"
  by (rule nth_equalityI) (auto simp: nth_list_update)

lemma map_at_empty [simp]: "map_at {} f h = h"
  by (rule nth_equalityI) auto

end
