(* ===== verification/Sorting_Network.thy ===== *)
theory Sorting_Network
  imports Prelude
begin

text \<open>
  Compare-and-swap networks over an array of any linearly ordered type, and the zero-one
  principle: a network that sorts every list of booleans of length \<open>n\<close> sorts every list of
  length \<open>n\<close>.  The tag sets of \<open>internal/tags/tags.go\<close> are sorted by such networks when they
  hold at most eight tags; here only the keys matter.
\<close>

section \<open>Comparators\<close>

definition comp_swap :: "'a::linorder list \<Rightarrow> nat \<times> nat \<Rightarrow> 'a list" where
  "comp_swap xs c = (case c of (i, j) \<Rightarrow>
     if xs ! i > xs ! j then xs[i := xs ! j, j := xs ! i] else xs)"

abbreviation run_network :: "(nat \<times> nat) list \<Rightarrow> 'a::linorder list \<Rightarrow> 'a list" where
  "run_network net xs \<equiv> foldl comp_swap xs net"

abbreviation network_on :: "nat \<Rightarrow> (nat \<times> nat) list \<Rightarrow> bool" where
  "network_on n net \<equiv> list_all (\<lambda>(i, j). i < n \<and> j < n) net"

lemma length_comp_swap [simp]: "length (comp_swap xs c) = length xs"
  by (simp add: comp_swap_def split: prod.split)

lemma length_run_network [simp]: "length (run_network net xs) = length xs"
  by (induction net arbitrary: xs) auto

lemma map_comp_swap:
  assumes "mono f" and "i < length xs" and "j < length xs"
  shows "map f (comp_swap xs (i, j)) = comp_swap (map f xs) (i, j)"
proof (cases "xs ! i > xs ! j")
  case True
  then have "f (xs ! j) \<le> f (xs ! i)" using assms(1) by (simp add: monoD)
  moreover have "(map f xs)[i := f (xs ! j), j := f (xs ! i)] = map f xs"
    if "f (xs ! i) = f (xs ! j)"
    using that assms(2,3) by (metis list_update_id nth_map)
  ultimately show ?thesis using True assms(2,3)
    by (auto simp: comp_swap_def map_update)
next
  case False
  then have "f (xs ! i) \<le> f (xs ! j)" using assms(1) by (simp add: monoD)
  with False show ?thesis using assms(2,3) by (simp add: comp_swap_def not_less [symmetric])
qed

lemma map_run_network:
  assumes "mono f" and "network_on (length xs) net"
  shows "map f (run_network net xs) = run_network net (map f xs)"
  using assms(2)
proof (induction net arbitrary: xs)
  case Nil
  then show ?case by simp
next
  case (Cons c net)
  then show ?case by (cases c) (simp add: map_comp_swap [OF assms(1)])
qed

section \<open>The zero-one principle\<close>

lemma not_sorted_witness:
  "\<not> sorted xs \<Longrightarrow> \<exists>v. \<not> sorted (map (\<lambda>x. x > v) (xs :: 'a::linorder list))"
proof -
  assume "\<not> sorted xs"
  then obtain i j where ij: "i \<le> j" "j < length xs" "\<not> xs ! i \<le> xs ! j"
    by (auto simp: sorted_iff_nth_mono)
  have "\<not> sorted (map (\<lambda>x. x > xs ! j) xs)"
    using ij sorted_nth_mono [of "map (\<lambda>x. x > xs ! j) xs" i j] by auto
  then show ?thesis by blast
qed

theorem zero_one_principle:
  fixes xs :: "'a::linorder list"
  assumes net: "network_on (length xs) net"
    and bools: "\<And>bs :: bool list. length bs = length xs \<Longrightarrow> sorted (run_network net bs)"
  shows "sorted (run_network net xs)"
proof (rule ccontr)
  assume "\<not> sorted (run_network net xs)"
  then obtain v where "\<not> sorted (map (\<lambda>x. x > v) (run_network net xs))"
    using not_sorted_witness by blast
  moreover have "mono (\<lambda>x. x > v)" by (auto intro!: monoI)
  ultimately show False
    using bools [of "map (\<lambda>x. x > v) xs"] by (simp add: map_run_network [OF _ net])
qed

text \<open>On booleans a comparator takes the conjunction and the disjunction.\<close>

lemma comp_swap_bool:
  "comp_swap (bs :: bool list) (i, j) =
     (if bs ! i \<and> \<not> bs ! j then bs[i := False, j := True] else bs)"
  by (auto simp: comp_swap_def)

definition sorts_bools :: "nat \<Rightarrow> (nat \<times> nat) list \<Rightarrow> bool" where
  "sorts_bools n net \<longleftrightarrow>
     network_on n net \<and> (\<forall>bs :: bool list. length bs = n \<longrightarrow> sorted (run_network net bs))"

lemma sorts_bools_sorts:
  fixes xs :: "'a::linorder list"
  assumes "sorts_bools (length xs) net"
  shows "sorted (run_network net xs)"
  using assms by (auto simp: sorts_bools_def intro: zero_one_principle)

end
