(* ===== verification/Go_Lib.thy ===== *)
theory Go_Lib
  imports Prelude
begin

text \<open>
  The parts of the Go language and its standard library that the sources use: \<open>strings.Index\<close>,
  \<open>strings.IndexByte\<close>, \<open>strings.Count\<close>, the built-in \<open>copy\<close>, \<open>strconv.FormatUint\<close>, and
  64-bit signed arithmetic.  An index of \<open>-1\<close> in Go is \<open>None\<close> here.
\<close>

section \<open>Substring search\<close>

fun go_Index :: "string \<Rightarrow> string \<Rightarrow> nat option" where
  "go_Index s sub =
     (if take (length sub) s = sub then Some 0
      else case s of [] \<Rightarrow> None | _ # cs \<Rightarrow> map_option Suc (go_Index cs sub))"

declare go_Index.simps [simp del]

fun go_IndexByte :: "string \<Rightarrow> char \<Rightarrow> nat option" where
  "go_IndexByte [] c = None"
| "go_IndexByte (x # xs) c = (if x = c then Some 0 else map_option Suc (go_IndexByte xs c))"

lemma take_eq_length: "take (length b) a = b \<Longrightarrow> length b \<le> length a"
  by (metis length_take min.cobounded1)

lemma go_Index_bound: "go_Index s sub = Some n \<Longrightarrow> n + length sub \<le> length s"
proof (induction s arbitrary: n)
  case Nil
  then show ?case by (simp add: go_Index.simps [of "[]"] split: if_splits)
next
  case (Cons c s)
  then show ?case
    using take_eq_length [of sub "c # s"]
    by (auto simp add: go_Index.simps [of "c # s"] split: if_splits)
qed

lemma go_Count_decreases:
  "sub \<noteq> [] \<Longrightarrow> go_Index s sub = Some m \<Longrightarrow> length s - (m + length sub) < length s"
  using go_Index_bound [of s sub m] by (cases sub) auto

function go_Count :: "string \<Rightarrow> string \<Rightarrow> nat" where
  "go_Count s sub =
     (if sub = [] then length s + 1
      else case go_Index s sub of
             None \<Rightarrow> 0
           | Some m \<Rightarrow> 1 + go_Count (drop (m + length sub) s) sub)"
  by pat_completeness auto
termination
  by (relation "measure (\<lambda>(s, _). length s)") (auto simp: go_Count_decreases)

declare go_Count.simps [simp del]

text \<open>Where the separator does not occur in the text before it, \<open>Index\<close> finds the separator.\<close>

lemma go_Index_None_iff: "go_Index s sub = None \<longleftrightarrow> (\<forall>n. take (length sub) (drop n s) \<noteq> sub)"
proof (induction s)
  case Nil
  then show ?case by (auto simp: go_Index.simps [of "[]"])
next
  case (Cons c s)
  have "(\<forall>n. take (length sub) (drop n (c # s)) \<noteq> sub) \<longleftrightarrow>
        take (length sub) (c # s) \<noteq> sub \<and> (\<forall>n. take (length sub) (drop n s) \<noteq> sub)"
    by (metis drop0 drop_Suc_Cons not0_implies_Suc)
  with Cons show ?case by (simp add: go_Index.simps [of "c # s"])
qed

lemma go_IndexByte_append:
  "c \<notin> set a \<Longrightarrow> go_IndexByte (a @ c # b) c = Some (length a)"
  by (induction a) auto

lemma go_IndexByte_None_iff: "go_IndexByte s c = None \<longleftrightarrow> c \<notin> set s"
  by (induction s) auto

lemma go_IndexByte_Some:
  "go_IndexByte s c = Some n \<Longrightarrow> n < length s \<and> s ! n = c \<and> c \<notin> set (take n s)"
  by (induction s arbitrary: n) (auto split: if_splits)

section \<open>Slices\<close>

text \<open>
  \<open>copy(a[k:], src)\<close> copies as many elements as fit and returns their number.  Go reads the
  source before it overwrites it, so \<open>src\<close> is the source's contents before the copy.
\<close>

definition go_copy_n :: "'a list \<Rightarrow> nat \<Rightarrow> 'a list \<Rightarrow> nat" where
  "go_copy_n a k src = min (length a - k) (length src)"

definition go_copy :: "'a list \<Rightarrow> nat \<Rightarrow> 'a list \<Rightarrow> 'a list" where
  "go_copy a k src =
     (let n = go_copy_n a k src in take k a @ take n src @ drop (k + n) a)"

lemma length_go_copy [simp]: "k \<le> length a \<Longrightarrow> length (go_copy a k src) = length a"
  by (simp add: go_copy_def go_copy_n_def Let_def)

section \<open>Decimal numbers\<close>

definition digit_char :: "nat \<Rightarrow> char" where
  "digit_char d = char_of (48 + d)"

definition char_digit :: "char \<Rightarrow> nat option" where
  "char_digit c = (if 48 \<le> (of_char c :: nat) \<and> (of_char c :: nat) \<le> 57 then Some (of_char c - 48) else None)"

fun format_nat :: "nat \<Rightarrow> string" where
  "format_nat n = (if n < 10 then [digit_char n] else format_nat (n div 10) @ [digit_char (n mod 10)])"

declare format_nat.simps [simp del]

text \<open>\<open>strconv.FormatUint(v, 10)\<close> and \<open>strconv.AppendUint\<close>, and \<open>strconv.Itoa\<close>.\<close>

definition go_FormatUint :: "u64 \<Rightarrow> string" where
  "go_FormatUint v = format_nat (unat v)"

definition go_Itoa :: "int \<Rightarrow> string" where
  "go_Itoa i = (if i < 0 then CHR ''-'' # format_nat (nat (- i)) else format_nat (nat i))"

fun parse_digits :: "nat \<Rightarrow> string \<Rightarrow> nat option" where
  "parse_digits acc [] = Some acc"
| "parse_digits acc (c # cs) =
     (case char_digit c of None \<Rightarrow> None | Some d \<Rightarrow> parse_digits (10 * acc + d) cs)"

lemma char_digit_digit_char [simp]: "d < 10 \<Longrightarrow> char_digit (digit_char d) = Some d"
  by (simp add: char_digit_def digit_char_def of_char_of)

lemma parse_digits_append:
  "parse_digits acc (xs @ ys) =
     (case parse_digits acc xs of None \<Rightarrow> None | Some a \<Rightarrow> parse_digits a ys)"
  by (induction xs arbitrary: acc) (auto split: option.splits)

lemma parse_format_nat: "parse_digits 0 (format_nat n) = Some n"
proof (induction n rule: format_nat.induct)
  case (1 n)
  show ?case
  proof (cases "n < 10")
    case True
    then show ?thesis by (simp add: format_nat.simps [of n])
  next
    case False
    with 1 show ?thesis by (simp add: format_nat.simps [of n] parse_digits_append)
  qed
qed

lemma format_nat_digits: "c \<in> set (format_nat n) \<Longrightarrow> char_digit c \<noteq> None"
proof (induction n rule: format_nat.induct)
  case (1 n)
  then show ?case by (cases "n < 10") (auto simp: format_nat.simps [of n])
qed

lemma format_nat_nonempty [simp]: "format_nat n \<noteq> []"
  by (subst format_nat.simps) simp

lemma char_digit_separators [simp]:
  "char_digit (CHR '':'') = None" "char_digit (CHR ''.'') = None" "char_digit (CHR ''|'') = None"
  "char_digit (CHR ''='') = None" "char_digit (CHR ''_'') = None" "char_digit (CHR ''-'') = None"
  by (simp_all add: char_digit_def)

lemma format_nat_no_separator:
  assumes "char_digit c = None"
  shows "c \<notin> set (format_nat n)"
  using assms format_nat_digits by blast

lemma format_nat_inj: "format_nat m = format_nat n \<Longrightarrow> m = n"
  by (metis option.inject parse_format_nat)

section \<open>64-bit signed integers\<close>

text \<open>
  Go's \<open>int\<close> on the 64-bit platforms the library is built for: results wrap around, division
  truncates towards zero.
\<close>

definition wrap_int64 :: "int \<Rightarrow> int" where
  "wrap_int64 i = (i + 2 ^ 63) mod 2 ^ 64 - 2 ^ 63"

definition go_div :: "int \<Rightarrow> int \<Rightarrow> int" where
  "go_div a b = wrap_int64 (sgn a * sgn b * (\<bar>a\<bar> div \<bar>b\<bar>))"

abbreviation is_int64 :: "int \<Rightarrow> bool" where
  "is_int64 i \<equiv> - (2 ^ 63) \<le> i \<and> i < 2 ^ 63"

lemma wrap_int64_id [simp]: "is_int64 i \<Longrightarrow> wrap_int64 i = i"
  by (simp add: wrap_int64_def)

lemma is_int64_wrap: "is_int64 (wrap_int64 i)"
  by (simp add: wrap_int64_def)

lemma go_div_pos: "0 \<le> a \<Longrightarrow> a < 2 ^ 63 \<Longrightarrow> 0 < b \<Longrightarrow> go_div a b = a div b"
proof -
  assume a: "0 \<le> a" "a < 2 ^ 63" "0 < b"
  have "0 \<le> a div b" using a by (simp add: pos_imp_zdiv_nonneg_iff)
  moreover have "a div b \<le> a" using a zdiv_mono2 [of a 1 b] by simp
  ultimately show ?thesis using a by (cases "a = 0") (simp_all add: go_div_def wrap_int64_def)
qed

end
