(* ===== verification/Tags.thy ===== *)
theory Tags
  imports Sorting_Network Go_Lib
begin

text \<open>
  \<open>internal/tags/tags.go\<close>, first part: tags, the cleaning of tag values, sorted tag sets,
  the sorting networks, binary search, membership and copy-on-write insertion.
  A tag set is a list of tags; every operation but \<open>Sort\<close> relies on it being strictly sorted
  by key (\<open>is_tagset\<close>).  Its meaning is a finite map from keys to values (\<open>tag_map\<close>).
\<close>

section \<open>Tags\<close>

datatype Tag = Tag (Key: string) (Value: string)

type_synonym TagSet = "Tag list"

text \<open>\<open>new(Tag)\<close>: both fields are the empty string.\<close>

definition zero_Tag :: Tag where
  "zero_Tag = Tag '''' ''''"

text \<open>
  Tags are ordered by key and then by value.  The code compares keys only (\<open>Less\<close>); on tags with
  different keys the two orders agree, and this one is a linear order, so the library's
  \<open>sorted_list_of_set\<close> names the canonical tag set of a set of tags.
\<close>

instantiation Tag :: linorder
begin

definition less_eq_Tag :: "Tag \<Rightarrow> Tag \<Rightarrow> bool" where
  "less_eq_Tag a b \<longleftrightarrow> Key a < Key b \<or> Key a = Key b \<and> Value a \<le> Value b"

definition less_Tag :: "Tag \<Rightarrow> Tag \<Rightarrow> bool" where
  "less_Tag a b \<longleftrightarrow> Key a < Key b \<or> Key a = Key b \<and> Value a < Value b"

instance
  by standard (auto simp: less_eq_Tag_def less_Tag_def intro: Tag.expand)

end

section \<open>Cleaning tag values\<close>

abbreviation bad_char :: "char \<Rightarrow> bool" where
  "bad_char c \<equiv> c = CHR ''.'' \<or> c = CHR '':'' \<or> c = CHR ''|''"

function ReplaceChars_loop :: "string \<Rightarrow> nat \<Rightarrow> string option \<Rightarrow> string option" where
  "ReplaceChars_loop s i buf =
     (if i < length s
      then ReplaceChars_loop s (Suc i)
             (if bad_char (s ! i)
              then Some ((case buf of None \<Rightarrow> s | Some b \<Rightarrow> b)[i := CHR ''_''])
              else buf)
      else buf)"
  by pat_completeness auto
termination
  by (relation "measure (\<lambda>(s, i, _). length s - i)") auto

declare ReplaceChars_loop.simps [simp del]

definition ReplaceChars :: "string \<Rightarrow> string" where
  "ReplaceChars s = (case ReplaceChars_loop s 0 None of None \<Rightarrow> s | Some buf \<Rightarrow> buf)"

definition NewTag :: "string \<Rightarrow> string \<Rightarrow> Tag" where
  "NewTag key value = Tag key (ReplaceChars value)"

abbreviation clean_char :: "char \<Rightarrow> char" where
  "clean_char c \<equiv> if bad_char c then CHR ''_'' else c"

lemma ReplaceChars_loop_spec:
  assumes "i \<le> length s"
    and "(case buf of None \<Rightarrow> s | Some b \<Rightarrow> b) = map clean_char (take i s) @ drop i s"
  shows "(case ReplaceChars_loop s i buf of None \<Rightarrow> s | Some b \<Rightarrow> b) = map clean_char s"
  using assms
proof (induction s i buf rule: ReplaceChars_loop.induct)
  case (1 s i buf)
  show ?case
  proof (cases "i < length s")
    case True
    have "(map clean_char (take i s) @ drop i s)[i := CHR ''_''] =
            map clean_char (take i s) @ CHR ''_'' # drop (Suc i) s"
      using True by (simp add: list_update_append Cons_nth_drop_Suc [symmetric])
    with 1 True show ?thesis
      by (simp add: ReplaceChars_loop.simps [of s i buf] take_Suc_conv_app_nth
            Cons_nth_drop_Suc split: if_splits)
  next
    case False
    with 1 show ?thesis by (subst ReplaceChars_loop.simps) simp
  qed
qed

lemma ReplaceChars_eq: "ReplaceChars s = map clean_char s"
  unfolding ReplaceChars_def by (rule ReplaceChars_loop_spec) auto

lemma ReplaceChars_empty_iff [simp]: "ReplaceChars s = [] \<longleftrightarrow> s = []"
  by (simp add: ReplaceChars_eq)

lemma ReplaceChars_idem [simp]: "ReplaceChars (ReplaceChars s) = ReplaceChars s"
  by (simp add: ReplaceChars_eq)

lemma ReplaceChars_no_bad: "c \<in> set (ReplaceChars s) \<Longrightarrow> \<not> bad_char c"
  by (auto simp: ReplaceChars_eq)

lemma ReplaceChars_id: "(\<And>c. c \<in> set s \<Longrightarrow> \<not> bad_char c) \<Longrightarrow> ReplaceChars s = s"
  by (auto simp: ReplaceChars_eq intro: map_idI)

lemma NewTag_sel [simp]: "Key (NewTag k v) = k" "Value (NewTag k v) = ReplaceChars v"
  by (simp_all add: NewTag_def)

section \<open>Sorting\<close>

definition Len :: "TagSet \<Rightarrow> nat" where
  "Len t = length t"

definition Swap :: "TagSet \<Rightarrow> nat \<Rightarrow> nat \<Rightarrow> TagSet" where
  "Swap t i j = t[i := t ! j, j := t ! i]"

definition Less :: "TagSet \<Rightarrow> nat \<Rightarrow> nat \<Rightarrow> bool" where
  "Less t i j \<longleftrightarrow> Key (t ! i) < Key (t ! j)"

definition cas :: "TagSet \<Rightarrow> nat \<Rightarrow> nat \<Rightarrow> TagSet" where
  "cas t i j = (if Key (t ! i) > Key (t ! j) then Swap t i j else t)"

abbreviation cas_all :: "(nat \<times> nat) list \<Rightarrow> TagSet \<Rightarrow> TagSet" where
  "cas_all net t \<equiv> foldl (\<lambda>t (i, j). cas t i j) t net"

text \<open>
  \<open>sort.Sort\<close> of the standard library, on a value with the methods \<open>Len\<close>, \<open>Less\<close> and \<open>Swap\<close>
  above: it permutes the elements into an order with \<open>\<not> Less j i\<close> for \<open>i < j\<close>, and leaves the
  order of elements with equal keys open.  The model keeps their order;
  \<open>tag_sorter.unique\<close> below shows that the choice is invisible when no key occurs twice.
\<close>

definition go_sort_Sort :: "TagSet \<Rightarrow> TagSet" where
  "go_sort_Sort t = sort_key Key t"

definition Sort_network :: "nat \<Rightarrow> (nat \<times> nat) list" where
  "Sort_network n =
     (if n = 2 then [(0,1)]
      else if n = 3 then [(1,2), (0,2), (0,1)]
      else if n = 4 then [(0,1), (2,3), (0,2), (1,3), (1,2)]
      else if n = 5 then [(0,1), (3,4), (2,4), (2,3), (0,3), (0,2), (1,4), (1,3), (1,2)]
      else if n = 6 then [(1,2), (0,2), (0,1), (4,5), (3,5), (3,4), (0,3), (1,4), (2,5),
                          (2,4), (1,3), (2,3)]
      else if n = 7 then [(1,2), (0,2), (0,1), (3,4), (5,6), (3,5), (4,6), (4,5), (0,4),
                          (0,3), (1,5), (2,6), (2,5), (1,3), (2,4), (2,3)]
      else if n = 8 then [(0,1), (2,3), (0,2), (1,3), (1,2), (4,5), (6,7), (4,6), (5,7),
                          (5,6), (0,4), (1,5), (1,4), (2,6), (3,7), (3,6), (2,4), (3,5),
                          (3,4)]
      else [])"

definition Sort :: "TagSet \<Rightarrow> TagSet" where
  "Sort t =
     (if length t \<le> 1 then t
      else if length t \<le> 8 then cas_all (Sort_network (length t)) t
      else go_sort_Sort t)"

lemma length_cas [simp]: "length (cas t i j) = length t"
  by (simp add: cas_def Swap_def)

lemma mset_cas: "i < length t \<Longrightarrow> j < length t \<Longrightarrow> mset (cas t i j) = mset t"
  by (simp add: cas_def Swap_def mset_swap_update)

lemma map_Key_cas:
  "i < length t \<Longrightarrow> j < length t \<Longrightarrow> map Key (cas t i j) = comp_swap (map Key t) (i, j)"
  by (simp add: cas_def Swap_def comp_swap_def map_update)

lemma mset_cas_all: "network_on (length t) net \<Longrightarrow> mset (cas_all net t) = mset t"
  by (induction net arbitrary: t) (auto simp: mset_cas)

lemma map_Key_cas_all:
  "network_on (length t) net \<Longrightarrow> map Key (cas_all net t) = run_network net (map Key t)"
  by (induction net arbitrary: t) (auto simp: map_Key_cas)

text \<open>
  Each network sorts every list of booleans of its length: the simplifier runs it on each of
  them, 256 for eight tags.
\<close>

lemmas network_eval = Sort_network_def comp_swap_bool eval_nat_numeral

lemma Sort_network_2: "sorts_bools 2 (Sort_network 2)"
proof -
  have "sorted (run_network (Sort_network 2) [a, b :: bool])" for a b
    by (cases a; cases b; simp add: network_eval)
  then show ?thesis
    by (auto simp: sorts_bools_def Sort_network_def eval_nat_numeral length_Suc_conv)
qed

lemma Sort_network_3: "sorts_bools 3 (Sort_network 3)"
proof -
  have "sorted (run_network (Sort_network 3) [a, b, c :: bool])" for a b c
    by (cases a; cases b; cases c; simp add: network_eval)
  then show ?thesis
    by (auto simp: sorts_bools_def Sort_network_def eval_nat_numeral length_Suc_conv)
qed

lemma Sort_network_4: "sorts_bools 4 (Sort_network 4)"
proof -
  have "sorted (run_network (Sort_network 4) [a, b, c, d :: bool])" for a b c d
    by (cases a; cases b; cases c; cases d; simp add: network_eval)
  then show ?thesis
    by (auto simp: sorts_bools_def Sort_network_def eval_nat_numeral length_Suc_conv)
qed

lemma Sort_network_5: "sorts_bools 5 (Sort_network 5)"
proof -
  have "sorted (run_network (Sort_network 5) [a, b, c, d, e :: bool])" for a b c d e
    by (cases a; cases b; cases c; cases d; cases e; simp add: network_eval)
  then show ?thesis
    by (auto simp: sorts_bools_def Sort_network_def eval_nat_numeral length_Suc_conv)
qed

lemma Sort_network_6: "sorts_bools 6 (Sort_network 6)"
proof -
  have "sorted (run_network (Sort_network 6) [a, b, c, d, e, f :: bool])" for a b c d e f
    by (cases a; cases b; cases c; cases d; cases e; cases f; simp add: network_eval)
  then show ?thesis
    by (auto simp: sorts_bools_def Sort_network_def eval_nat_numeral length_Suc_conv)
qed

lemma Sort_network_7: "sorts_bools 7 (Sort_network 7)"
proof -
  have "sorted (run_network (Sort_network 7) [a, b, c, d, e, f, g :: bool])" for a b c d e f g
    by (cases a; cases b; cases c; cases d; cases e; cases f; cases g; simp add: network_eval)
  then show ?thesis
    by (auto simp: sorts_bools_def Sort_network_def eval_nat_numeral length_Suc_conv)
qed

lemma Sort_network_8: "sorts_bools 8 (Sort_network 8)"
proof -
  have "sorted (run_network (Sort_network 8) [a, b, c, d, e, f, g, h :: bool])" for a b c d e f g h
    by (cases a; cases b; cases c; cases d; cases e; cases f; cases g; cases h; simp add: network_eval)
  then show ?thesis
    by (auto simp: sorts_bools_def Sort_network_def eval_nat_numeral length_Suc_conv)
qed

lemma Sort_network_ok: "2 \<le> n \<Longrightarrow> n \<le> 8 \<Longrightarrow> sorts_bools n (Sort_network n)"
proof -
  assume "2 \<le> n" "n \<le> 8"
  then have "n = 2 \<or> n = 3 \<or> n = 4 \<or> n = 5 \<or> n = 6 \<or> n = 7 \<or> n = 8" by linarith
  then show ?thesis
    using Sort_network_2 Sort_network_3 Sort_network_4 Sort_network_5 Sort_network_6
      Sort_network_7 Sort_network_8 by (elim disjE) simp_all
qed

lemma mset_Sort [perm_simps]: "mset (Sort t) = mset t"
  using Sort_network_ok [of "length t"]
  by (auto simp: Sort_def go_sort_Sort_def sorts_bools_def mset_cas_all)

lemma sorted_Sort: "sorted (map Key (Sort t))"
proof -
  consider "length t \<le> 1" | "2 \<le> length t" "length t \<le> 8" | "length t > 8" by linarith
  then show ?thesis
  proof cases
    case 1
    then show ?thesis by (simp add: Sort_def sorted01)
  next
    case 2
    then have "sorts_bools (length t) (Sort_network (length t))" by (rule Sort_network_ok)
    then show ?thesis
      using 2 sorts_bools_sorts [of "map Key t"]
      by (simp add: Sort_def map_Key_cas_all sorts_bools_def)
  next
    case 3
    then show ?thesis by (simp add: Sort_def go_sort_Sort_def)
  qed
qed

text \<open>
  The contract of a sorting routine on tags, which both the networks and \<open>sort.Sort\<close> fulfil.  No
  key occurs twice in the tag sets the code builds, and then the contract determines the result.
\<close>

locale tag_sorter =
  fixes srt :: "TagSet \<Rightarrow> TagSet"
  assumes mset_srt: "mset (srt t) = mset t"
    and sorted_srt: "sorted (map Key (srt t))"
begin

lemma length_srt: "length (srt t) = length t"
  using mset_srt by (rule mset_eq_length)

lemma set_srt: "set (srt t) = set t"
  using mset_srt by (rule mset_eq_setD)

lemma distinct_srt: "distinct (map Key t) \<Longrightarrow> distinct (map Key (srt t))"
  by (metis mset_eq_imp_distinct_iff mset_map mset_srt)

lemma unique:
  assumes "distinct (map Key t)" and "mset u = mset t" and "sorted (map Key u)"
  shows "srt t = u"
  using assms mset_srt [of t] sorted_srt [of t] distinct_srt [OF assms(1)]
  by (metis sorted_by_key_unique)

lemma perm_cong:
  assumes "distinct (map Key t)" and "mset u = mset t"
  shows "srt u = srt t"
  using assms by (metis mset_srt sorted_srt unique)

lemma sorted_id: "sorted_wrt (<) (map Key t) \<Longrightarrow> srt t = t"
  using unique [of t t] by (simp add: strict_sorted_iff)

lemma strict_srt: "distinct (map Key t) \<Longrightarrow> sorted_wrt (<) (map Key (srt t))"
  by (simp add: strict_sorted_iff sorted_srt distinct_srt)

end

interpretation net: tag_sorter Sort
  by unfold_locales (simp_all add: mset_Sort sorted_Sort)

interpretation std: tag_sorter go_sort_Sort
  by unfold_locales (simp_all add: go_sort_Sort_def)

lemma Sort_eq_go_sort_Sort: "distinct (map Key t) \<Longrightarrow> Sort t = go_sort_Sort t"
  by (rule net.unique) (simp_all add: std.mset_srt std.sorted_srt)

section \<open>Tag sets as finite maps\<close>

definition is_tagset :: "TagSet \<Rightarrow> bool" where
  "is_tagset t \<longleftrightarrow> sorted_wrt (<) (map Key t)"

definition tag_map :: "TagSet \<Rightarrow> string \<rightharpoonup> string" where
  "tag_map t = map_of (map (\<lambda>p. (Key p, Value p)) t)"

text \<open>No tag has an empty key or an empty value.\<close>

definition clean_tags :: "TagSet \<Rightarrow> bool" where
  "clean_tags t \<longleftrightarrow> (\<forall>p \<in> set t. Key p \<noteq> [] \<and> Value p \<noteq> [])"

lemma is_tagset_Nil [simp]: "is_tagset []"
  by (simp add: is_tagset_def)

lemma is_tagset_Cons [simp]:
  "is_tagset (p # t) \<longleftrightarrow> (\<forall>q \<in> set t. Key p < Key q) \<and> is_tagset t"
  by (simp add: is_tagset_def)

lemma is_tagset_append:
  "is_tagset (t @ u) \<longleftrightarrow> is_tagset t \<and> is_tagset u \<and> (\<forall>p \<in> set t. \<forall>q \<in> set u. Key p < Key q)"
  by (auto simp: is_tagset_def sorted_wrt_append)

lemma is_tagset_distinct: "is_tagset t \<Longrightarrow> distinct (map Key t)"
  by (simp add: is_tagset_def strict_sorted_iff)

lemma is_tagset_nth: "is_tagset t \<Longrightarrow> i < j \<Longrightarrow> j < length t \<Longrightarrow> Key (t ! i) < Key (t ! j)"
  by (auto simp: is_tagset_def sorted_wrt_iff_nth_less)

lemma tag_map_Nil [simp]: "tag_map [] = Map.empty"
  by (simp add: tag_map_def)

lemma tag_map_Cons [simp]: "tag_map (p # t) = (tag_map t)(Key p \<mapsto> Value p)"
  by (simp add: tag_map_def)

lemma tag_map_append: "tag_map (t @ u) = tag_map u ++ tag_map t"
  by (simp add: tag_map_def)

lemma dom_tag_map: "dom (tag_map t) = Key ` set t"
  by (simp add: tag_map_def dom_map_of_conv_image_fst image_image)

lemma tag_map_None: "tag_map t k = None \<longleftrightarrow> k \<notin> Key ` set t"
  using dom_tag_map by (auto simp: domIff)

lemma tag_map_notin [simp]: "k \<notin> Key ` set t \<Longrightarrow> tag_map t k = None"
  by (simp add: tag_map_None)

lemma tag_map_Some: "distinct (map Key t) \<Longrightarrow> tag_map t k = Some v \<longleftrightarrow> Tag k v \<in> set t"
  by (simp add: tag_map_def comp_def map_of_eq_Some_iff image_iff) (metis Tag.collapse Tag.sel)

lemma tag_map_mset:
  assumes "mset t = mset u" and "distinct (map Key u)"
  shows "tag_map t = tag_map u"
  unfolding tag_map_def
proof (rule map_of_mset_eq)
  show "mset (map (\<lambda>p. (Key p, Value p)) t) = mset (map (\<lambda>p. (Key p, Value p)) u)"
    using assms(1) by simp
  show "distinct (map fst (map (\<lambda>p. (Key p, Value p)) t))"
    using assms by (simp add: comp_def) (metis mset_eq_imp_distinct_iff mset_map)
qed

text \<open>A tag set is determined by its meaning.\<close>

lemma tag_map_inject:
  assumes "is_tagset t" and "is_tagset u" and "tag_map t = tag_map u"
  shows "t = u"
proof -
  have "set t = set u"
    using tag_map_Some [OF is_tagset_distinct [OF assms(1)]]
      tag_map_Some [OF is_tagset_distinct [OF assms(2)]] assms(3)
    by (metis Tag.collapse subsetI subset_antisym)
  moreover have "distinct t" "distinct u"
    using assms(1,2) by (auto simp: distinct_map dest!: is_tagset_distinct)
  ultimately have "mset t = mset u" by (simp add: set_eq_iff_mset_eq_distinct)
  then show ?thesis
    using assms by (intro sorted_by_key_unique [where f = Key])
      (auto simp: is_tagset_def strict_sorted_iff)
qed

text \<open>The tag set of a map is the sorted list of its tags.\<close>

lemma is_tagset_canonical: "is_tagset t \<Longrightarrow> t = sorted_list_of_set (set t)"
proof -
  assume t: "is_tagset t"
  then have "sorted_wrt (<) t"
    by (auto simp: is_tagset_def sorted_wrt_map less_Tag_def elim!: sorted_wrt_mono_rel [rotated])
  then show ?thesis
    by (simp add: strict_sorted_iff sorted_list_of_set.idem_if_sorted_distinct)
qed

lemma is_tagset_Sort: "distinct (map Key t) \<Longrightarrow> is_tagset (Sort t)"
  by (simp add: is_tagset_def net.strict_srt)

lemma tag_map_Sort: "distinct (map Key t) \<Longrightarrow> tag_map (Sort t) = tag_map t"
  by (rule tag_map_mset [OF net.mset_srt])

end
