(* ===== verification/TagSets.thy ===== *)
theory TagSets
  imports Tags
begin

text \<open>
  \<open>internal/tags/tags.go\<close>, second part: binary search, membership, copy-on-write insertion, and
  the merging of a tag set with a Go map of tags, including the merge of two sorted slices where
  the second one lives in the tail of the slice that receives the result.
\<close>

section \<open>Search\<close>

function Search_loop :: "TagSet \<Rightarrow> string \<Rightarrow> nat \<Rightarrow> nat \<Rightarrow> nat" where
  "Search_loop t key i j =
     (if i < j
      then let h = (i + j) div 2 in
           if Key (t ! h) < key then Search_loop t key (h + 1) j else Search_loop t key i h
      else i)"
  by pat_completeness auto
termination
  by (relation "measure (\<lambda>(_, _, i, j). j - i)") auto

declare Search_loop.simps [simp del]

definition Search :: "TagSet \<Rightarrow> string \<Rightarrow> nat" where
  "Search t key = Search_loop t key 0 (length t)"

definition Contains :: "TagSet \<Rightarrow> string \<Rightarrow> bool" where
  "Contains t key =
     (if length t = 0 then False
      else let i = Search t key in i < length t \<and> Key (t ! i) = key)"

definition Insert :: "TagSet \<Rightarrow> Tag \<Rightarrow> TagSet" where
  "Insert t p =
     (if length t = 0 then [p]
      else let i = Search t (Key p) in
           if i < length t \<and> Key (t ! i) = Key p
           then if Value (t ! i) = Value p then t
                else t[i := Tag (Key (t ! i)) (Value p)]
           else let a = replicate (length t + 1) zero_Tag;
                    a = go_copy a 0 (take i t);
                    a = a[i := p]
                in go_copy a (i + 1) (drop i t))"

lemma Search_loop_steps:
  "\<not> i < j \<Longrightarrow> Search_loop t key i j = i"
  "i < j \<Longrightarrow> Key (t ! ((i + j) div 2)) < key \<Longrightarrow>
     Search_loop t key i j = Search_loop t key ((i + j) div 2 + 1) j"
  "i < j \<Longrightarrow> \<not> Key (t ! ((i + j) div 2)) < key \<Longrightarrow>
     Search_loop t key i j = Search_loop t key i ((i + j) div 2)"
  by (subst Search_loop.simps, simp add: Let_def)+

lemma Search_loop_bounds: "i \<le> j \<Longrightarrow> i \<le> Search_loop t key i j \<and> Search_loop t key i j \<le> j"
proof (induction t key i j rule: Search_loop.induct)
  case (1 t key i j)
  consider "\<not> i < j" | "i < j" "Key (t ! ((i + j) div 2)) < key"
    | "i < j" "\<not> Key (t ! ((i + j) div 2)) < key" by blast
  then show ?case
  proof cases
    case 1
    then show ?thesis using "1.prems" by (simp add: Search_loop_steps)
  next
    case 2
    then have "i \<le> (i + j) div 2" "(i + j) div 2 + 1 \<le> j" by auto
    then show ?thesis using "1.IH"(1) [OF 2(1) refl 2(2)]
      unfolding Search_loop_steps(2) [OF 2] by linarith
  next
    case 3
    then have "i \<le> (i + j) div 2" "(i + j) div 2 \<le> j" by auto
    then show ?thesis using "1.IH"(2) [OF 3(1) refl 3(2)]
      unfolding Search_loop_steps(3) [OF 3] by linarith
  qed
qed

text \<open>The loop invariant: keys left of \<open>i\<close> are smaller than the key, those from \<open>j\<close> on are not.\<close>

lemma Search_loop_spec:
  assumes "is_tagset t" and "i \<le> j" and "j \<le> length t"
    and "\<forall>n < i. Key (t ! n) < key" and "\<forall>n. j \<le> n \<and> n < length t \<longrightarrow> \<not> Key (t ! n) < key"
  shows "Search_loop t key i j = length (takeWhile (\<lambda>p. Key p < key) t)"
  using assms
proof (induction t key i j rule: Search_loop.induct)
  case (1 t key i j)
  let ?h = "(i + j) div 2"
  have mono: "Key (t ! m) \<le> Key (t ! n)" if "m \<le> n" "n < length t" for m n
    using is_tagset_nth [OF "1.prems"(1), of m n] that by (cases "m = n") auto
  consider "\<not> i < j" | "i < j" "Key (t ! ?h) < key" | "i < j" "\<not> Key (t ! ?h) < key" by blast
  then show ?case
  proof cases
    case 1
    then have ij: "i = j" using "1.prems"(2) by simp
    have "takeWhile (\<lambda>p. Key p < key) t = take i t"
      using "1.prems"(3,4,5) ij by (intro takeWhile_eq_take_P_nth) auto
    with 1 show ?thesis using "1.prems"(3) ij by (simp add: Search_loop_steps)
  next
    case 2
    then have "?h < length t" using "1.prems"(3) by simp
    then have "\<forall>n < ?h + 1. Key (t ! n) < key"
      using mono [of _ ?h] 2(2) by (auto simp: less_Suc_eq_le intro: le_less_trans)
    with 2 "1.IH"(1) [OF 2(1) refl 2(2)] "1.prems" show ?thesis
      by (simp add: Search_loop_steps)
  next
    case 3
    then have "?h \<le> length t" using "1.prems"(3) by simp
    moreover have "\<forall>n. ?h \<le> n \<and> n < length t \<longrightarrow> \<not> Key (t ! n) < key"
      using mono [of ?h] 3(2) by (meson less_le_trans not_less)
    ultimately show ?thesis using 3 "1.IH"(2) [OF 3(1) refl 3(2)] "1.prems"
      by (simp add: Search_loop_steps)
  qed
qed

lemma Search_eq: "is_tagset t \<Longrightarrow> Search t key = length (takeWhile (\<lambda>p. Key p < key) t)"
  unfolding Search_def by (rule Search_loop_spec) auto

lemma Search_le: "Search t key \<le> length t"
  unfolding Search_def using Search_loop_bounds [of 0 "length t" t key] by simp

text \<open>Where the key splits the tag set.\<close>

lemma Search_split:
  assumes "is_tagset t"
  obtains u v where "t = u @ v" "Search t key = length u" "\<forall>p \<in> set u. Key p < key"
    "\<forall>p \<in> set v. key \<le> Key p"
proof
  let ?P = "\<lambda>p. Key p < key"
  show "t = takeWhile ?P t @ dropWhile ?P t" by simp
  show "Search t key = length (takeWhile ?P t)" using assms by (rule Search_eq)
  show "\<forall>p \<in> set (takeWhile ?P t). Key p < key" by (auto dest: set_takeWhileD)
  show "\<forall>p \<in> set (dropWhile ?P t). key \<le> Key p"
  proof (cases "dropWhile ?P t")
    case Nil
    then show ?thesis by (simp only: Nil list.set ball_simps)
  next
    case (Cons q v)
    then have "\<not> Key q < key" by (metis dropWhile_eq_Cons_conv)
    moreover have "is_tagset (takeWhile ?P t @ q # v)"
      using assms Cons by (metis takeWhile_dropWhile_id)
    ultimately show ?thesis using Cons by (auto simp: is_tagset_append)
  qed
qed

section \<open>Membership and insertion\<close>

lemma Contains_iff:
  assumes "is_tagset t"
  shows "Contains t key \<longleftrightarrow> key \<in> dom (tag_map t)"
proof -
  obtain u v where s: "t = u @ v" "Search t key = length u" "\<forall>p \<in> set u. Key p < key"
      "\<forall>p \<in> set v. key \<le> Key p"
    using assms by (rule Search_split)
  have u: "key \<notin> Key ` set u" using s(3) by auto
  show ?thesis
  proof (cases v)
    case Nil
    with s u show ?thesis by (simp add: Contains_def dom_tag_map Let_def)
  next
    case (Cons q w)
    then have "key \<in> Key ` set v \<longleftrightarrow> Key q = key"
      using s(1,4) assms by (fastforce simp: is_tagset_append)
    with s u Cons show ?thesis
      by (auto simp: Contains_def dom_tag_map Let_def)
  qed
qed

lemma copy_insert:
  assumes "length a = length u + length v + 1"
  shows "go_copy ((go_copy a 0 u)[length u := p]) (length u + 1) v = u @ p # v"
proof -
  have "go_copy a 0 u = u @ drop (length u) a"
    by (simp add: go_copy_def go_copy_n_def assms)
  moreover have "length (drop (length u) a) = Suc (length v)" using assms by simp
  then obtain z w where "drop (length u) a = z # w" "length w = length v"
    by (cases "drop (length u) a") auto
  ultimately show ?thesis by (simp add: go_copy_def go_copy_n_def list_update_append)
qed

lemma Insert_split:
  assumes "t = u @ v" and "Search t (Key p) = length u"
    and "\<forall>q \<in> set u. Key q < Key p" 
  shows "Insert t p = u @ p # (case v of [] \<Rightarrow> [] | q # w \<Rightarrow> if Key q = Key p then w else q # w)"
proof -
  have copy: "go_copy ((go_copy (replicate (length t + 1) zero_Tag) 0 u)[length u := p]) (length u + 1) v
      = u @ p # v"
    using assms(1) by (intro copy_insert) simp
  show ?thesis
  proof (cases v)
    case Nil
    with assms copy show ?thesis by (auto simp: Insert_def Let_def)
  next
    case (Cons q w)
    with assms copy show ?thesis
      by (cases p; cases q) (auto simp: Insert_def Let_def list_update_append)
  qed
qed

lemma Insert_correct:
  assumes "is_tagset t"
  shows "is_tagset (Insert t p)" (is ?A)
    and "tag_map (Insert t p) = (tag_map t)(Key p \<mapsto> Value p)" (is ?B)
    and "set (Insert t p) \<subseteq> insert p (set t)" (is ?C)
proof -
  obtain u v where s: "t = u @ v" "Search t (Key p) = length u" "\<forall>q \<in> set u. Key q < Key p"
      "\<forall>q \<in> set v. Key p \<le> Key q"
    using assms by (rule Search_split)
  note I = Insert_split [OF s(1-3)]
  have u: "Key p \<notin> Key ` set u" using s(3) by auto
  show ?A
  proof (cases v)
    case Nil
    with I assms s show ?thesis by (auto simp: is_tagset_append)
  next
    case (Cons q w)
    have "Key p < Key q" if "Key q \<noteq> Key p" using s(4) Cons that by force
    moreover have "Key p < Key r" if "r \<in> set w" for r
      using assms s(1,4) Cons that by (fastforce simp: is_tagset_append)
    ultimately show ?thesis using I assms s(1,3) Cons by (auto simp: is_tagset_append)
  qed
  show ?C using I s(1) by (auto split: list.splits if_splits)
  show ?B
  proof (cases v)
    case Nil
    with I s(1) u show ?thesis
      by (auto simp: tag_map_append fun_eq_iff map_add_def split: option.split)
  next
    case (Cons q w)
    with I s(1) u show ?thesis
      by (auto simp: tag_map_append fun_eq_iff map_add_def split: option.split)
  qed
qed

text \<open>
  The interface under which tag sets are used as dictionaries: a lookup, an update and an
  invariant, with extensionality because the representation is canonical.
\<close>

locale tag_dict =
  fixes ok :: "'t \<Rightarrow> bool"
    and get :: "'t \<Rightarrow> string \<rightharpoonup> string"
    and has :: "'t \<Rightarrow> string \<Rightarrow> bool"
    and put :: "'t \<Rightarrow> Tag \<Rightarrow> 't"
  assumes ok_put: "ok t \<Longrightarrow> ok (put t p)"
    and get_put: "ok t \<Longrightarrow> get (put t p) = (get t)(Key p \<mapsto> Value p)"
    and has_iff: "ok t \<Longrightarrow> has t k \<longleftrightarrow> k \<in> dom (get t)"
    and ext: "ok t \<Longrightarrow> ok u \<Longrightarrow> get t = get u \<Longrightarrow> t = u"
begin

lemma put_idem: "ok t \<Longrightarrow> get t (Key p) = Some (Value p) \<Longrightarrow> put t p = t"
  by (rule ext) (auto simp: ok_put get_put fun_eq_iff)

lemma put_put_same: "ok t \<Longrightarrow> Key p = Key q \<Longrightarrow> put (put t p) q = put t q"
  by (rule ext) (auto simp: ok_put get_put)

lemma put_comm: "ok t \<Longrightarrow> Key p \<noteq> Key q \<Longrightarrow> put (put t p) q = put (put t q) p"
  by (rule ext) (auto simp: ok_put get_put fun_upd_twist)

lemma has_put: "ok t \<Longrightarrow> has (put t p) k \<longleftrightarrow> k = Key p \<or> has t k"
  by (auto simp: ok_put get_put has_iff)

end

interpretation ts: tag_dict is_tagset tag_map Contains Insert
  by unfold_locales (auto simp: Insert_correct Contains_iff tag_map_inject)

lemma clean_Insert:
  "is_tagset t \<Longrightarrow> clean_tags t \<Longrightarrow> Key p \<noteq> [] \<Longrightarrow> Value p \<noteq> [] \<Longrightarrow> clean_tags (Insert t p)"
  using Insert_correct(3) [of t p] by (auto simp: clean_tags_def)

section \<open>Building a tag set from a Go map\<close>

abbreviation valid_pair :: "string \<times> string \<Rightarrow> bool" where
  "valid_pair kv \<equiv> fst kv \<noteq> [] \<and> snd kv \<noteq> []"

definition NewTagSet :: "string go_map \<Rightarrow> TagSet" where
  "NewTagSet tags =
     Sort (foldl (\<lambda>a (k, v). if k \<noteq> [] \<and> v \<noteq> [] then a @ [NewTag k v] else a) [] tags)"

text \<open>What a tag map means: empty keys and values are dropped, values are cleaned.\<close>

definition clean_map :: "string go_map \<Rightarrow> string \<rightharpoonup> string" where
  "clean_map tags k =
     (if k = [] then None
      else case map_of tags k of
             None \<Rightarrow> None
           | Some v \<Rightarrow> if v = [] then None else Some (ReplaceChars v))"

definition valid_tags :: "string go_map \<Rightarrow> TagSet" where
  "valid_tags tags = map (\<lambda>(k, v). NewTag k v) (filter valid_pair tags)"

lemma valid_tags_simps [simp]:
  "valid_tags [] = []"
  "valid_tags ((k, v) # tags) =
     (if k \<noteq> [] \<and> v \<noteq> [] then NewTag k v # valid_tags tags else valid_tags tags)"
  by (simp_all add: valid_tags_def)

lemma append_valid_tags:
  "foldl (\<lambda>a (k, v). if k \<noteq> [] \<and> v \<noteq> [] then a @ [NewTag k v] else a) a tags = a @ valid_tags tags"
  by (induction tags arbitrary: a) auto

lemma length_valid_tags: "length (valid_tags tags) \<le> length tags"
  by (simp add: valid_tags_def)

lemma Key_valid_tags: "Key ` set (valid_tags tags) \<subseteq> fst ` set tags"
  unfolding valid_tags_def by force

lemma distinct_valid_tags: "distinct (map fst tags) \<Longrightarrow> distinct (map Key (valid_tags tags))"
proof (induction tags)
  case (Cons kv tags)
  then show ?case using Key_valid_tags [of tags] by (cases kv) auto
qed simp

lemma clean_valid_tags: "clean_tags (valid_tags tags)"
  by (auto simp: clean_tags_def valid_tags_def)

lemma tag_map_valid_tags: "distinct (map fst tags) \<Longrightarrow> tag_map (valid_tags tags) = clean_map tags"
proof (induction tags)
  case Nil
  then show ?case by (simp add: clean_map_def fun_eq_iff)
next
  case (Cons kv tags)
  then have "map_of tags (fst kv) = None" by (auto simp: map_of_eq_None_iff)
  with Cons show ?case
    by (cases kv) (auto simp: clean_map_def fun_eq_iff split: option.splits)
qed

lemma NewTagSet_eq: "NewTagSet tags = Sort (valid_tags tags)"
  by (simp add: NewTagSet_def append_valid_tags)

lemma NewTagSet_correct:
  assumes "distinct (map fst tags)"
  shows "is_tagset (NewTagSet tags)" "tag_map (NewTagSet tags) = clean_map tags"
    "clean_tags (NewTagSet tags)"
  using distinct_valid_tags [OF assms] tag_map_valid_tags [OF assms] clean_valid_tags [of tags]
  by (simp_all add: NewTagSet_eq is_tagset_Sort tag_map_Sort clean_tags_def net.set_srt)

section \<open>Merging two sorted slices that overlap\<close>

text \<open>
  \<open>mergeTagSets(s1, s2, scratch)\<close>.  Every caller passes for \<open>s2\<close> a slice of \<open>scratch\<close> itself, so
  \<open>s2\<close> is given by its offset and its length in \<open>scratch\<close>, and reads of \<open>s2[j]\<close> see the
  writes that the loop has already made.
\<close>

function merge_loop ::
    "TagSet \<Rightarrow> nat \<Rightarrow> nat \<Rightarrow> TagSet \<Rightarrow> nat \<Rightarrow> nat \<Rightarrow> nat \<Rightarrow> TagSet \<times> nat \<times> nat \<times> nat" where
  "merge_loop s1 off n2 a i j k =
     (if i < length s1 \<and> j < n2 \<and> k < length a
      then if Key (s1 ! i) = Key (a ! (off + j))
           then merge_loop s1 off n2 (a[k := a ! (off + j)]) (i + 1) (j + 1) (k + 1)
           else if Key (s1 ! i) < Key (a ! (off + j))
           then merge_loop s1 off n2 (a[k := s1 ! i]) (i + 1) j (k + 1)
           else merge_loop s1 off n2 (a[k := a ! (off + j)]) i (j + 1) (k + 1)
      else (a, i, j, k))"
  by pat_completeness auto
termination
  by (relation "measure (\<lambda>(_, _, _, a, _, _, k). length a - k)") auto

declare merge_loop.simps [simp del]

definition merge_rest :: "TagSet \<Rightarrow> nat \<Rightarrow> nat \<Rightarrow> TagSet \<times> nat \<times> nat \<times> nat \<Rightarrow> TagSet" where
  "merge_rest s1 off n2 st =
     (case st of (a, i, j, k) \<Rightarrow>
        let (a, k) = (if i < length s1
                      then let src = drop i s1 in (go_copy a k src, k + go_copy_n a k src)
                      else (a, k));
            (a, k) = (if j < n2
                      then let src = take (n2 - j) (drop (off + j) a)
                           in (go_copy a k src, k + go_copy_n a k src)
                      else (a, k))
        in take k a)"

definition mergeTagSets :: "TagSet \<Rightarrow> nat \<Rightarrow> nat \<Rightarrow> TagSet \<Rightarrow> TagSet" where
  "mergeTagSets s1 off n2 scratch = merge_rest s1 off n2 (merge_loop s1 off n2 scratch 0 0 0)"

text \<open>The merge as a function of two lists, in which the second list wins.\<close>

fun merge_lists :: "TagSet \<Rightarrow> TagSet \<Rightarrow> TagSet" where
  "merge_lists [] t2 = t2"
| "merge_lists t1 [] = t1"
| "merge_lists (p # t1) (q # t2) =
     (if Key p = Key q then q # merge_lists t1 t2
      else if Key p < Key q then p # merge_lists t1 (q # t2)
      else q # merge_lists (p # t1) t2)"

lemma merge_lists_Nil2 [simp]: "merge_lists t1 [] = t1"
  by (cases t1) simp_all

lemma set_merge_lists: "set (merge_lists t1 t2) \<subseteq> set t1 \<union> set t2"
  by (induction t1 t2 rule: merge_lists.induct) auto

lemma is_tagset_merge_lists: "is_tagset t1 \<Longrightarrow> is_tagset t2 \<Longrightarrow> is_tagset (merge_lists t1 t2)"
proof (induction t1 t2 rule: merge_lists.induct)
  case (3 p t1 q t2)
  consider "Key p = Key q" | "Key p < Key q" | "Key q < Key p" by force
  then show ?case
  proof cases
    case 1
    with 3 have "is_tagset (merge_lists t1 t2)" by simp
    with 1 "3.prems" show ?thesis using set_merge_lists [of t1 t2] by auto
  next
    case 2
    then have "Key p \<noteq> Key q" by simp
    with 2 3 have "is_tagset (merge_lists t1 (q # t2))" by simp
    moreover have "\<forall>r \<in> set t1 \<union> set (q # t2). Key p < Key r"
      using 2 "3.prems" by (auto intro: less_trans)
    ultimately show ?thesis
      using 2 \<open>Key p \<noteq> Key q\<close> set_merge_lists [of t1 "q # t2"] by auto
  next
    case gt: 3
    then have "Key p \<noteq> Key q" "\<not> Key p < Key q" by auto
    with 3 have "is_tagset (merge_lists (p # t1) t2)" by simp
    moreover have "\<forall>r \<in> set (p # t1) \<union> set t2. Key q < Key r"
      using gt "3.prems" by (auto intro: less_trans)
    ultimately show ?thesis
      using gt \<open>Key p \<noteq> Key q\<close> set_merge_lists [of "p # t1" t2] by auto
  qed
qed auto

lemma tag_map_merge_lists:
  "is_tagset t1 \<Longrightarrow> is_tagset t2 \<Longrightarrow> tag_map (merge_lists t1 t2) = tag_map t1 ++ tag_map t2"
proof (induction t1 t2 rule: merge_lists.induct)
  case (3 p t1 q t2)
  consider "Key p = Key q" | "Key p < Key q" | "Key q < Key p" by force
  then show ?case
  proof cases
    case 1
    have "tag_map (merge_lists t1 t2) = tag_map t1 ++ tag_map t2"
      using "3.IH"(1) [OF 1] "3.prems" by simp
    with 1 show ?thesis by (simp add: fun_eq_iff map_add_def)
  next
    case 2
    then have ne: "Key p \<noteq> Key q" by simp
    have IH: "tag_map (merge_lists t1 (q # t2)) = tag_map t1 ++ tag_map (q # t2)"
      using "3.IH"(2) [OF ne 2] "3.prems" by (simp del: tag_map_Cons)
    have notin: "Key p \<notin> dom (tag_map (q # t2))"
      using 2 "3.prems" unfolding dom_tag_map by auto
    have "tag_map (merge_lists (p # t1) (q # t2)) =
        (tag_map (merge_lists t1 (q # t2)))(Key p \<mapsto> Value p)"
      using 2 ne by simp
    also have "\<dots> = tag_map (p # t1) ++ tag_map (q # t2)"
      by (simp only: IH map_add_upd_left [OF notin] tag_map_Cons [of p])
    finally show ?thesis .
  next
    case gt: 3
    then have ne: "Key p \<noteq> Key q" "\<not> Key p < Key q" by auto
    have "tag_map (merge_lists (p # t1) t2) = tag_map (p # t1) ++ tag_map t2"
      using "3.IH"(3) [OF ne] "3.prems" by (simp del: tag_map_Cons)
    then show ?thesis
      by (simp only: merge_lists.simps ne if_False tag_map_Cons [of q] map_add_upd)
  qed
qed auto

end
