(* ===== verification/TagMerge.thy ===== *)
theory TagMerge
  imports TagSets
begin

text \<open>
  \<open>internal/tags/tags.go\<close>, third part: the scratch slice shared by the result and the second
  operand of \<open>mergeTagSets\<close>, and the operations built on it, \<open>MergeTags\<close>,
  \<open>mergeOneTag\<close> and \<open>MergePerInstanceTags\<close>.
\<close>

section \<open>The overlapping merge computes the merge of the two lists\<close>

text \<open>
  The write position \<open>k\<close> never passes \<open>i + j\<close>, and \<open>i < length s1 \<le> off\<close> inside the loop,
  so it stays left of \<open>off + j\<close>, the first element of \<open>s2\<close> still to be read.
\<close>

definition merge_inv :: "TagSet \<Rightarrow> nat \<Rightarrow> nat \<Rightarrow> TagSet \<Rightarrow> nat \<Rightarrow> nat \<Rightarrow> nat \<Rightarrow> bool" where
  "merge_inv s1 off n2 a i j k \<longleftrightarrow>
     length s1 \<le> off \<and> off + n2 \<le> length a \<and> i \<le> length s1 \<and> j \<le> n2 \<and> k \<le> i + j"

lemma take_drop_update:
  "k < off \<Longrightarrow> k < length a \<Longrightarrow>
     take n (drop off (a[k := x])) = take n (drop off a) \<and> take (Suc k) (a[k := x]) = take k a @ [x]"
  by (simp add: take_Suc_conv_app_nth)

lemma take_one_update: "k < length a \<Longrightarrow> take (Suc 0) (drop k (a[k := x])) = [x]"
  by (simp add: Cons_nth_drop_Suc [symmetric])

lemma take_go_copy:
  "k \<le> length a \<Longrightarrow> k + length src \<le> length a \<Longrightarrow>
     take (k + go_copy_n a k src) (go_copy a k src) = take k a @ src"
  by (simp add: go_copy_def go_copy_n_def Let_def)

lemma slice_Cons:
  "j < n2 \<Longrightarrow> off + n2 \<le> length (a :: 'a list) \<Longrightarrow>
     take (n2 - j) (drop (off + j) a) = a ! (off + j) # take (n2 - Suc j) (drop (off + Suc j) a)"
  by (subst Cons_nth_drop_Suc [symmetric]) (auto simp: take_Cons' Suc_diff_Suc)

lemma merge_rest_eq:
  assumes "merge_inv s1 off n2 a i j k" and "i = length s1 \<or> j = n2"
  shows "merge_rest s1 off n2 (a, i, j, k) =
           take k a @ merge_lists (drop i s1) (take (n2 - j) (drop (off + j) a))"
proof (cases "i < length s1")
  case True
  then have "j = n2" "k + length (drop i s1) \<le> length a" "k \<le> length a"
    using assms by (auto simp: merge_inv_def)
  with True show ?thesis by (simp add: merge_rest_def Let_def take_go_copy)
next
  case False
  then have i: "i = length s1" using assms(1) by (simp add: merge_inv_def)
  show ?thesis
  proof (cases "j < n2")
    case True
    have "k + length (take (n2 - j) (drop (off + j) a)) \<le> length a" "k \<le> length a"
      using assms i by (auto simp: merge_inv_def)
    then show ?thesis using i True by (simp add: merge_rest_def Let_def take_go_copy del: length_take)
  next
    case False
    then show ?thesis using i by (simp add: merge_rest_def)
  qed
qed

lemma merge_loop_eq:
  assumes "merge_inv s1 off n2 a i j k"
  shows "merge_rest s1 off n2 (merge_loop s1 off n2 a i j k) =
           take k a @ merge_lists (drop i s1) (take (n2 - j) (drop (off + j) a))"
  using assms
proof (induction s1 off n2 a i j k rule: merge_loop.induct)
  case (1 s1 off n2 a i j k)
  show ?case
  proof (cases "i < length s1 \<and> j < n2 \<and> k < length a")
    case True
    let ?q = "a ! (off + j)"
    have k: "k < off + j" using True "1.prems" by (auto simp: merge_inv_def)
    have d1: "drop i s1 = s1 ! i # drop (Suc i) s1"
      using True by (simp add: Cons_nth_drop_Suc)
    have d2: "take (n2 - j) (drop (off + j) a) = ?q # take (n2 - Suc j) (drop (off + Suc j) a)"
      using True "1.prems" by (intro slice_Cons) (auto simp: merge_inv_def)
    have upd: "take n (drop (off + j) (a[k := x])) = take n (drop (off + j) a)"
        "take n (drop (off + Suc j) (a[k := x])) = take n (drop (off + Suc j) a)"
        "take (Suc k) (a[k := x]) = take k a @ [x]" for n x
      using k True take_drop_update [of k "off + j" a n x] take_drop_update [of k "off + Suc j" a n x]
      by auto
    have inv: "merge_inv s1 off n2 (a[k := x]) (i + 1) (j + 1) (k + 1)"
        "merge_inv s1 off n2 (a[k := x]) (i + 1) j (k + 1)"
        "merge_inv s1 off n2 (a[k := x]) i (j + 1) (k + 1)" for x
      using True "1.prems" by (auto simp: merge_inv_def)
    note step = merge_loop.simps [of s1 off n2 a i j k]
    consider "Key (s1 ! i) = Key ?q" | "Key (s1 ! i) \<noteq> Key ?q" "Key (s1 ! i) < Key ?q"
      | "Key (s1 ! i) \<noteq> Key ?q" "\<not> Key (s1 ! i) < Key ?q" by blast
    then show ?thesis
    proof cases
      case 1
      show ?thesis using "1.IH"(1) [OF True 1 inv(1)] 1 True
        by (simp add: step d1 d2 upd k less_SucI [OF k])
    next
      case 2
      show ?thesis using "1.IH"(2) [OF True 2 inv(2)] 2 True
        by (simp add: step d1 d2 upd k less_SucI [OF k])
    next
      case 3
      show ?thesis using "1.IH"(3) [OF True 3 inv(3)] 3 True
        by (simp add: step d1 d2 upd k less_SucI [OF k])
    qed
  next
    case False
    moreover have "k < length a" if "i < length s1" "j < n2"
      using "1.prems" that by (auto simp: merge_inv_def)
    ultimately have "i = length s1 \<or> j = n2" using "1.prems" by (auto simp: merge_inv_def)
    then show ?thesis
      by (simp only: merge_loop.simps [of s1 off n2 a i j k] False if_False
            merge_rest_eq [OF "1.prems"])
  qed
qed

lemma mergeTagSets_eq:
  assumes "length s1 \<le> off" and "off + n2 \<le> length scratch"
  shows "mergeTagSets s1 off n2 scratch = merge_lists s1 (take n2 (drop off scratch))"
  using merge_loop_eq [of s1 off n2 scratch 0 0 0] assms
  by (simp add: mergeTagSets_def merge_inv_def)

section \<open>Merging a Go map into a tag set\<close>

text \<open>The loop that writes the cleaned tags of a map to \<open>scratch[off + i]\<close>.\<close>

definition fill_tags :: "nat \<Rightarrow> string go_map \<Rightarrow> TagSet \<times> nat \<Rightarrow> TagSet \<times> nat" where
  "fill_tags off tags st =
     foldl (\<lambda>(scratch, i) (k, v).
              if k \<noteq> [] \<and> v \<noteq> [] then (scratch[off + i := NewTag k v], i + 1) else (scratch, i))
       st tags"

text \<open>\<open>a := scratch[off:][:n]; a.Sort()\<close>, which sorts within \<open>scratch\<close>.\<close>

definition sort_slice :: "nat \<Rightarrow> nat \<Rightarrow> TagSet \<Rightarrow> TagSet" where
  "sort_slice off n scratch =
     take off scratch @ Sort (take n (drop off scratch)) @ drop (off + n) scratch"

definition mergeOneTag :: "TagSet \<Rightarrow> string go_map \<Rightarrow> TagSet option" where
  "mergeOneTag ts tags =
     (case tags of
        [(k, v)] \<Rightarrow>
          let p = NewTag k v in
          Some (if Key p = [] \<or> Value p = [] then ts else Insert ts p)
      | _ \<Rightarrow> None)"

definition MergeTags :: "TagSet \<Rightarrow> string go_map \<Rightarrow> TagSet option" where
  "MergeTags t tags =
     (if length tags = 0 then Some t
      else if length tags = 1 then mergeOneTag t tags
      else let scratch = replicate (length t + length tags) zero_Tag;
               (scratch, i) = fill_tags (length t) tags (scratch, 0);
               scratch = sort_slice (length t) i scratch
           in if length t = 0 then Some (take i (drop (length t) scratch))
              else Some (mergeTagSets t (length t) i scratch))"

definition map_index :: "string go_map \<Rightarrow> string \<Rightarrow> string" where
  "map_index m k = (case map_of m k of None \<Rightarrow> [] | Some v \<Rightarrow> v)"

definition MergePerInstanceTags :: "TagSet \<Rightarrow> string go_map \<Rightarrow> TagSet" where
  "MergePerInstanceTags t tags =
     (if length tags = 0
      then if Contains t ''_f'' then t else Insert t (Tag ''_f'' ''i'')
      else let scratch = replicate (length t + length tags + 1) zero_Tag;
               (scratch, i) =
                 (if map_index tags ''_f'' = [] \<and> \<not> Contains t ''_f''
                  then (scratch[length t + 0 := Tag ''_f'' ''i''], 1) else (scratch, 0));
               (scratch, i) = fill_tags (length t) tags (scratch, i);
               scratch = sort_slice (length t) i scratch
           in if length t = 0 then take i (drop (length t) scratch)
              else mergeTagSets t (length t) i scratch)"

lemma fill_tags_eq:
  assumes "off + i + length (valid_tags tags) \<le> length a"
  shows "fill_tags off tags (a, i) =
           (take (off + i) a @ valid_tags tags @ drop (off + i + length (valid_tags tags)) a,
            i + length (valid_tags tags))"
  using assms
proof (induction tags arbitrary: a i)
  case Nil
  then show ?case by (simp add: fill_tags_def)
next
  case (Cons kv tags)
  obtain k v where kv: "kv = (k, v)" by (cases kv)
  show ?case
  proof (cases "k \<noteq> [] \<and> v \<noteq> []")
    case True
    have "fill_tags off (kv # tags) (a, i) = fill_tags off tags (a[off + i := NewTag k v], i + 1)"
      using True by (simp add: fill_tags_def kv)
    also have "\<dots> = (take (off + (i + 1)) (a[off + i := NewTag k v]) @ valid_tags tags @
         drop (off + (i + 1) + length (valid_tags tags)) (a[off + i := NewTag k v]),
         i + 1 + length (valid_tags tags))"
      using Cons.prems True by (intro Cons.IH) (simp add: kv)
    finally show ?thesis using Cons.prems True by (simp add: kv take_Suc_conv_app_nth)
  next
    case False
    then have "fill_tags off (kv # tags) (a, i) = fill_tags off tags (a, i)"
      by (auto simp: fill_tags_def kv)
    with False Cons show ?thesis by (auto simp: kv)
  qed
qed

text \<open>The scratch slice after the map has been written and sorted.\<close>

lemma sort_slice_append:
  "length u = off \<Longrightarrow> length w = n \<Longrightarrow> sort_slice off n (u @ w @ r) = u @ Sort w @ r"
  by (simp add: sort_slice_def)

lemma sort_filled:
  assumes "off + i + length (valid_tags tags) \<le> length a"
    and "fill_tags off tags (a, i) = (b, n)"
  shows "n = i + length (valid_tags tags)"
    and "length (sort_slice off n b) = length a"
    and "take n (drop off (sort_slice off n b)) = Sort (take i (drop off a) @ valid_tags tags)"
proof -
  let ?w = "take i (drop off a) @ valid_tags tags"
  note f = fill_tags_eq [OF assms(1)]
  show n: "n = i + length (valid_tags tags)" using f assms(2) by simp
  have "b = take (off + i) a @ valid_tags tags @ drop (off + n) a"
    using f assms(2) n by (simp add: add.assoc)
  also have "take (off + i) a = take off a @ take i (drop off a)" by (rule take_add)
  finally have b: "b = take off a @ ?w @ drop (off + n) a" by simp
  have "sort_slice off n b = take off a @ Sort ?w @ drop (off + n) a"
    unfolding b using assms(1) n by (intro sort_slice_append) auto
  then show "length (sort_slice off n b) = length a"
      "take n (drop off (sort_slice off n b)) = Sort ?w"
    using assms(1) n by (auto simp: net.length_srt)
qed

section \<open>What the merges mean\<close>

lemma merge_slice_correct:
  assumes "is_tagset t" and "length t + n \<le> length scratch"
    and "w = take n (drop (length t) scratch)" and "is_tagset w"
    and "u = (if length t = 0 then w else mergeTagSets t (length t) n scratch)"
  shows "is_tagset u" "tag_map u = tag_map t ++ tag_map w" "set u \<subseteq> set t \<union> set w"
proof -
  have "u = merge_lists t w" using assms(2,3,5) mergeTagSets_eq [of t "length t" n scratch] by auto
  then show "is_tagset u" "tag_map u = tag_map t ++ tag_map w" "set u \<subseteq> set t \<union> set w"
    using assms(1,4) set_merge_lists
    by (simp_all add: is_tagset_merge_lists tag_map_merge_lists)
qed

text \<open>
  Both merges write tags to the tail of \<open>scratch\<close> (\<open>pre\<close> holds those written before the loop),
  sort them there and merge them with \<open>t\<close>.
\<close>

lemma fill_merge_correct:
  assumes t: "is_tagset t" "clean_tags t"
    and pre: "take (length pre) (drop (length t) a) = pre" "clean_tags pre"
      "distinct (map Key (pre @ valid_tags tags))"
    and fits: "length t + length pre + length tags \<le> length a"
    and bn: "fill_tags (length t) tags (a, length pre) = (b, n)"
    and s: "s = sort_slice (length t) n b"
    and u: "u = (if length t = 0 then take n (drop (length t) s) else mergeTagSets t (length t) n s)"
  shows "is_tagset u" and "clean_tags u"
    and "tag_map u = tag_map t ++ tag_map (pre @ valid_tags tags)"
proof -
  define w where "w = take n (drop (length t) s)"
  have "length t + length pre + length (valid_tags tags) \<le> length a"
    using fits length_valid_tags [of tags] by simp
  note f = sort_filled [OF this bn]
  have w: "w = Sort (pre @ valid_tags tags)" using f(3) pre(1) by (simp add: w_def s)
  have len: "length t + n \<le> length s"
    unfolding s f(2) using f(1) fits length_valid_tags [of tags] by simp
  have wts: "is_tagset w" unfolding w by (rule is_tagset_Sort [OF pre(3)])
  have wclean: "clean_tags w"
    using clean_valid_tags [of tags] pre(2) by (auto simp: w clean_tags_def net.set_srt)
  have "u = (if length t = 0 then w else mergeTagSets t (length t) n s)"
    by (simp add: u w_def)
  note m = merge_slice_correct [OF t(1) len w_def wts this]
  show "is_tagset u" by (rule m(1))
  show "clean_tags u" using m(3) t(2) wclean by (auto simp: clean_tags_def)
  show "tag_map u = tag_map t ++ tag_map (pre @ valid_tags tags)"
    using m(2) by (simp add: w tag_map_Sort [OF pre(3)])
qed

lemma clean_map_single: "clean_map [(k, v)] = (if k = [] \<or> v = [] then Map.empty else [k \<mapsto> ReplaceChars v])"
  by (auto simp: clean_map_def fun_eq_iff)

lemma clean_map_Nil [simp]: "clean_map [] = Map.empty"
  by (simp add: clean_map_def fun_eq_iff)

lemma MergeTags_correct:
  assumes "is_tagset t" and "clean_tags t" and "distinct (map fst tags)"
  shows "\<exists>u. MergeTags t tags = Some u \<and> is_tagset u \<and> clean_tags u \<and>
             tag_map u = tag_map t ++ clean_map tags"
proof -
  consider (none) "tags = []" | (one) k v where "tags = [(k, v)]" | (many) "length tags \<ge> 2"
    by (cases tags rule: remdups_adj.cases) auto
  then show ?thesis
  proof cases
    case none
    with assms show ?thesis by (simp add: MergeTags_def)
  next
    case one
    then show ?thesis using assms Insert_correct [of t "NewTag k v"]
      by (simp add: MergeTags_def mergeOneTag_def Let_def clean_map_single clean_Insert)
  next
    case many
    let ?a = "replicate (length t + length tags) zero_Tag"
    obtain b n where bn: "fill_tags (length t) tags (?a, 0) = (b, n)" by fastforce
    define s where "s = sort_slice (length t) n b"
    define u where "u = (if length t = 0 then take n (drop (length t) s)
                         else mergeTagSets t (length t) n s)"
    have "tags \<noteq> []" "length tags \<noteq> 1" using many by auto
    then have "MergeTags t tags = Some u" using bn by (simp add: MergeTags_def u_def s_def)
    moreover have "take (length []) (drop (length t) ?a) = []" "clean_tags []"
        "distinct (map Key ([] @ valid_tags tags))"
        "length t + length [] + length tags \<le> length ?a"
        "fill_tags (length t) tags (?a, length []) = (b, n)"
      using bn by (simp_all add: clean_tags_def distinct_valid_tags assms(3))
    note fill_merge_correct [OF assms(1,2) this s_def u_def]
    ultimately show ?thesis by (auto simp: tag_map_valid_tags assms(3))
  qed
qed

text \<open>The per-instance tag is added exactly where neither the scope nor the map has one.\<close>

definition with_instance_tag :: "(string \<rightharpoonup> string) \<Rightarrow> string \<rightharpoonup> string" where
  "with_instance_tag m = (if ''_f'' \<in> dom m then m else m(''_f'' \<mapsto> ''i''))"

lemma map_index_clean: "map_index tags ''_f'' = [] \<longleftrightarrow> ''_f'' \<notin> dom (clean_map tags)"
  by (auto simp: map_index_def clean_map_def split: option.splits)

lemma MergePerInstanceTags_correct:
  assumes "is_tagset t" and "clean_tags t" and "distinct (map fst tags)"
  shows "is_tagset (MergePerInstanceTags t tags)" (is ?A)
    and "clean_tags (MergePerInstanceTags t tags)" (is ?B)
    and "tag_map (MergePerInstanceTags t tags) =
           with_instance_tag (tag_map t ++ clean_map tags)" (is ?C)
proof -
  have "?A \<and> ?B \<and> ?C"
  proof (cases "tags = []")
    case True
    then show ?thesis using assms Insert_correct [of t "Tag ''_f'' ''i''"]
      by (auto simp: MergePerInstanceTags_def with_instance_tag_def Contains_iff clean_Insert)
  next
    case False
    let ?a = "replicate (length t + length tags + 1) zero_Tag"
    define add where "add \<longleftrightarrow> map_index tags ''_f'' = [] \<and> \<not> Contains t ''_f''"
    define pre where "pre = (if add then [Tag ''_f'' ''i''] else [])"
    define a where "a = (if add then ?a[length t := Tag ''_f'' ''i''] else ?a)"
    obtain b n where bn: "fill_tags (length t) tags (a, length pre) = (b, n)" by fastforce
    define s where "s = sort_slice (length t) n b"
    define u where "u = (if length t = 0 then take n (drop (length t) s)
                         else mergeTagSets t (length t) n s)"
    have init: "(if map_index tags ''_f'' = [] \<and> \<not> Contains t ''_f''
            then (?a[length t + 0 := Tag ''_f'' ''i''], 1) else (?a, 0)) = (a, length pre)"
      by (simp add: a_def pre_def add_def del: replicate_Suc replicate.simps)
    have "length tags \<noteq> 0" using False by simp
    then have def_u: "MergePerInstanceTags t tags = u"
      by (simp only: MergePerInstanceTags_def Let_def init bn if_False prod.case u_def s_def)
    have add_iff: "add \<longleftrightarrow> ''_f'' \<notin> dom (tag_map t ++ clean_map tags)"
      using assms(1) by (auto simp: add_def map_index_clean Contains_iff)
    have dist: "distinct (map Key (pre @ valid_tags tags))"
      using distinct_valid_tags [OF assms(3)] add_iff
        dom_tag_map [of "valid_tags tags"] tag_map_valid_tags [OF assms(3)]
      by (auto simp: pre_def)
    have take_pre: "take (length pre) (drop (length t) a) = pre"
      using take_one_update [of "length t" ?a "Tag ''_f'' ''i''"]
      by (simp add: pre_def a_def del: replicate_Suc replicate.simps)
    have "clean_tags pre" "length t + length pre + length tags \<le> length a"
      by (simp_all add: pre_def a_def clean_tags_def del: replicate_Suc replicate.simps)
    note m = fill_merge_correct [OF assms(1,2) take_pre this(1) dist this(2) bn s_def u_def]
    have "tag_map t ++ tag_map (pre @ valid_tags tags) =
        with_instance_tag (tag_map t ++ clean_map tags)"
    proof (cases add)
      case True
      then have "''_f'' \<notin> dom (clean_map tags)" using add_iff by simp
      then have "tag_map t ++ (clean_map tags ++ [''_f'' \<mapsto> ''i'']) =
          (tag_map t ++ clean_map tags)(''_f'' \<mapsto> ''i'')" by simp
      moreover have "[''_f'' \<mapsto> ''i''] ++ clean_map tags = clean_map tags ++ [''_f'' \<mapsto> ''i'']"
        using \<open>''_f'' \<notin> dom (clean_map tags)\<close> by (intro map_add_comm) simp
      ultimately show ?thesis using True add_iff
        by (simp add: pre_def with_instance_tag_def tag_map_append tag_map_valid_tags assms(3))
    next
      case False
      then show ?thesis using add_iff
        by (simp add: pre_def with_instance_tag_def tag_map_valid_tags assms(3))
    qed
    then show ?thesis using m by (simp add: def_u)
  qed
  then show ?A ?B ?C by blast+
qed

text \<open>The iteration order of the map does not show in the results.\<close>

lemma clean_map_mset: "mset m = mset m' \<Longrightarrow> distinct (map fst m) \<Longrightarrow> clean_map m = clean_map m'"
  using map_of_mset_eq [of m m'] by (simp add: clean_map_def fun_eq_iff)

lemma mset_distinct_keys: "mset m = mset m' \<Longrightarrow> distinct (map fst m) \<Longrightarrow> distinct (map fst m')"
  by (metis mset_eq_imp_distinct_iff mset_map)

lemma MergeTags_order:
  assumes "is_tagset t" "clean_tags t" "distinct (map fst m)" "mset m = mset m'"
  shows "MergeTags t m = MergeTags t m'"
  using MergeTags_correct [OF assms(1-3)]
    MergeTags_correct [OF assms(1,2) mset_distinct_keys [OF assms(4,3)]]
    clean_map_mset [OF assms(4,3)]
  by (auto intro!: tag_map_inject)

lemma MergePerInstanceTags_order:
  assumes "is_tagset t" "clean_tags t" "distinct (map fst m)" "mset m = mset m'"
  shows "MergePerInstanceTags t m = MergePerInstanceTags t m'"
  using MergePerInstanceTags_correct [OF assms(1-3)]
    MergePerInstanceTags_correct [OF assms(1,2) mset_distinct_keys [OF assms(4,3)]]
    clean_map_mset [OF assms(4,3)]
  by (intro tag_map_inject) simp_all

lemma NewTagSet_order:
  assumes "distinct (map fst m)" "mset m = mset m'"
  shows "NewTagSet m = NewTagSet m'"
  using NewTagSet_correct [OF assms(1)] NewTagSet_correct [OF mset_distinct_keys [OF assms(2,1)]]
    clean_map_mset [OF assms(2,1)]
  by (intro tag_map_inject) simp_all

end
