(* ===== verification/TagSerialize.thy ===== *)
theory TagSerialize
  imports TagMerge
begin

text \<open>
  \<open>internal/tags/tags.go\<close>, fourth part: the serialisation of a name and its tags into a statsd
  stat, by \<open>Serialize\<close> from a sorted tag set and by \<open>SerializeTags\<close> directly from a Go map, with
  its unrolled cases for at most four tags; and the reference implementation of the package's
  tests, which both are compared with.
\<close>

section \<open>Serialize\<close>

abbreviation tag_prefix :: string where "tag_prefix \<equiv> ''.__''"
abbreviation tag_sep :: string where "tag_sep \<equiv> ''=''"

definition Serialize_cap :: "TagSet \<Rightarrow> string \<Rightarrow> nat" where
  "Serialize_cap t name =
     foldl (\<lambda>n p. n + (length (Key p) + length (Value p)))
       ((length tag_prefix + length tag_sep) * length t + length name) t"

definition Serialize :: "TagSet \<Rightarrow> string \<Rightarrow> string" where
  "Serialize t name =
     (if length t = 0 then name
      else foldl (\<lambda>b p. (((b @ tag_prefix) @ Key p) @ tag_sep) @ Value p) name t)"

definition tag_text :: "Tag \<Rightarrow> string" where
  "tag_text p = tag_prefix @ Key p @ tag_sep @ Value p"

lemma Serialize_eq: "Serialize t name = name @ concat (map tag_text t)"
proof -
  have "foldl (\<lambda>b p. (((b @ tag_prefix) @ Key p) @ tag_sep) @ Value p) b t =
      b @ concat (map tag_text t)" for b
    by (induction t arbitrary: b) (simp_all add: tag_text_def)
  then show ?thesis by (simp add: Serialize_def)
qed

text \<open>The buffer is allocated once: its capacity is the length of the result.\<close>

lemma Serialize_cap_exact: "length (Serialize t name) = Serialize_cap t name"
proof -
  have "foldl (\<lambda>n p. n + (length (Key p) + length (Value p))) m t =
      m + (\<Sum>p \<leftarrow> t. length (Key p) + length (Value p))" for m
    by (induction t arbitrary: m) simp_all
  moreover have "length (concat (map tag_text t)) =
      4 * length t + (\<Sum>p \<leftarrow> t. length (Key p) + length (Value p))"
    by (induction t) (simp_all add: tag_text_def)
  ultimately show ?thesis by (simp add: Serialize_eq Serialize_cap_def)
qed

section \<open>SerializeTags\<close>

text \<open>
  \<open>for k, v := range tags { if k == "" || v == "" { continue }; \<dots> NewTag(k, v) \<dots> }\<close>, with
  the rest of the loop body as a function of the loop's variables and the pair, or the new tag.
\<close>

definition for_pairs :: "('s \<Rightarrow> string \<Rightarrow> string \<Rightarrow> 's) \<Rightarrow> 's \<Rightarrow> string go_map \<Rightarrow> 's" where
  "for_pairs body s tags = foldl (\<lambda>s (k, v). if k = [] \<or> v = [] then s else body s k v) s tags"

definition for_valid :: "('s \<Rightarrow> Tag \<Rightarrow> 's) \<Rightarrow> 's \<Rightarrow> string go_map \<Rightarrow> 's" where
  "for_valid body s tags = for_pairs (\<lambda>s k v. body s (NewTag k v)) s tags"

text \<open>\<open>if a.Key > b.Key { a, b = b, a }\<close>\<close>

definition swap_if :: "Tag \<Rightarrow> Tag \<Rightarrow> Tag \<times> Tag" where
  "swap_if a b = (if Key a > Key b then (b, a) else (a, b))"

definition count_valid :: "string go_map \<Rightarrow> nat" where
  "count_valid tags =
     foldl (\<lambda>n (k, v). if k = [] \<or> v = [] then n - 1 else n) (length tags) tags"

definition first_valid :: "string go_map \<Rightarrow> Tag" where
  "first_valid tags =
     (case find (\<lambda>(k, v). k \<noteq> [] \<and> v \<noteq> []) tags of
        None \<Rightarrow> zero_Tag
      | Some (k, v) \<Rightarrow> NewTag k v)"

text \<open>
  The default case: the capacity \<open>n\<close> of the buffer, which the loop computes beside the list of pairs,
  and the bytes appended to the buffer.
\<close>

definition SerializeTags_buffer :: "string \<Rightarrow> string go_map \<Rightarrow> nat \<times> string" where
  "SerializeTags_buffer name tags =
     (let n = (length tag_prefix + length tag_sep) * count_valid tags;
          n = n + length name;
          (n, pairs) = for_pairs (\<lambda>(n, pairs) k v. (n + (length k + length v), pairs @ [NewTag k v])) (n, []) tags;
          pairs = go_sort_Sort pairs
      in (n, foldl (\<lambda>b tag. (((b @ tag_prefix) @ Key tag) @ tag_sep) @ Value tag) name pairs))"

definition SerializeTags :: "string \<Rightarrow> string go_map \<Rightarrow> string" where
  "SerializeTags name tags =
     (let numValid = count_valid tags in
      if numValid = 0 then name
      else if numValid = 1 then
        let t0 = first_valid tags
        in name @ tag_prefix @ Key t0 @ tag_sep @ Value t0
      else if numValid = 2 then
        let (t0, t1) = for_valid (\<lambda>(t0, t1) t. (t, t0)) (zero_Tag, zero_Tag) tags;
            (t0, t1) = swap_if t0 t1
        in name @ tag_prefix @ Key t0 @ tag_sep @ Value t0 @
           tag_prefix @ Key t1 @ tag_sep @ Value t1
      else if numValid = 3 then
        let (t0, t1, t2) =
              for_valid (\<lambda>(t0, t1, t2) t. (t, t0, t1)) (zero_Tag, zero_Tag, zero_Tag) tags;
            (t1, t2) = swap_if t1 t2;
            (t0, t2) = swap_if t0 t2;
            (t0, t1) = swap_if t0 t1
        in name @ tag_prefix @ Key t0 @ tag_sep @ Value t0 @
           tag_prefix @ Key t1 @ tag_sep @ Value t1 @
           tag_prefix @ Key t2 @ tag_sep @ Value t2
      else if numValid = 4 then
        let (t0, t1, t2, t3) =
              for_valid (\<lambda>(t0, t1, t2, t3) t. (t, t0, t1, t2))
                (zero_Tag, zero_Tag, zero_Tag, zero_Tag) tags;
            (t0, t1) = swap_if t0 t1;
            (t2, t3) = swap_if t2 t3;
            (t0, t2) = swap_if t0 t2;
            (t1, t3) = swap_if t1 t3;
            (t1, t2) = swap_if t1 t2
        in name @ tag_prefix @ Key t0 @ tag_sep @ Value t0 @
           tag_prefix @ Key t1 @ tag_sep @ Value t1 @
           tag_prefix @ Key t2 @ tag_sep @ Value t2 @
           tag_prefix @ Key t3 @ tag_sep @ Value t3
      else snd (SerializeTags_buffer name tags))"

lemma for_valid_eq: "for_valid body s tags = foldl body s (valid_tags tags)"
  unfolding for_valid_def for_pairs_def by (induction tags arbitrary: s) auto

lemma count_valid_eq: "count_valid tags = length (valid_tags tags)"
proof -
  have "foldl (\<lambda>n (k, v). if k = [] \<or> v = [] then n - 1 else n) (n + length tags) tags =
      n + length (valid_tags tags)" for n
  proof (induction tags arbitrary: n)
    case (Cons kv tags)
    show ?case using Cons.IH [of n] Cons.IH [of "Suc n"] by (cases kv) auto
  qed simp
  from this [of 0] show ?thesis by (simp add: count_valid_def)
qed

lemma first_valid_eq: "valid_tags tags = t # ts \<Longrightarrow> first_valid tags = t"
  unfolding first_valid_def by (induction tags) (auto split: if_splits)

lemma for_buffer_eq:
  "for_pairs (\<lambda>(n, pairs) k v. (n + (length k + length v), pairs @ [NewTag k v])) (n, pairs) tags =
     (n + (\<Sum>p \<leftarrow> valid_tags tags. length (Key p) + length (Value p)), pairs @ valid_tags tags)"
  unfolding for_pairs_def
  by (induction tags arbitrary: n pairs) (auto simp: NewTag_def ReplaceChars_eq)

lemma SerializeTags_buffer_eq:
  "SerializeTags_buffer name tags =
     (4 * length (valid_tags tags) + length name + (\<Sum>p \<leftarrow> valid_tags tags. length (Key p) + length (Value p)),
      foldl (\<lambda>b p. (((b @ tag_prefix) @ Key p) @ tag_sep) @ Value p) name (go_sort_Sort (valid_tags tags)))"
  by (simp add: SerializeTags_buffer_def Let_def for_buffer_eq count_valid_eq)

text \<open>The unrolled comparisons sort their variables.\<close>

lemma swap_sort2:
  assumes "swap_if a b = (t0, t1)"
  shows "mset [t0, t1] = mset [a, b]" "sorted (map Key [t0, t1])"
  using assms by (auto simp: swap_if_def split: if_splits)

lemma swap_sort3:
  assumes "swap_if b c = (b1, c1)" "swap_if a c1 = (a1, t2)" "swap_if a1 b1 = (t0, t1)"
  shows "mset [t0, t1, t2] = mset [a, b, c]" "sorted (map Key [t0, t1, t2])"
  using assms by (auto simp: swap_if_def split: if_splits)

lemma swap_sort4:
  assumes "swap_if a b = (a1, b1)" "swap_if c d = (c1, d1)" "swap_if a1 c1 = (t0, c2)"
    "swap_if b1 d1 = (b2, t3)" "swap_if b2 c2 = (t1, t2)"
  shows "mset [t0, t1, t2, t3] = mset [a, b, c, d]" "sorted (map Key [t0, t1, t2, t3])"
  using assms by (auto simp: swap_if_def split: if_splits)

lemma sorted_as_Sort:
  assumes "distinct (map Key t)" and "mset u = mset t" and "sorted (map Key u)"
  shows "Serialize (Sort t) name = name @ concat (map tag_text u)"
  by (simp add: net.unique [OF assms] Serialize_eq)

lemma SerializeTags_eq_Sort:
  assumes dist: "distinct (map Key (valid_tags tags))"
  shows "SerializeTags name tags = Serialize (Sort (valid_tags tags)) name"
proof -
  let ?t = "valid_tags tags"
  note sort = sorted_as_Sort [OF dist]
  consider (n0) "?t = []" | (n1) a where "?t = [a]" | (n2) a b where "?t = [a, b]"
    | (n3) a b c where "?t = [a, b, c]" | (n4) a b c d where "?t = [a, b, c, d]"
    | (many) "length ?t > 4"
    by (cases ?t; cases "tl ?t"; cases "tl (tl ?t)"; cases "tl (tl (tl ?t))";
        cases "tl (tl (tl (tl ?t)))") auto
  then show ?thesis
  proof cases
    case n0
    then show ?thesis by (simp add: SerializeTags_def count_valid_eq Sort_def Serialize_def)
  next
    case n1
    then show ?thesis
      by (simp add: SerializeTags_def count_valid_eq first_valid_eq Sort_def Serialize_eq tag_text_def)
  next
    case n2
    obtain t0 t1 where s: "swap_if b a = (t0, t1)" by fastforce
    note u = swap_sort2 [OF s]
    have "SerializeTags name tags = name @ concat (map tag_text [t0, t1])"
      by (simp add: SerializeTags_def count_valid_eq for_valid_eq n2 s tag_text_def)
    then show ?thesis using sort [of "[t0, t1]"] u n2 by simp
  next
    case n3
    obtain b1 c1 where s1: "swap_if b a = (b1, c1)" by fastforce
    obtain a1 t2 where s2: "swap_if c c1 = (a1, t2)" by fastforce
    obtain t0 t1 where s3: "swap_if a1 b1 = (t0, t1)" by fastforce
    note u = swap_sort3 [OF s1 s2 s3]
    have "SerializeTags name tags = name @ concat (map tag_text [t0, t1, t2])"
      by (simp add: SerializeTags_def count_valid_eq for_valid_eq n3 s1 s2 s3 tag_text_def)
    then show ?thesis using sort [of "[t0, t1, t2]"] u n3 by simp
  next
    case n4
    obtain a1 b1 where s1: "swap_if d c = (a1, b1)" by fastforce
    obtain c1 d1 where s2: "swap_if b a = (c1, d1)" by fastforce
    obtain t0 c2 where s3: "swap_if a1 c1 = (t0, c2)" by fastforce
    obtain b2 t3 where s4: "swap_if b1 d1 = (b2, t3)" by fastforce
    obtain t1 t2 where s5: "swap_if b2 c2 = (t1, t2)" by fastforce
    note u = swap_sort4 [OF s1 s2 s3 s4 s5]
    have "SerializeTags name tags = name @ concat (map tag_text [t0, t1, t2, t3])"
      by (simp add: SerializeTags_def count_valid_eq for_valid_eq n4 s1 s2 s3 s4 s5 tag_text_def)
    then show ?thesis using sort [of "[t0, t1, t2, t3]"] u n4 by simp
  next
    case many
    have "length ?t \<noteq> 0" "length ?t \<noteq> 1" "length ?t \<noteq> 2" "length ?t \<noteq> 3" "length ?t \<noteq> 4"
      using many by auto
    then have "SerializeTags name tags =
        foldl (\<lambda>b p. (((b @ tag_prefix) @ Key p) @ tag_sep) @ Value p) name (Sort ?t)"
      by (simp only: SerializeTags_def Let_def count_valid_eq if_False SerializeTags_buffer_eq snd_conv
          Sort_eq_go_sort_Sort [OF dist])
    moreover have "length (Sort ?t) \<noteq> 0" using many net.length_srt [of ?t] by auto
    ultimately show ?thesis by (simp only: Serialize_def if_False)
  qed
qed

lemma SerializeTags_eq:
  "distinct (map fst tags) \<Longrightarrow> SerializeTags name tags = Serialize (NewTagSet tags) name"
  by (simp add: SerializeTags_eq_Sort distinct_valid_tags NewTagSet_eq)

text \<open>The capacity that \<open>SerializeTags\<close> computes is the length of its result as well.\<close>

lemma SerializeTags_capacity:
  assumes "distinct (map fst tags)"
  shows "fst (SerializeTags_buffer name tags) = length (SerializeTags name tags)"
proof -
  let ?t = "valid_tags tags" and ?len = "\<lambda>p. length (Key p) + length (Value p)"
  have "mset (map ?len (Sort ?t)) = mset (map ?len ?t)" using mset_Sort [of ?t] by simp
  then have "(\<Sum>p \<leftarrow> Sort ?t. ?len p) = (\<Sum>p \<leftarrow> ?t. ?len p)" by (metis sum_mset_sum_list)
  moreover have "length (Serialize t name) = 4 * length t + length name + (\<Sum>p \<leftarrow> t. ?len p)" for t
    unfolding Serialize_eq by (induction t) (simp_all add: tag_text_def)
  ultimately show ?thesis
    using SerializeTags_eq_Sort [OF distinct_valid_tags [OF assms], of name] net.length_srt [of ?t]
    by (simp add: SerializeTags_buffer_eq)
qed

section \<open>The reference implementation of the tests\<close>

text \<open>
  \<open>serializeTagsReference\<close> in \<open>tags_test.go\<close>: it cleans and sorts all pairs, and skips those
  with an empty key or value only when it writes them.
\<close>

definition serializeTagsReference :: "string \<Rightarrow> string go_map \<Rightarrow> string" where
  "serializeTagsReference name tags =
     (if length tags = 0 then name
      else let tagPairs = foldl (\<lambda>ps (k, v). ps @ [Tag k (ReplaceChars v)]) [] tags;
               tagPairs = go_sort_Sort tagPairs;
               buf = foldl (\<lambda>buf tag. if Key tag \<noteq> [] \<and> Value tag \<noteq> []
                              then buf @ tag_prefix @ Key tag @ tag_sep @ Value tag else buf)
                       [] tagPairs
           in name @ buf)"

lemma append_all_tags:
  "foldl (\<lambda>ps (k, v). ps @ [Tag k (ReplaceChars v)]) ps tags =
     ps @ map (\<lambda>(k, v). Tag k (ReplaceChars v)) tags"
  by (induction tags arbitrary: ps) auto

lemma append_filtered_text:
  "foldl (\<lambda>buf tag. if Key tag \<noteq> [] \<and> Value tag \<noteq> []
            then buf @ tag_prefix @ Key tag @ tag_sep @ Value tag else buf) buf ts =
     buf @ concat (map tag_text (filter (\<lambda>p. Key p \<noteq> [] \<and> Value p \<noteq> []) ts))"
  by (induction ts arbitrary: buf) (auto simp: tag_text_def)

lemma filter_all_tags:
  "filter (\<lambda>p. Key p \<noteq> [] \<and> Value p \<noteq> []) (map (\<lambda>(k, v). Tag k (ReplaceChars v)) tags) =
     valid_tags tags"
  by (induction tags) (auto simp: NewTag_def)

lemma serializeTagsReference_eq:
  assumes "distinct (map fst tags)"
  shows "serializeTagsReference name tags = Serialize (NewTagSet tags) name"
proof (cases "tags = []")
  case True
  then show ?thesis by (simp add: serializeTagsReference_def NewTagSet_def Sort_def Serialize_def)
next
  case False
  let ?all = "map (\<lambda>(k, v). Tag k (ReplaceChars v)) tags"
  let ?ok = "\<lambda>p. Key p \<noteq> [] \<and> Value p \<noteq> []"
  have "Sort (valid_tags tags) = filter ?ok (go_sort_Sort ?all)"
  proof (rule net.unique)
    show "distinct (map Key (valid_tags tags))" using assms by (rule distinct_valid_tags)
    show "mset (filter ?ok (go_sort_Sort ?all)) = mset (valid_tags tags)"
      using filter_cong_mset [OF std.mset_srt [of ?all], of ?ok]
      by (simp only: filter_all_tags)
    show "sorted (map Key (filter ?ok (go_sort_Sort ?all)))"
      using std.sorted_srt [of ?all] by (rule sorted_filter)
  qed
  with False show ?thesis
    by (simp add: serializeTagsReference_def Let_def append_all_tags append_filtered_text
        Serialize_eq NewTagSet_eq)
qed

end
