(* ===== verification/TagParse.thy ===== *)
theory TagParse
  imports TagSerialize "HOL-Library.AList"
begin

text \<open>
  \<open>internal/tags/tags.go\<close>, last part: the parsers \<open>ParseTags\<close> and \<open>ParseTagSet\<close>, which take a
  stat or a full wire line, and the round trip from serialised tags back to the tags.
\<close>

section \<open>The parsers\<close>

function last_colon :: "string \<Rightarrow> nat \<Rightarrow> nat \<Rightarrow> nat" where
  "last_colon s i n =
     (if i < length s then last_colon s (i + 1) (if s ! i = CHR '':'' then i else n) else n)"
  by pat_completeness auto
termination
  by (relation "measure (\<lambda>(s, i, _). length s - i)") auto

declare last_colon.simps [simp del]

definition removeStatValue :: "string \<Rightarrow> string" where
  "removeStatValue s =
     (case go_IndexByte s (CHR '':'') of
        None \<Rightarrow> s
      | Some i \<Rightarrow> take (last_colon s (i + 1) i) s)"

text \<open>\<open>if o := strings.IndexByte(a, '='); o != -1 { \<dots> a[:o], a[o+1:] \<dots> }\<close>\<close>

definition split_pair :: "string \<Rightarrow> (string \<times> string) option" where
  "split_pair a = map_option (\<lambda>n. (take n a, drop (n + 1) a)) (go_IndexByte a (CHR ''=''))"

definition put_pair :: "string \<Rightarrow> string go_map \<Rightarrow> string go_map" where
  "put_pair a tags =
     (case split_pair a of None \<Rightarrow> tags | Some (k, v) \<Rightarrow> AList.update k v tags)"

fun ParseTags_loop :: "nat \<Rightarrow> string \<Rightarrow> string go_map \<Rightarrow> string \<times> string go_map" where
  "ParseTags_loop 0 s tags = (s, tags)"
| "ParseTags_loop (Suc n) s tags =
     (case go_Index s tag_prefix of
        None \<Rightarrow> (s, tags)
      | Some m \<Rightarrow>
          ParseTags_loop n (drop (m + length tag_prefix) s) (put_pair (take m s) tags))"

text \<open>A nil map is \<open>None\<close>.\<close>

definition ParseTags :: "string \<Rightarrow> string \<times> string go_map option" where
  "ParseTags stat =
     (let stat = removeStatValue stat in
      case go_Index stat tag_prefix of
        None \<Rightarrow> (stat, None)
      | Some q \<Rightarrow>
          let name = take q stat;
              s = drop (q + length tag_prefix) stat;
              n = go_Count s tag_prefix;
              (s, tags) = ParseTags_loop n s []
          in (name, Some (put_pair s tags)))"

text \<open>The tag set is built in a slice of \<open>n + 1\<close> zero tags with a write index.\<close>

definition put_tag :: "string \<Rightarrow> TagSet \<times> nat \<Rightarrow> TagSet \<times> nat" where
  "put_tag a st =
     (case st of (tags, i) \<Rightarrow>
        case split_pair a of None \<Rightarrow> (tags, i) | Some (k, v) \<Rightarrow> (tags[i := Tag k v], i + 1))"

fun ParseTagSet_loop :: "nat \<Rightarrow> string \<Rightarrow> TagSet \<times> nat \<Rightarrow> string \<times> TagSet \<times> nat" where
  "ParseTagSet_loop 0 s st = (s, st)"
| "ParseTagSet_loop (Suc n) s st =
     (case go_Index s tag_prefix of
        None \<Rightarrow> (s, st)
      | Some m \<Rightarrow> ParseTagSet_loop n (drop (m + length tag_prefix) s) (put_tag (take m s) st))"

definition ParseTagSet :: "string \<Rightarrow> string \<times> TagSet" where
  "ParseTagSet stat =
     (let stat = removeStatValue stat in
      case go_Index stat tag_prefix of
        None \<Rightarrow> (stat, [])
      | Some q \<Rightarrow>
          let name = take q stat;
              s = drop (q + length tag_prefix) stat;
              n = go_Count s tag_prefix;
              (s, st) = ParseTagSet_loop n s (replicate (n + 1) zero_Tag, 0);
              (tags, i) = put_tag s st
          in (name, Sort (take i tags)))"

section \<open>Removing the value\<close>

lemma last_colon_append:
  assumes "i \<le> length s" and "\<And>m. i \<le> m \<Longrightarrow> m < length s \<Longrightarrow> s ! m \<noteq> CHR '':''"
  shows "last_colon s i n = n"
  using assms
proof (induction s i n rule: last_colon.induct)
  case (1 s i n)
  then show ?case by (subst last_colon.simps) auto
qed

lemma last_colon_finds:
  assumes "CHR '':'' \<notin> set b" and "i \<le> length a"
  shows "last_colon (a @ CHR '':'' # b) i n = length a"
  using assms
proof (induction "a @ CHR '':'' # b" i n rule: last_colon.induct)
  case (1 i n)
  show ?case
  proof (cases "i = length a")
    case True
    have "last_colon (a @ CHR '':'' # b) (i + 1) i = i"
      using "1.prems" True by (intro last_colon_append) (auto simp: nth_append nth_Cons' in_set_conv_nth)
    with True show ?thesis by (subst last_colon.simps) simp
  next
    case False
    with 1 show ?thesis by (subst last_colon.simps) auto
  qed
qed

lemma removeStatValue_wire:
  assumes "CHR '':'' \<notin> set v"
  shows "removeStatValue (s @ CHR '':'' # v) = s"
proof (cases "CHR '':'' \<in> set s")
  case True
  then obtain a b where s: "s = a @ CHR '':'' # b" "CHR '':'' \<notin> set a" by (meson split_list_first)
  have "last_colon (s @ CHR '':'' # v) (length a + 1) (length a) = length s"
    using assms s(1) by (intro last_colon_finds) auto
  then show ?thesis using s by (simp add: removeStatValue_def go_IndexByte_append)
next
  case False
  have "last_colon (s @ CHR '':'' # v) (length s + 1) (length s) = length s"
    using assms by (intro last_colon_append) (auto simp: nth_append nth_Cons' in_set_conv_nth)
  then show ?thesis using False by (simp add: removeStatValue_def go_IndexByte_append)
qed

lemma removeStatValue_id: "CHR '':'' \<notin> set s \<Longrightarrow> removeStatValue s = s"
  by (simp add: removeStatValue_def go_IndexByte_None_iff [THEN iffD2])

section \<open>Separators\<close>

lemma go_Index_Nil_prefix: "go_Index [] tag_prefix = None"
  by (subst go_Index.simps) simp

lemma go_Index_Cons_prefix:
  "go_Index (c # s) tag_prefix =
     (if c = CHR ''.'' \<and> take (Suc (Suc 0)) s = ''__'' then Some 0
      else map_option Suc (go_Index s tag_prefix))"
  by (subst go_Index.simps) simp

lemmas go_Index_prefix = go_Index_Nil_prefix go_Index_Cons_prefix

lemma take2_append:
  "take (Suc (Suc 0)) s \<noteq> ''__'' \<Longrightarrow> d \<noteq> CHR ''_'' \<Longrightarrow> take (Suc (Suc 0)) (s @ d # r) \<noteq> ''__''"
  by (cases s; cases "tl s") auto

lemma go_Index_sep:
  "go_Index a tag_prefix = None \<Longrightarrow>
     go_Index (a @ CHR ''.'' # CHR ''_'' # CHR ''_'' # b) tag_prefix = Some (length a)"
  by (induction a) (auto simp: go_Index_prefix take2_append simp del: take_append split: if_splits)

text \<open>The text of a tag holds no separator when its key and value hold none.\<close>

definition wire_tag :: "Tag \<Rightarrow> bool" where
  "wire_tag p \<longleftrightarrow> go_Index (Key p) tag_prefix = None \<and> CHR ''='' \<notin> set (Key p) \<and>
     CHR ''.'' \<notin> set (Value p)"

lemma go_Index_notin: "CHR ''.'' \<notin> set s \<Longrightarrow> go_Index s tag_prefix = None"
  by (induction s) (auto simp: go_Index_prefix)

lemma go_Index_pair:
  "go_Index k tag_prefix = None \<Longrightarrow> CHR ''.'' \<notin> set v \<Longrightarrow>
     go_Index (k @ CHR ''='' # v) tag_prefix = None"
  by (induction k) (auto simp: go_Index_prefix go_Index_notin take2_append simp del: take_append split: if_splits)

definition pair_text :: "Tag \<Rightarrow> string" where
  "pair_text p = Key p @ CHR ''='' # Value p"

lemma wire_tag_text: "wire_tag p \<Longrightarrow> go_Index (pair_text p) tag_prefix = None"
  by (simp add: wire_tag_def pair_text_def go_Index_pair)

lemma split_pair_text: "wire_tag p \<Longrightarrow> split_pair (pair_text p) = Some (Key p, Value p)"
  by (simp add: wire_tag_def pair_text_def split_pair_def go_IndexByte_append)

text \<open>What the parsers read after the first separator: the texts of the tags, separated.\<close>

fun join_pairs :: "TagSet \<Rightarrow> string" where
  "join_pairs [] = []"
| "join_pairs [p] = pair_text p"
| "join_pairs (p # q # t) = pair_text p @ tag_prefix @ join_pairs (q # t)"

lemma concat_tag_text: "t \<noteq> [] \<Longrightarrow> concat (map tag_text t) = tag_prefix @ join_pairs t"
  by (induction t rule: join_pairs.induct) (simp_all add: tag_text_def pair_text_def)

lemma go_Count_None: "go_Index s tag_prefix = None \<Longrightarrow> go_Count s tag_prefix = 0"
  by (subst go_Count.simps) simp

lemma go_Count_sep:
  "go_Index a tag_prefix = None \<Longrightarrow>
     go_Count (a @ CHR ''.'' # CHR ''_'' # CHR ''_'' # b) tag_prefix = Suc (go_Count b tag_prefix)"
  by (subst go_Count.simps) (simp add: go_Index_sep)

lemma go_Count_pairs:
  "list_all wire_tag t \<Longrightarrow> t \<noteq> [] \<Longrightarrow> go_Count (join_pairs t) tag_prefix = length t - 1"
proof (induction t rule: join_pairs.induct)
  case (2 p)
  then show ?case using go_Count_None [OF wire_tag_text] by simp
next
  case (3 p q t)
  then show ?case using go_Count_sep [OF wire_tag_text, of p] by simp
qed simp

section \<open>Round trips\<close>

definition pairs_of :: "TagSet \<Rightarrow> string go_map" where
  "pairs_of t = map (\<lambda>p. (Key p, Value p)) t"

lemma tag_map_pairs_of: "tag_map t = map_of (pairs_of t)"
  by (simp add: tag_map_def pairs_of_def)

lemma put_pair_fresh:
  "wire_tag p \<Longrightarrow> Key p \<notin> fst ` set m \<Longrightarrow> put_pair (pair_text p) m = m @ [(Key p, Value p)]"
proof -
  assume p: "wire_tag p" "Key p \<notin> fst ` set m"
  have "AList.update k v m = m @ [(k, v)]" if "k \<notin> fst ` set m" for k v
    using that by (induction m) auto
  with p show ?thesis by (simp add: put_pair_def split_pair_text)
qed

text \<open>
  Running the loop on the joined texts and then handling the last one adds the pairs in order;
  the accumulator \<open>m\<close> holds those already read.
\<close>

lemma ParseTags_loop_pairs:
  assumes "list_all wire_tag t" and "t \<noteq> []" and "distinct (map fst m @ map Key t)"
  shows "(case ParseTags_loop (length t - 1) (join_pairs t) m of (s, m) \<Rightarrow> put_pair s m) =
           m @ pairs_of t"
  using assms
proof (induction t arbitrary: m rule: join_pairs.induct)
  case (2 p)
  then show ?case by (simp add: put_pair_fresh pairs_of_def)
next
  case (3 p q t)
  have ix: "go_Index (join_pairs (p # q # t)) tag_prefix = Some (length (pair_text p))"
    using 3 by (simp add: go_Index_sep wire_tag_text)
  have "ParseTags_loop (length (p # q # t) - 1) (join_pairs (p # q # t)) m =
      ParseTags_loop (length (q # t) - 1) (join_pairs (q # t)) (m @ [(Key p, Value p)])"
    using ix 3(2,4) by (simp add: put_pair_fresh)
  moreover have "(case ParseTags_loop (length (q # t) - 1) (join_pairs (q # t))
        (m @ [(Key p, Value p)]) of (s, m) \<Rightarrow> put_pair s m) = (m @ [(Key p, Value p)]) @ pairs_of (q # t)"
    using 3(2,4) by (intro "3.IH") auto
  ultimately show ?case by (simp only: pairs_of_def list.map append_assoc append.simps)
qed simp

lemma put_tag_text:
  "wire_tag p \<Longrightarrow> i < length a \<Longrightarrow> put_tag (pair_text p) (a, i) = (a[i := p], i + 1)"
  by (simp add: put_tag_def split_pair_text)

lemma ParseTagSet_loop_pairs:
  assumes "list_all wire_tag t" and "t \<noteq> []" and "i + length t \<le> length a"
  shows "(case ParseTagSet_loop (length t - 1) (join_pairs t) (a, i) of (s, st) \<Rightarrow>
            case put_tag s st of (a, n) \<Rightarrow> take n a) = take i a @ t"
  using assms
proof (induction t arbitrary: a i rule: join_pairs.induct)
  case (2 p)
  then show ?case by (simp add: put_tag_text take_Suc_conv_app_nth)
next
  case (3 p q t)
  have ix: "go_Index (join_pairs (p # q # t)) tag_prefix = Some (length (pair_text p))"
    using 3 by (simp add: go_Index_sep wire_tag_text)
  have "ParseTagSet_loop (length (p # q # t) - 1) (join_pairs (p # q # t)) (a, i) =
      ParseTagSet_loop (length (q # t) - 1) (join_pairs (q # t)) (a[i := p], i + 1)"
    using ix 3(2,4) by (simp add: put_tag_text)
  with 3 show ?case by (simp add: take_Suc_conv_app_nth)
qed simp

text \<open>A name the parsers give back: it holds no separator.\<close>

abbreviation wire_name :: "string \<Rightarrow> bool" where
  "wire_name name \<equiv> go_Index name tag_prefix = None"

lemma parse_body:
  assumes "wire_name name" and "list_all wire_tag t" and "removeStatValue stat = Serialize t name"
  shows "distinct (map Key t) \<Longrightarrow>
           ParseTags stat = (name, if t = [] then None else Some (pairs_of t))"
    and "is_tagset t \<Longrightarrow> ParseTagSet stat = (name, t)"
proof -
  have ix: "go_Index (Serialize t name) tag_prefix = Some (length name)" if "t \<noteq> []"
    using that assms(1) by (simp add: Serialize_eq concat_tag_text go_Index_sep)
  have rest: "drop (Suc (Suc (Suc (length name)))) (Serialize t name) = join_pairs t" if "t \<noteq> []"
    using that by (simp add: Serialize_eq concat_tag_text)
  have count: "go_Count (join_pairs t) tag_prefix = length t - 1" if "t \<noteq> []"
    using that assms(2) by (rule go_Count_pairs [rotated])
  have name: "take (length name) (Serialize t name) = name" by (simp add: Serialize_eq)
  show "ParseTags stat = (name, if t = [] then None else Some (pairs_of t))"
    if "distinct (map Key t)"
  proof (cases "t = []")
    case True
    then show ?thesis using assms by (simp add: ParseTags_def Serialize_def)
  next
    case False
    then show ?thesis
      using ParseTags_loop_pairs [OF assms(2) False, of "[]"] that
      by (simp add: ParseTags_def assms(3) ix rest count name split: prod.splits)
  qed
  show "ParseTagSet stat = (name, t)" if "is_tagset t"
  proof (cases "t = []")
    case True
    then show ?thesis using assms by (simp add: ParseTagSet_def Serialize_def)
  next
    case False
    then have "Suc (length t - Suc 0) = length t" by (cases t) auto
    then show ?thesis
      using ParseTagSet_loop_pairs [OF assms(2) False, of 0 "replicate (length t) zero_Tag"]
        that net.sorted_id [of t] False
      by (auto simp: ParseTagSet_def assms(3) ix rest count name is_tagset_def Let_def
            split: prod.splits simp del: replicate_Suc replicate.simps)
  qed
qed

end
