(* ===== verification/Tag_Props.thy ===== *)
theory Tag_Props
  imports TagMerge TagParse
begin

text \<open>Properties of tag sets and of their text form.\<close>

text \<open>
  C35: \<open>Sort\<close> sorts tag sets of every length by key, through the networks for two to eight tags as
  through the standard library's sort beyond, keeps the tags, and on distinct keys agrees with the
  standard library's sort.
\<close>

theorem Sort_sorts:
  "sorted (map Key (Sort t)) \<and> mset (Sort t) = mset t \<and>
   (distinct (map Key t) \<longrightarrow> Sort t = go_sort_Sort t \<and> is_tagset (Sort t))"
  by (simp add: net.sorted_srt net.mset_srt Sort_eq_go_sort_Sort [symmetric] is_tagset_Sort)

theorem Sort_sorts_witness: "Sort [Tag ''b'' ''1'', Tag ''a'' ''2''] = [Tag ''a'' ''2'', Tag ''b'' ''1'']"
proof -
  have "distinct (map Key [Tag ''b'' ''1'', Tag ''a'' ''2''])" by simp
  with Sort_sorts [of "[Tag ''b'' ''1'', Tag ''a'' ''2'']"] show ?thesis
    by (simp add: go_sort_Sort_def)
qed

text \<open>
  On a sorted tag set, the hand-written binary search returns the least index whose key is not
  smaller, \<open>Contains\<close> tells whether the key is bound, and \<open>Insert\<close> binds it, in place of an older
  value, and keeps the set sorted.
\<close>

theorem search_and_insert:
  assumes "is_tagset t"
  shows "Search t key \<le> length t \<and> (\<forall>n < Search t key. Key (t ! n) < key) \<and>
         (\<forall>n < length t. Search t key \<le> n \<longrightarrow> key \<le> Key (t ! n)) \<and>
         (Contains t key \<longleftrightarrow> tag_map t key \<noteq> None) \<and>
         is_tagset (Insert t p) \<and> tag_map (Insert t p) = (tag_map t)(Key p \<mapsto> Value p)"
proof -
  obtain u v where s: "t = u @ v" "Search t key = length u" "\<forall>p \<in> set u. Key p < key"
    "\<forall>p \<in> set v. key \<le> Key p"
    by (rule Search_split [OF assms])
  then have "\<forall>n < length t. Search t key \<le> n \<longrightarrow> key \<le> Key (t ! n)"
    by (simp add: nth_append)
  moreover have "\<forall>n < Search t key. Key (t ! n) < key" using s by (simp add: nth_append)
  ultimately show ?thesis using Contains_iff [OF assms] Insert_correct [OF assms] s(1,2)
    by (simp add: domIff)
qed

theorem search_and_insert_witness:
  "tag_map (Insert [Tag ''a'' ''1'', Tag ''c'' ''3''] (Tag ''b'' ''2'')) =
     [''a'' \<mapsto> ''1'', ''b'' \<mapsto> ''2'', ''c'' \<mapsto> ''3'']"
proof -
  have "is_tagset [Tag ''a'' ''1'', Tag ''c'' ''3'']" by simp
  from search_and_insert [OF this, of "[]" "Tag ''b'' ''2''"] show ?thesis
    by (simp add: fun_upd_twist)
qed

text \<open>
  C23: \<open>mergeTagSets\<close> merges correctly although its second operand is a slice of the scratch space
  it writes its result to: what it has still to read is never overwritten.  The result binds what
  either operand binds, the second one winning.
\<close>

theorem merge_overlapping:
  assumes "length s1 \<le> off" and "off + n2 \<le> length scratch"
    and "is_tagset s1" and "is_tagset (take n2 (drop off scratch))"
  shows "is_tagset (mergeTagSets s1 off n2 scratch) \<and>
         tag_map (mergeTagSets s1 off n2 scratch) =
           tag_map s1 ++ tag_map (take n2 (drop off scratch))"
  using assms by (simp add: mergeTagSets_eq is_tagset_merge_lists tag_map_merge_lists)

theorem merge_overlapping_witness:
  "tag_map (mergeTagSets [Tag ''a'' ''1'', Tag ''b'' ''2''] 2 2
     [zero_Tag, zero_Tag, Tag ''b'' ''9'', Tag ''c'' ''3'']) = [''a'' \<mapsto> ''1'', ''b'' \<mapsto> ''9'', ''c'' \<mapsto> ''3'']"
proof -
  let ?s = "[Tag ''a'' ''1'', Tag ''b'' ''2'']" and ?a = "[zero_Tag, zero_Tag, Tag ''b'' ''9'', Tag ''c'' ''3'']"
  have "length ?s \<le> 2" "2 + 2 \<le> length ?a" "is_tagset ?s" "is_tagset (take 2 (drop 2 ?a))" by simp_all
  from merge_overlapping [OF this] show ?thesis by (simp add: fun_upd_twist fun_eq_iff)
qed

text \<open>
  C24: \<open>MergeTags\<close> never panics; its result is sorted and binds what the tag set and the map bind,
  the map winning, where pairs with an empty key or value do not count.  \<open>MergePerInstanceTags\<close> binds
  in addition \<open>_f\<close> to \<open>i\<close>, unless the tag set or the map already bind \<open>_f\<close> to a non-empty value.
  Neither depends on the order in which Go iterates over the map.
\<close>

theorem MergeTags_merges:
  assumes "is_tagset t" and "clean_tags t" and "distinct (map fst tags)" and "mset tags = mset tags'"
  shows "(\<exists>u. MergeTags t tags = Some u \<and> MergeTags t tags' = Some u \<and> is_tagset u \<and> clean_tags u \<and>
              tag_map u = tag_map t ++ clean_map tags) \<and>
         MergePerInstanceTags t tags' = MergePerInstanceTags t tags \<and>
         is_tagset (MergePerInstanceTags t tags) \<and> clean_tags (MergePerInstanceTags t tags) \<and>
         tag_map (MergePerInstanceTags t tags) =
           (let m = tag_map t ++ clean_map tags
            in if ''_f'' \<in> dom m then m else m(''_f'' \<mapsto> ''i''))"
  using MergeTags_correct [OF assms(1-3)] MergeTags_order [OF assms]
    MergePerInstanceTags_correct [OF assms(1-3)] MergePerInstanceTags_order [OF assms]
  by (auto simp: with_instance_tag_def Let_def)

theorem MergeTags_merges_witness:
  "(\<exists>u. MergeTags [Tag ''a'' ''1''] [(''b'', ''2''), (''a'', [])] = Some u \<and>
      tag_map u = [''a'' \<mapsto> ''1'', ''b'' \<mapsto> ''2'']) \<and>
   tag_map (MergePerInstanceTags [Tag ''a'' ''1''] [(''b'', ''2''), (''a'', [])]) =
     [''a'' \<mapsto> ''1'', ''b'' \<mapsto> ''2'', ''_f'' \<mapsto> ''i'']"
proof -
  let ?m = "[(''b'', ''2''), (''a'', [])]"
  have "is_tagset [Tag ''a'' ''1'']" "clean_tags [Tag ''a'' ''1'']" "distinct (map fst ?m)"
    "mset ?m = mset ?m" by (simp_all add: clean_tags_def)
  note m = MergeTags_merges [OF this]
  have "clean_map ?m = [''b'' \<mapsto> ''2'']" by (auto simp: clean_map_def fun_eq_iff ReplaceChars_eq)
  with m show ?thesis by (auto simp: Let_def)
qed

text \<open>
  C25: the optimised \<open>SerializeTags\<close>, with its unrolled cases for up to four tags, writes exactly what
  the reference implementation of the test suite writes and what serialising the sorted tag set
  writes, in any iteration order of the map.  The capacity of the buffer, as the default case of \<open>SerializeTags\<close>
  adds it up from the raw pairs, is exactly the length of the result, and so is the one that
  \<open>Serialize\<close> adds up from the tags.
\<close>

theorem SerializeTags_reference:
  assumes "distinct (map fst tags)" and "mset tags = mset tags'"
  shows "SerializeTags name tags = serializeTagsReference name tags \<and>
         SerializeTags name tags = Serialize (NewTagSet tags) name \<and>
         SerializeTags name tags' = SerializeTags name tags \<and>
         fst (SerializeTags_buffer name tags) = length (SerializeTags name tags) \<and>
         Serialize_cap (NewTagSet tags) name = length (Serialize (NewTagSet tags) name)"
  using NewTagSet_order [OF assms] mset_distinct_keys [OF assms(2,1)] assms(1)
    SerializeTags_capacity [OF assms(1), of name]
  by (simp add: SerializeTags_eq serializeTagsReference_eq Serialize_cap_exact)

theorem SerializeTags_reference_witness:
  "SerializeTags ''n'' [(''b'', ''2''), (''a'', ''x.y'')] = ''n.__a=x_y.__b=2''"
proof -
  let ?m = "[(''b'', ''2''), (''a'', ''x.y'')]"
  have "distinct (map fst ?m)" "mset ?m = mset ?m" by simp_all
  note s = SerializeTags_reference [OF this, of "''n''"]
  have "NewTagSet ?m = [Tag ''a'' ''x_y'', Tag ''b'' ''2'']"
    using net.unique [of "valid_tags ?m" "[Tag ''a'' ''x_y'', Tag ''b'' ''2'']"]
    by (simp add: NewTagSet_eq NewTag_def ReplaceChars_eq)
  with s [THEN conjunct2, THEN conjunct1] show ?thesis by (simp add: Serialize_eq tag_text_def)
qed

lemma wire_tags_of:
  assumes "\<forall>(k, v) \<in> set tags. go_Index k tag_prefix = None \<and> CHR ''='' \<notin> set k"
  shows "list_all wire_tag (NewTagSet tags)"
proof -
  have "wire_tag p" if "p \<in> set (valid_tags tags)" for p
  proof -
    from that have "\<exists>k v. p = NewTag k v \<and> (k, v) \<in> set tags"
      unfolding valid_tags_def by force
    then obtain k v where p: "p = NewTag k v" "(k, v) \<in> set tags" by blast
    then show ?thesis using assms ReplaceChars_no_bad [of _ v] by (auto simp: wire_tag_def)
  qed
  then show ?thesis by (simp add: list_all_iff NewTagSet_eq net.set_srt)
qed

lemma no_colon_serialized:
  assumes "CHR '':'' \<notin> set name" and "\<forall>(k, v) \<in> set tags. CHR '':'' \<notin> set k"
  shows "CHR '':'' \<notin> set (Serialize (NewTagSet tags) name)"
proof -
  have "CHR '':'' \<notin> set (tag_text p)" if "p \<in> set (valid_tags tags)" for p
  proof -
    from that have "\<exists>k v. p = NewTag k v \<and> (k, v) \<in> set tags"
      unfolding valid_tags_def by force
    then obtain k v where p: "p = NewTag k v" "(k, v) \<in> set tags" by blast
    then show ?thesis using assms(2) ReplaceChars_no_bad [of _ v] by (auto simp: tag_text_def)
  qed
  then show ?thesis using assms(1) by (simp add: Serialize_eq NewTagSet_eq net.set_srt)
qed

text \<open>
  C26: parsing undoes serialising.  For a name and keys that hold no separator, both parsers, given a
  whole wire line \<open>stat:value\<close>, return the name and the tags that were serialised.  Given the stat
  alone they do the same, provided that no colon occurs in the name or in a key: \<open>removeStatValue\<close> takes
  what follows the last colon for a value.
\<close>

theorem parse_serialized:
  assumes "distinct (map fst tags)" and "wire_name name"
    and "\<forall>(k, v) \<in> set tags. go_Index k tag_prefix = None \<and> CHR ''='' \<notin> set k"
    and "CHR '':'' \<notin> set val"
    and "line = SerializeTags name tags @ '':'' @ val \<or>
         line = SerializeTags name tags \<and> CHR '':'' \<notin> set name \<and> (\<forall>(k, v) \<in> set tags. CHR '':'' \<notin> set k)"
  shows "ParseTagSet line = (name, NewTagSet tags) \<and>
         ParseTags line = (name, if NewTagSet tags = [] then None else Some (pairs_of (NewTagSet tags))) \<and>
         map_of (pairs_of (NewTagSet tags)) = clean_map tags"
proof -
  note n = NewTagSet_correct [OF assms(1)]
  have "removeStatValue line = Serialize (NewTagSet tags) name"
    using removeStatValue_wire [OF assms(4), of "SerializeTags name tags"] assms(5)
      removeStatValue_id [OF no_colon_serialized, of name tags]
    by (auto simp: SerializeTags_eq [OF assms(1)])
  then show ?thesis
    using parse_body [OF assms(2) wire_tags_of [OF assms(3)]] is_tagset_distinct [OF n(1)] n tag_map_pairs_of by auto
qed

theorem parse_serialized_witness:
  "fst (ParseTagSet (SerializeTags ''req'' [(''code'', ''200'')] @ '':'' @ ''1|c'')) = ''req'' \<and>
   fst (ParseTagSet (SerializeTags ''req'' [(''code'', ''200'')])) = ''req''"
proof -
  have h: "distinct (map fst [(''code'', ''200'')])" "wire_name ''req''"
    "\<forall>(k, v) \<in> set [(''code'', ''200'')]. go_Index k tag_prefix = None \<and> CHR ''='' \<notin> set k"
    "CHR '':'' \<notin> set ''1|c''"
    by (simp_all add: go_Index_prefix)
  show ?thesis
    using parse_serialized [OF h, of "SerializeTags ''req'' [(''code'', ''200'')] @ '':'' @ ''1|c''"]
      parse_serialized [OF h, of "SerializeTags ''req'' [(''code'', ''200'')]"] by simp
qed

text \<open>
  \<open>ReplaceChars\<close> replaces exactly the dots, colons and bars by underscores, and is idempotent.
\<close>

theorem ReplaceChars_cleans:
  "ReplaceChars s = map (\<lambda>c. if c = CHR ''.'' \<or> c = CHR '':'' \<or> c = CHR ''|'' then CHR ''_'' else c) s \<and>
   set (ReplaceChars s) \<inter> {CHR ''.'', CHR '':'', CHR ''|''} = {} \<and>
   ReplaceChars (ReplaceChars s) = ReplaceChars s \<and> length (ReplaceChars s) = length s"
  using ReplaceChars_no_bad [of _ s] by (auto simp: ReplaceChars_eq)

end
