(* ===== verification/SyncMap.thy ===== *)
theory SyncMap
  imports Prelude
begin

text \<open>
  The four methods of \<open>sync.Map\<close> that the store and the mock sink use, first as an interface with
  its laws and then as operations on association lists.  \<open>Range\<close> visits each key at most once in
  an unspecified order; the order of the list is the order of one such visit, so facts about every
  list with distinct keys hold for every order.
\<close>

section \<open>The interface\<close>

locale sync_map =
  fixes ok :: "'m \<Rightarrow> bool"
    and entries :: "'m \<Rightarrow> (string \<times> 'v) list"
    and load :: "'m \<Rightarrow> string \<Rightarrow> 'v option"
    and load_or_store :: "'m \<Rightarrow> string \<Rightarrow> 'v \<Rightarrow> 'm \<times> 'v \<times> bool"
    and delete :: "'m \<Rightarrow> string \<Rightarrow> 'm"
  assumes distinct_entries: "ok m \<Longrightarrow> distinct (map fst (entries m))"
    and load_entries: "ok m \<Longrightarrow> load m k = map_of (entries m) k"
    and los_present: "load m k = Some w \<Longrightarrow> load_or_store m k v = (m, w, True)"
    and los_absent: "load m k = None \<Longrightarrow>
          \<exists>m'. load_or_store m k v = (m', v, False) \<and> (ok m \<longrightarrow> ok m') \<and>
               load m' = (load m)(k \<mapsto> v)"
    and ok_delete: "ok m \<Longrightarrow> ok (delete m k)"
    and load_delete: "ok m \<Longrightarrow> load (delete m k) = (load m)(k := None)"
begin

text \<open>
  The get-or-create sequence of the store's constructors: look the key up, and store the new value
  only where nothing is found (a concurrent creation would win at \<open>LoadOrStore\<close>).
\<close>

definition get_or_create :: "'m \<Rightarrow> string \<Rightarrow> 'v \<Rightarrow> 'm \<times> 'v" where
  "get_or_create m k v =
     (case load m k of
        Some w \<Rightarrow> (m, w)
      | None \<Rightarrow> (case load_or_store m k v of (m', w, loaded) \<Rightarrow> (m', w)))"

lemma get_or_create_hit: "load m k = Some w \<Longrightarrow> get_or_create m k v = (m, w)"
  by (simp add: get_or_create_def)

lemma get_or_create_miss:
  assumes "load m k = None" and "ok m"
  obtains m' where "get_or_create m k v = (m', v)" "ok m'" "load m' = (load m)(k \<mapsto> v)"
  using los_absent [OF assms(1), of v] assms by (auto simp: get_or_create_def)

lemma get_or_create_load: "ok m \<Longrightarrow> get_or_create m k v = (m', w) \<Longrightarrow> ok m' \<and> load m' k = Some w"
proof (cases "load m k")
  case None
  assume ok: "ok m" and g: "get_or_create m k v = (m', w)"
  obtain m'' where "get_or_create m k v = (m'', v)" "ok m''" "load m'' = (load m)(k \<mapsto> v)"
    using None ok by (rule get_or_create_miss)
  with g show ?thesis by simp
qed (simp add: get_or_create_hit)

lemma get_or_create_idem:
  "ok m \<Longrightarrow> get_or_create m k v = (m', w) \<Longrightarrow> get_or_create m' k u = (m', w)"
  using get_or_create_load [of m k v m' w] get_or_create_hit [of m' k w u] by simp

lemma load_Some_iff: "ok m \<Longrightarrow> load m k = Some v \<longleftrightarrow> (k, v) \<in> set (entries m)"
  by (simp add: load_entries distinct_entries)

end

section \<open>Association lists\<close>

type_synonym 'v smap = "(string \<times> 'v) list"

definition smap_ok :: "'v smap \<Rightarrow> bool" where
  "smap_ok m \<longleftrightarrow> distinct (map fst m)"

definition smap_Load :: "'v smap \<Rightarrow> string \<Rightarrow> 'v option" where
  "smap_Load m k = map_of m k"

definition smap_LoadOrStore :: "'v smap \<Rightarrow> string \<Rightarrow> 'v \<Rightarrow> 'v smap \<times> 'v \<times> bool" where
  "smap_LoadOrStore m k v =
     (case map_of m k of Some w \<Rightarrow> (m, w, True) | None \<Rightarrow> (m @ [(k, v)], v, False))"

definition smap_Delete :: "'v smap \<Rightarrow> string \<Rightarrow> 'v smap" where
  "smap_Delete m k = filter (\<lambda>e. fst e \<noteq> k) m"

lemma smap_Load_append: "map_of m k = None \<Longrightarrow> map_of (m @ [(k, v)]) = (map_of m)(k \<mapsto> v)"
  by (induction m) (auto simp: fun_eq_iff split: if_splits)

lemma smap_Load_filter: "map_of (filter (\<lambda>e. fst e \<noteq> k) m) = (map_of m)(k := None)"
  by (induction m) (auto simp: fun_eq_iff)

interpretation sm: sync_map smap_ok "\<lambda>m. m" smap_Load smap_LoadOrStore smap_Delete
proof
  fix m :: "'a smap" and k v w
  show "smap_ok m \<Longrightarrow> distinct (map fst m)" by (simp add: smap_ok_def)
  show "smap_ok m \<Longrightarrow> smap_Load m k = map_of m k" by (simp add: smap_Load_def)
  show "smap_Load m k = Some w \<Longrightarrow> smap_LoadOrStore m k v = (m, w, True)"
    by (simp add: smap_Load_def smap_LoadOrStore_def)
  show "smap_Load m k = None \<Longrightarrow> \<exists>m'. smap_LoadOrStore m k v = (m', v, False) \<and>
      (smap_ok m \<longrightarrow> smap_ok m') \<and> smap_Load m' = (smap_Load m)(k \<mapsto> v)"
    using smap_Load_append [of m k v]
    by (simp add: smap_Load_def [abs_def] smap_LoadOrStore_def smap_ok_def)
       (auto simp: map_of_eq_None_iff)
  show "smap_ok m \<Longrightarrow> smap_ok (smap_Delete m k)"
    by (auto simp: smap_ok_def smap_Delete_def distinct_map_filter)
  show "smap_ok m \<Longrightarrow> smap_Load (smap_Delete m k) = (smap_Load m)(k := None)"
    by (simp add: smap_Load_def [abs_def] smap_Delete_def smap_Load_filter)
qed

end
