(* ===== verification/Float64.thy ===== *)
theory Float64
  imports Complex_Main Go_Lib
begin

text \<open>
  The \<open>float64\<close> values the library passes to its sinks, as their IEEE 754 bit patterns: a sign
  bit, eleven bits of exponent and 52 bits of fraction.  Modelled are the reading of a pattern as
  a number and the conversion of an \<open>int64\<close>, which rounds to the nearest value, ties to even.
\<close>

type_synonym float64 = "64 word"

section \<open>Reading a pattern\<close>

datatype f64_class = F64_NaN | F64_Inf bool | F64_Fin bool rat

definition f64_sign :: "float64 \<Rightarrow> bool" where
  "f64_sign w \<longleftrightarrow> unat w \<ge> 2 ^ 63"

definition f64_exp :: "float64 \<Rightarrow> nat" where
  "f64_exp w = (unat w div 2 ^ 52) mod 2 ^ 11"

definition f64_frac :: "float64 \<Rightarrow> nat" where
  "f64_frac w = unat w mod 2 ^ 52"

text \<open>The magnitude: \<open>m * 2 ^ e / 2 ^ 1075\<close> for normal and subnormal numbers alike.\<close>

definition f64_magnitude :: "float64 \<Rightarrow> rat" where
  "f64_magnitude w =
     (if f64_exp w = 0 then of_nat (f64_frac w) / 2 ^ 1074
      else of_nat (2 ^ 52 + f64_frac w) * 2 ^ f64_exp w / 2 ^ 1075)"

definition f64_decode :: "float64 \<Rightarrow> f64_class" where
  "f64_decode w =
     (if f64_exp w = 2047
      then if f64_frac w = 0 then F64_Inf (f64_sign w) else F64_NaN
      else F64_Fin (f64_sign w) (f64_magnitude w))"

text \<open>The number a finite pattern stands for.\<close>

definition f64_val :: "float64 \<Rightarrow> rat option" where
  "f64_val w = (case f64_decode w of
     F64_Fin s r \<Rightarrow> Some (if s then - r else r) | _ \<Rightarrow> None)"

section \<open>Conversion from integers\<close>

fun bit_length :: "nat \<Rightarrow> nat" where
  "bit_length n = (if n = 0 then 0 else bit_length (n div 2) + 1)"

declare bit_length.simps [simp del]

text \<open>\<open>n / 2 ^ s\<close> rounded to the nearest integer, ties to even.\<close>

definition round_half_even :: "nat \<Rightarrow> nat \<Rightarrow> nat" where
  "round_half_even n s =
     (let q = n div 2 ^ s; r = n mod 2 ^ s; h = 2 ^ s in
      if 2 * r < h then q else if 2 * r > h then q + 1 else if even q then q else q + 1)"

definition f64_of_nat :: "nat \<Rightarrow> nat" where
  "f64_of_nat n =
     (if n = 0 then 0
      else let L = bit_length n;
               M = (if L \<le> 53 then n * 2 ^ (53 - L) else round_half_even n (L - 53))
           in (L + 1021) * 2 ^ 52 + M)"

definition f64_of_int :: "int \<Rightarrow> float64" where
  "f64_of_int i =
     (if i < 0 then of_nat (2 ^ 63 + f64_of_nat (nat (- i))) else of_nat (f64_of_nat (nat i)))"

lemma bit_length_bounds: "n > 0 \<Longrightarrow> 2 ^ (bit_length n - 1) \<le> n \<and> n < 2 ^ bit_length n"
proof (induction n rule: bit_length.induct)
  case (1 n)
  show ?case
  proof (cases "n = 1")
    case True
    then show ?thesis by (simp add: bit_length.simps [of "Suc 0"] bit_length.simps [of 0])
  next
    case False
    with 1 have IH: "2 ^ (bit_length (n div 2) - 1) \<le> n div 2" "n div 2 < 2 ^ bit_length (n div 2)"
      by auto
    have "bit_length (n div 2) > 0" using False 1(2) by (subst bit_length.simps) auto
    then obtain k where k: "bit_length (n div 2) = Suc k" by (cases "bit_length (n div 2)") auto
    have "bit_length n = Suc (Suc k)" using 1(2) k by (subst bit_length.simps) simp
    moreover have "2 ^ k \<le> n div 2" "n div 2 < 2 * 2 ^ k" using IH k by simp_all
    then have "2 * 2 ^ k \<le> n" "n < 2 * (2 * 2 ^ k)" by linarith+
    ultimately show ?thesis by simp
  qed
qed

lemma bit_length_pos: "n > 0 \<Longrightarrow> bit_length n > 0"
  by (subst bit_length.simps) simp

lemma bit_length_le: "n < 2 ^ k \<Longrightarrow> bit_length n \<le> k"
proof (cases "n = 0")
  case False
  assume "n < 2 ^ k"
  moreover have "2 ^ (bit_length n - 1) \<le> n" using bit_length_bounds False by simp
  ultimately have "(2::nat) ^ (bit_length n - 1) < 2 ^ k" by linarith
  then show ?thesis by (simp add: power_strict_increasing_iff)
qed (simp add: bit_length.simps)

text \<open>Integers of at most 53 bits are represented exactly.\<close>

lemma f64_fields:
  assumes "e < 2047" and "m < 2 ^ 52" and "s < 2"
  shows "f64_sign (of_nat (s * 2 ^ 63 + e * 2 ^ 52 + m)) \<longleftrightarrow> s = 1"
    and "f64_exp (of_nat (s * 2 ^ 63 + e * 2 ^ 52 + m)) = e"
    and "f64_frac (of_nat (s * 2 ^ 63 + e * 2 ^ 52 + m)) = m"
proof -
  let ?n = "s * 2 ^ 63 + e * 2 ^ 52 + m"
  have em: "e * 2 ^ 52 + m < 2 ^ 63" using assms(1,2) by simp
  have "?n < 2 ^ 64" using em assms(3) by simp
  then have u: "unat (of_nat ?n :: float64) = ?n" by (simp only: unat_of_nat) simp
  have q: "?n div 2 ^ 52 = s * 2 ^ 11 + e" using assms(2) by simp
  show "f64_sign (of_nat ?n) \<longleftrightarrow> s = 1"
    unfolding f64_sign_def u using em assms(3) by auto
  show "f64_exp (of_nat ?n) = e" unfolding f64_exp_def u q using assms(1) by simp
  have "?n = m + (s * 2 ^ 11 + e) * 2 ^ 52" by simp
  then have "?n mod 2 ^ 52 = m" using assms(2) by (simp only: mod_mult_self1 mod_less)
  then show "f64_frac (of_nat ?n) = m" unfolding f64_frac_def u .
qed

lemma f64_of_nat_fields:
  assumes "0 < n" and "n < 2 ^ 53"
  shows "f64_of_nat n = (bit_length n + 1022) * 2 ^ 52 + (n * 2 ^ (53 - bit_length n) - 2 ^ 52)"
    and "2 ^ 52 \<le> n * 2 ^ (53 - bit_length n)" and "n * 2 ^ (53 - bit_length n) < 2 ^ 53"
    and "bit_length n \<le> 53" and "0 < bit_length n"
proof -
  let ?L = "bit_length n"
  show L: "?L \<le> 53" by (rule bit_length_le [OF assms(2)])
  show pos: "0 < ?L" by (rule bit_length_pos [OF assms(1)])
  note b = bit_length_bounds [OF assms(1)]
  have "(2::nat) ^ 52 = 2 ^ (?L - 1) * 2 ^ (53 - ?L)"
    using L pos by (simp flip: power_add)
  also have "\<dots> \<le> n * 2 ^ (53 - ?L)" using b by simp
  finally show lo: "2 ^ 52 \<le> n * 2 ^ (53 - ?L)" .
  have "n * 2 ^ (53 - ?L) < 2 ^ ?L * 2 ^ (53 - ?L)" using b by simp
  also have "\<dots> = 2 ^ 53" using L by (simp flip: power_add)
  finally show "n * 2 ^ (53 - ?L) < 2 ^ 53" .
  have "f64_of_nat n = (?L + 1021) * 2 ^ 52 + n * 2 ^ (53 - ?L)"
    using assms(1) L by (simp add: f64_of_nat_def Let_def)
  then show "f64_of_nat n = (?L + 1022) * 2 ^ 52 + (n * 2 ^ (53 - ?L) - 2 ^ 52)"
    using lo by simp
qed

lemma f64_val_of_int:
  assumes "\<bar>i\<bar> < 2 ^ 53"
  shows "f64_val (f64_of_int i) = Some (of_int i)"
proof (cases "i = 0")
  case True
  then show ?thesis
    by (simp add: f64_of_int_def f64_of_nat_def f64_val_def f64_decode_def f64_exp_def
        f64_magnitude_def f64_frac_def f64_sign_def)
next
  case False
  define n where "n = nat \<bar>i\<bar>"
  define s where "s = (if i < 0 then 1 else 0 :: nat)"
  let ?L = "bit_length n"
  have n: "0 < n" "n < 2 ^ 53" using False assms by (auto simp: n_def)
  note f = f64_of_nat_fields [OF n]
  let ?e = "?L + 1022" let ?m = "n * 2 ^ (53 - ?L) - 2 ^ 52"
  define w :: float64 where "w = of_nat (s * 2 ^ 63 + ?e * 2 ^ 52 + ?m)"
  have w: "f64_of_int i = w"
  proof (cases "i < 0")
    case True
    then have "f64_of_int i = of_nat (2 ^ 63 + f64_of_nat n)" by (simp add: f64_of_int_def n_def)
    then show ?thesis using True unfolding f(1) w_def
      by (simp only: s_def if_True mult_1 add.assoc)
  next
    case False
    then have "f64_of_int i = of_nat (f64_of_nat n)" by (simp add: f64_of_int_def n_def)
    then show ?thesis using False unfolding f(1) w_def
      by (simp only: s_def if_False mult_0 add_0)
  qed
  have "?e < 2047" "?m < 2 ^ 52" "s < 2" using f by (auto simp: s_def)
  note fields = f64_fields [OF this, folded w_def]
  have "(2::nat) ^ 52 + ?m = n * 2 ^ (53 - ?L)" using f(2) by simp
  then have "f64_magnitude w = of_nat (n * 2 ^ (53 - ?L)) * 2 ^ ?e / 2 ^ 1075"
    unfolding f64_magnitude_def fields by simp
  also have "\<dots> = of_nat n * (2 ^ (53 - ?L) * 2 ^ ?e) / 2 ^ 1075" by (simp add: mult.assoc)
  also have "(2::rat) ^ (53 - ?L) * 2 ^ ?e = 2 ^ 1075"
    using f(4) by (simp flip: power_add)
  finally have mag: "f64_magnitude w = of_nat n" by simp
  have "?e \<noteq> 2047" using f(4) by simp
  then have "f64_val w = Some (if s = 1 then - of_nat n else of_nat n)"
    unfolding f64_val_def f64_decode_def fields by (simp add: mag)
  then show ?thesis unfolding w by (auto simp: s_def n_def)
qed

section \<open>Rounding a quotient\<close>

text \<open>\<open>n / d\<close> rounded to the nearest integer, ties to even.\<close>

definition round_ratio :: "nat \<Rightarrow> nat \<Rightarrow> nat" where
  "round_ratio n d =
     (let q = n div d; r = n mod d in
      if 2 * r < d then q else if 2 * r > d then q + 1 else if even q then q else q + 1)"

lemma round_half_even_ratio: "round_half_even n s = round_ratio n (2 ^ s)"
  by (simp only: round_half_even_def round_ratio_def Let_def)

lemma round_ratio_scale:
  assumes "m > 0"
  shows "round_ratio (k * m) (d * m) = round_ratio k d"
proof -
  have "2 * (k mod d * m) < d * m \<longleftrightarrow> 2 * (k mod d) < d" "2 * (k mod d * m) > d * m \<longleftrightarrow> 2 * (k mod d) > d"
    using assms by (simp_all only: mult.assoc [symmetric] mult_less_cancel2 simp_thms)
  moreover have "k * m div (d * m) = k div d" "k * m mod (d * m) = k mod d * m"
    using assms by (simp_all add: mod_mult_mult2)
  ultimately show ?thesis by (simp add: round_ratio_def Let_def)
qed

lemma round_ratio_near:
  assumes "d > 0"
  shows "\<bar>of_nat (round_ratio n d) - of_nat n / of_nat d\<bar> \<le> (1 / 2 :: rat)"
proof -
  let ?q = "n div d" and ?r = "n mod d"
  define D R Q :: rat where "D = of_nat d" and "R = of_nat ?r" and "Q = of_nat ?q"
  have D: "D > 0" using assms by (simp add: D_def)
  have n: "of_nat n = Q * D + R"
    by (simp only: Q_def D_def R_def of_nat_mult [symmetric] of_nat_add [symmetric] div_mult_mod_eq)
  have e: "of_nat n / of_nat d = Q + R / D" using D unfolding n D_def [symmetric] by (simp add: add_divide_distrib)
  have r: "0 \<le> R / D" "R / D \<le> 1" using D assms by (simp_all add: R_def D_def)
  have lo: "R / D \<le> 1 / 2" if "2 * ?r \<le> d"
  proof -
    have "of_nat (2 * ?r) \<le> (of_nat d :: rat)" using that by (simp only: of_nat_le_iff)
    then show ?thesis using D by (simp add: R_def D_def divide_le_eq)
  qed
  have hi: "1 / 2 \<le> R / D" if "d \<le> 2 * ?r"
  proof -
    have "of_nat d \<le> (of_nat (2 * ?r) :: rat)" using that by (simp only: of_nat_le_iff)
    then show ?thesis using D by (simp add: R_def D_def le_divide_eq)
  qed
  consider (down) "round_ratio n d = ?q" "2 * ?r \<le> d" | (up) "round_ratio n d = ?q + 1" "d \<le> 2 * ?r"
    unfolding round_ratio_def Let_def by (cases "2 * ?r < d"; cases "2 * ?r > d"; cases "even ?q") auto
  then show ?thesis
  proof cases
    case down
    then show ?thesis using lo r unfolding e by (simp add: Q_def)
  next
    case up
    then show ?thesis using hi r unfolding e by (simp add: Q_def)
  qed
qed

end
