(* ===== verification/Metrics.thy ===== *)
theory Metrics
  imports SyncMap Float64
begin

text \<open>
  \<open>stats.go\<close>: counters, gauges, timers and time spans, and the store they live in.  The objects
  behind Go pointers live in three heaps of the store, and a pointer is an index into its heap, so
  two references to one counter are one index.  The calls the store makes on its sink are recorded
  in the order they are made.
\<close>

unbundle bit_operations_syntax

section \<open>State\<close>

record counter =
  currentValue :: u64
  lastSentValue :: u64
  idleFlushes :: u32
  detached :: u32
  counter_store :: bool  \<comment> \<open>whether the field \<open>store\<close> is set\<close>
  counter_name :: string

record gauge =
  gauge_value :: u64

record timer =
  base :: int
  timer_name :: string
  active :: u32
  timer_idleFlushes :: u32

text \<open>The calls on a \<open>Sink\<close> and on a \<open>FlushableSink\<close> (\<open>sink.go\<close>).\<close>

datatype sink_call =
    FlushCounter string u64
  | FlushGauge string u64
  | FlushTimer string float64
  | FlushSink

record statStore =
  counters :: "nat smap"
  gauges :: "nat smap"
  timers :: "nat smap"
  counter_heap :: "counter list"
  gauge_heap :: "gauge list"
  timer_heap :: "timer list"
  statGenerators :: "nat list"
  pruneAfterFlushes :: u32
  flushable :: bool  \<comment> \<open>whether the sink is a \<open>FlushableSink\<close>\<close>
  sink_calls :: "sink_call list"

definition zero_counter :: counter where
  "zero_counter = \<lparr>currentValue = 0, lastSentValue = 0, idleFlushes = 0, detached = 0,
     counter_store = False, counter_name = []\<rparr>"

definition zero_gauge :: gauge where
  "zero_gauge = \<lparr>gauge_value = 0\<rparr>"

definition emit :: "sink_call \<Rightarrow> statStore \<Rightarrow> statStore" where
  "emit c s = s\<lparr>sink_calls := sink_calls s @ [c]\<rparr>"

definition upd_counter :: "nat \<Rightarrow> (counter \<Rightarrow> counter) \<Rightarrow> statStore \<Rightarrow> statStore" where
  "upd_counter a f s = s\<lparr>counter_heap := (counter_heap s)[a := f (counter_heap s ! a)]\<rparr>"

definition upd_gauge :: "nat \<Rightarrow> (gauge \<Rightarrow> gauge) \<Rightarrow> statStore \<Rightarrow> statStore" where
  "upd_gauge a f s = s\<lparr>gauge_heap := (gauge_heap s)[a := f (gauge_heap s ! a)]\<rparr>"

definition upd_timer :: "nat \<Rightarrow> (timer \<Rightarrow> timer) \<Rightarrow> statStore \<Rightarrow> statStore" where
  "upd_timer a f s = s\<lparr>timer_heap := (timer_heap s)[a := f (timer_heap s ! a)]\<rparr>"

section \<open>Counters\<close>

definition counter_Value :: "nat \<Rightarrow> statStore \<Rightarrow> u64" where
  "counter_Value a s = currentValue (counter_heap s ! a)"

definition counter_String :: "nat \<Rightarrow> statStore \<Rightarrow> string" where
  "counter_String a s = go_FormatUint (counter_Value a s)"

text \<open>
  \<open>latch\<close> without interference: the compare-and-swap of its loop succeeds in the first round.
\<close>

definition counter_latch :: "nat \<Rightarrow> statStore \<Rightarrow> u64 \<times> statStore" where
  "counter_latch a s =
     (let value = counter_Value a s;
          lastSent = lastSentValue (counter_heap s ! a)
      in if value = lastSent then (0, s)
         else (value - lastSent, upd_counter a (lastSentValue_update (\<lambda>_. value)) s))"

text \<open>
  \<open>rejoin\<close> calls \<open>Add\<close> on another counter, and \<open>Add\<close> calls \<open>rejoin\<close>.  The call of \<open>Add\<close> is a
  parameter here; \<open>counter_Add_fuel\<close> closes the recursion with a bound on its depth, \<open>None\<close> when
  the bound is exceeded.
\<close>

definition counter_rejoin ::
    "(nat \<Rightarrow> u64 \<Rightarrow> statStore \<Rightarrow> statStore option) \<Rightarrow> nat \<Rightarrow> statStore \<Rightarrow> statStore option" where
  "counter_rejoin add a s =
     (let (m, v, loaded) = smap_LoadOrStore (counters s) (counter_name (counter_heap s ! a)) a;
          s = s\<lparr>counters := m\<rparr>
      in if \<not> loaded then Some s
         else if v \<noteq> a then (let (d, s) = counter_latch a s in add v d s)
         else Some s)"

definition counter_maybeRejoin ::
    "(nat \<Rightarrow> u64 \<Rightarrow> statStore \<Rightarrow> statStore option) \<Rightarrow> nat \<Rightarrow> statStore \<Rightarrow> statStore option" where
  "counter_maybeRejoin add a s =
     (if counter_store (counter_heap s ! a) \<and> detached (counter_heap s ! a) \<noteq> 0
      then counter_rejoin add a s else Some s)"

fun counter_Add_fuel :: "nat \<Rightarrow> nat \<Rightarrow> u64 \<Rightarrow> statStore \<Rightarrow> statStore option" where
  "counter_Add_fuel 0 a delta s = None"
| "counter_Add_fuel (Suc n) a delta s =
     counter_maybeRejoin (counter_Add_fuel n) a
       (upd_counter a (currentValue_update (\<lambda>v. v + delta)) s)"

text \<open>A forwarded delta is added to a counter in the map, which forwards nothing: depth two.\<close>

definition counter_Add :: "nat \<Rightarrow> u64 \<Rightarrow> statStore \<Rightarrow> statStore option" where
  "counter_Add = counter_Add_fuel 2"

definition counter_Inc :: "nat \<Rightarrow> statStore \<Rightarrow> statStore option" where
  "counter_Inc a s = counter_Add a 1 s"

definition counter_Set :: "nat \<Rightarrow> u64 \<Rightarrow> statStore \<Rightarrow> statStore option" where
  "counter_Set a value s =
     counter_maybeRejoin counter_Add a (upd_counter a (currentValue_update (\<lambda>_. value)) s)"

definition newCounter :: "string \<Rightarrow> statStore \<Rightarrow> nat \<times> statStore" where
  "newCounter serializedName s =
     (case smap_Load (counters s) serializedName of
        Some v \<Rightarrow> (v, s)
      | None \<Rightarrow>
          let c = (if pruneAfterFlushes s > 0
                   then zero_counter\<lparr>counter_store := True, counter_name := serializedName\<rparr>
                   else zero_counter);
              a = length (counter_heap s);
              s = s\<lparr>counter_heap := counter_heap s @ [c]\<rparr>;
              (m, v, loaded) = smap_LoadOrStore (counters s) serializedName a;
              s = s\<lparr>counters := m\<rparr>
          in if loaded then (v, s) else (a, s))"

section \<open>Gauges\<close>

definition gauge_Value :: "nat \<Rightarrow> statStore \<Rightarrow> u64" where
  "gauge_Value a s = gauge_value (gauge_heap s ! a)"

definition gauge_String :: "nat \<Rightarrow> statStore \<Rightarrow> string" where
  "gauge_String a s = go_FormatUint (gauge_Value a s)"

definition gauge_Add :: "nat \<Rightarrow> u64 \<Rightarrow> statStore \<Rightarrow> statStore" where
  "gauge_Add a value s = upd_gauge a (gauge_value_update (\<lambda>v. v + value)) s"

definition gauge_Sub :: "nat \<Rightarrow> u64 \<Rightarrow> statStore \<Rightarrow> statStore" where
  "gauge_Sub a value s = upd_gauge a (gauge_value_update (\<lambda>v. v + NOT (value - 1))) s"

definition gauge_Inc :: "nat \<Rightarrow> statStore \<Rightarrow> statStore" where
  "gauge_Inc a s = gauge_Add a 1 s"

definition gauge_Dec :: "nat \<Rightarrow> statStore \<Rightarrow> statStore" where
  "gauge_Dec a s = gauge_Sub a 1 s"

definition gauge_Set :: "nat \<Rightarrow> u64 \<Rightarrow> statStore \<Rightarrow> statStore" where
  "gauge_Set a value s = upd_gauge a (gauge_value_update (\<lambda>_. value)) s"

definition newGauge :: "string \<Rightarrow> statStore \<Rightarrow> nat \<times> statStore" where
  "newGauge serializedName s =
     (case smap_Load (gauges s) serializedName of
        Some v \<Rightarrow> (v, s)
      | None \<Rightarrow>
          let a = length (gauge_heap s);
              s = s\<lparr>gauge_heap := gauge_heap s @ [zero_gauge]\<rparr>;
              (m, v, loaded) = smap_LoadOrStore (gauges s) serializedName a;
              s = s\<lparr>gauges := m\<rparr>
          in if loaded then (v, s) else (a, s))"

section \<open>Timers and time spans\<close>

text \<open>\<open>time.Duration\<close> values are nanoseconds.\<close>

definition Microsecond :: int where "Microsecond = 1000"
definition Millisecond :: int where "Millisecond = 1000000"

definition timer_AddValue :: "nat \<Rightarrow> float64 \<Rightarrow> statStore \<Rightarrow> statStore" where
  "timer_AddValue a value s =
     (let s = upd_timer a (active_update (\<lambda>_. 1)) s
      in emit (FlushTimer (timer_name (timer_heap s ! a)) value) s)"

definition timer_AddDuration :: "nat \<Rightarrow> int \<Rightarrow> statStore \<Rightarrow> statStore" where
  "timer_AddDuration a dur s = timer_AddValue a (f64_of_int (go_div dur (base (timer_heap s ! a)))) s"

definition timer_time :: "nat \<Rightarrow> int \<Rightarrow> statStore \<Rightarrow> statStore" where
  "timer_time a dur s = timer_AddDuration a dur s"

definition newTimer :: "string \<Rightarrow> int \<Rightarrow> statStore \<Rightarrow> nat \<times> statStore" where
  "newTimer serializedName bs s =
     (case smap_Load (timers s) serializedName of
        Some v \<Rightarrow> (v, s)
      | None \<Rightarrow>
          let t = \<lparr>base = bs, timer_name = serializedName, active = 0, timer_idleFlushes = 0\<rparr>;
              a = length (timer_heap s);
              s = s\<lparr>timer_heap := timer_heap s @ [t]\<rparr>;
              (m, v, loaded) = smap_LoadOrStore (timers s) serializedName a;
              s = s\<lparr>timers := m\<rparr>
          in if loaded then (v, s) else (a, s))"

record timespan =
  span_timer :: nat
  span_start :: int

text \<open>The current time is an argument; \<open>time.Since\<close> saturates at the ends of \<open>int64\<close>.\<close>

definition time_Since :: "int \<Rightarrow> int \<Rightarrow> int" where
  "time_Since now start = max (- (2 ^ 63)) (min (2 ^ 63 - 1) (now - start))"

definition timer_AllocateSpan :: "nat \<Rightarrow> int \<Rightarrow> timespan" where
  "timer_AllocateSpan a now = \<lparr>span_timer = a, span_start = now\<rparr>"

definition timespan_Complete :: "timespan \<Rightarrow> int \<Rightarrow> statStore \<Rightarrow> int \<times> statStore" where
  "timespan_Complete ts now s =
     (let d = time_Since now (span_start ts) in (d, timer_time (span_timer ts) d s))"

definition timespan_CompleteWithDuration :: "timespan \<Rightarrow> int \<Rightarrow> statStore \<Rightarrow> statStore" where
  "timespan_CompleteWithDuration ts value s = timer_time (span_timer ts) value s"

section \<open>Flush\<close>

text \<open>The callback of \<open>counters.Range\<close>.\<close>

definition flush_counter :: "string \<times> nat \<Rightarrow> statStore \<Rightarrow> statStore option" where
  "flush_counter kv s =
     (case kv of (key, a) \<Rightarrow>
        let (value, s) = counter_latch a s in
        if value \<noteq> 0 then
          let s = emit (FlushCounter key value) s;
              s = upd_counter a (idleFlushes_update (\<lambda>_. 0)) s;
              s = upd_counter a (detached_update (\<lambda>_. 0)) s
          in Some s
        else if pruneAfterFlushes s = 0 then Some s
        else
          let s = upd_counter a (idleFlushes_update (\<lambda>n. n + 1)) s in
          if idleFlushes (counter_heap s ! a) < pruneAfterFlushes s then Some s
          else
            let s = s\<lparr>counters := smap_Delete (counters s) key\<rparr>;
                s = upd_counter a (detached_update (\<lambda>_. 1)) s;
                (v, s) = counter_latch a s
            in if v \<noteq> 0 then
                 let s = emit (FlushCounter key v) s;
                     s = upd_counter a (idleFlushes_update (\<lambda>_. 0)) s
                 in counter_rejoin counter_Add a s
               else Some s)"

fun flush_counters :: "(string \<times> nat) list \<Rightarrow> statStore \<Rightarrow> statStore option" where
  "flush_counters [] s = Some s"
| "flush_counters (kv # kvs) s =
     (case flush_counter kv s of None \<Rightarrow> None | Some s \<Rightarrow> flush_counters kvs s)"

text \<open>The callback of \<open>timers.Range\<close>.\<close>

definition flush_timer :: "string \<times> nat \<Rightarrow> statStore \<Rightarrow> statStore" where
  "flush_timer kv s =
     (case kv of (key, a) \<Rightarrow>
        let was_active = active (timer_heap s ! a);
            s = upd_timer a (active_update (\<lambda>_. 0)) s
        in if was_active \<noteq> 0 then upd_timer a (timer_idleFlushes_update (\<lambda>_. 0)) s
           else if pruneAfterFlushes s = 0 then s
           else let s = upd_timer a (timer_idleFlushes_update (\<lambda>n. n + 1)) s in
                if timer_idleFlushes (timer_heap s ! a) < pruneAfterFlushes s then s
                else s\<lparr>timers := smap_Delete (timers s) key\<rparr>)"

text \<open>The callback of \<open>gauges.Range\<close>.\<close>

definition flush_gauge :: "string \<times> nat \<Rightarrow> statStore \<Rightarrow> statStore" where
  "flush_gauge kv s = (case kv of (key, a) \<Rightarrow> emit (FlushGauge key (gauge_Value a s)) s)"

text \<open>
  \<open>Flush\<close>.  What the registered generators do is the caller's code: \<open>gen g\<close> is the effect of
  \<open>GenerateStats\<close> of the generator \<open>g\<close>.  Each \<open>Range\<close> visits the entries its map holds when it
  starts.
\<close>

definition Flush :: "(nat \<Rightarrow> statStore \<Rightarrow> statStore) \<Rightarrow> statStore \<Rightarrow> statStore option" where
  "Flush gen s =
     (let s = fold gen (statGenerators s) s in
      case flush_counters (counters s) s of
        None \<Rightarrow> None
      | Some s \<Rightarrow>
          let s = fold flush_timer (timers s) s;
              s = fold flush_gauge (gauges s) s
          in Some (if flushable s then emit FlushSink s else s))"

definition AddStatGenerator :: "nat \<Rightarrow> statStore \<Rightarrow> statStore" where
  "AddStatGenerator g s = s\<lparr>statGenerators := statGenerators s @ [g]\<rparr>"

text \<open>\<open>NewStore\<close>; the number of flushes comes from the environment (theory \<open>Settings\<close>).\<close>

definition empty_store :: "u32 \<Rightarrow> bool \<Rightarrow> statStore" where
  "empty_store prune fl =
     \<lparr>counters = [], gauges = [], timers = [], counter_heap = [], gauge_heap = [], timer_heap = [],
      statGenerators = [], pruneAfterFlushes = prune, flushable = fl, sink_calls = []\<rparr>"

end
