(* ===== verification/Metrics_Inv.thy ===== *)
theory Metrics_Inv
  imports Metrics
begin

text \<open>
  The invariant of the counters of a store, the balance of a counter name, and what the writes on a
  counter do: where they leave the counter, and that they lose nothing.
\<close>

section \<open>The invariant\<close>

definition pending :: "counter \<Rightarrow> u64" where
  "pending c = currentValue c - lastSentValue c"

definition attached :: "statStore \<Rightarrow> nat \<Rightarrow> bool" where
  "attached s a \<longleftrightarrow> a \<in> snd ` set (counters s)"

abbreviation counter_at :: "statStore \<Rightarrow> nat \<Rightarrow> counter" where
  "counter_at s a \<equiv> counter_heap s ! a"

text \<open>
  Every entry of the map points to a counter of the heap that carries the entry's key (when pruning
  is on, the only case in which counters record their key), no counter is entered twice, and a
  counter outside the map is marked detached, so that its next write calls \<open>rejoin\<close>.
\<close>

definition core_inv :: "statStore \<Rightarrow> bool" where
  "core_inv s \<longleftrightarrow>
     smap_ok (counters s) \<and> distinct (map snd (counters s)) \<and>
     (\<forall>(k, a) \<in> set (counters s). a < length (counter_heap s) \<and>
        (pruneAfterFlushes s \<noteq> 0 \<longrightarrow> counter_name (counter_at s a) = k)) \<and>
     (\<forall>a < length (counter_heap s).
        (counter_store (counter_at s a) \<longleftrightarrow> pruneAfterFlushes s \<noteq> 0) \<and>
        (attached s a \<or> pruneAfterFlushes s \<noteq> 0 \<and> detached (counter_at s a) \<noteq> 0))"

text \<open>Counters outside the map have nothing left to report, those in \<open>X\<close> excepted.\<close>

definition settled :: "nat set \<Rightarrow> statStore \<Rightarrow> bool" where
  "settled X s \<longleftrightarrow>
     (\<forall>a < length (counter_heap s). a \<notin> X \<longrightarrow> attached s a \<or> pending (counter_at s a) = 0)"

definition counters_inv :: "statStore \<Rightarrow> bool" where
  "counters_inv s \<longleftrightarrow> core_inv s \<and> settled {} s"

lemma core_invD:
  assumes "core_inv s"
  shows "smap_ok (counters s)" "distinct (map snd (counters s))"
    and "(k, a) \<in> set (counters s) \<Longrightarrow> a < length (counter_heap s)"
    and "(k, a) \<in> set (counters s) \<Longrightarrow> pruneAfterFlushes s \<noteq> 0 \<Longrightarrow>
           counter_name (counter_at s a) = k"
    and "a < length (counter_heap s) \<Longrightarrow> counter_store (counter_at s a) \<longleftrightarrow> pruneAfterFlushes s \<noteq> 0"
    and "a < length (counter_heap s) \<Longrightarrow> \<not> attached s a \<Longrightarrow>
           pruneAfterFlushes s \<noteq> 0 \<and> detached (counter_at s a) \<noteq> 0"
  using assms by (auto simp: core_inv_def)

lemma core_inv_Load:
  "core_inv s \<Longrightarrow> smap_Load (counters s) k = Some a \<longleftrightarrow> (k, a) \<in> set (counters s)"
  by (rule sm.load_Some_iff [OF core_invD(1)])

lemma attached_in_range: "core_inv s \<Longrightarrow> attached s a \<Longrightarrow> a < length (counter_heap s)"
  by (auto simp: attached_def dest: core_invD(3))

lemma attached_key:
  assumes "core_inv s" "attached s a" "pruneAfterFlushes s \<noteq> 0"
  shows "smap_Load (counters s) (counter_name (counter_at s a)) = Some a"
  using assms core_invD(4) [OF assms(1)] by (auto simp: attached_def core_inv_Load)

section \<open>Effects on the fields\<close>

lemma upd_counter_sel [simp]:
  "counters (upd_counter a f s) = counters s" "gauges (upd_counter a f s) = gauges s"
  "timers (upd_counter a f s) = timers s" "gauge_heap (upd_counter a f s) = gauge_heap s"
  "timer_heap (upd_counter a f s) = timer_heap s"
  "statGenerators (upd_counter a f s) = statGenerators s"
  "pruneAfterFlushes (upd_counter a f s) = pruneAfterFlushes s"
  "flushable (upd_counter a f s) = flushable s" "sink_calls (upd_counter a f s) = sink_calls s"
  "length (counter_heap (upd_counter a f s)) = length (counter_heap s)"
  by (simp_all add: upd_counter_def)

lemma upd_counter_heap: "counter_heap (upd_counter a f s) = (counter_heap s)[a := f (counter_at s a)]"
  by (simp add: upd_counter_def)

lemma upd_counter_at:
  "b < length (counter_heap s) \<Longrightarrow>
     counter_at (upd_counter a f s) b = (if a = b then f (counter_at s a) else counter_at s b)"
  by (simp add: upd_counter_def nth_list_update)

lemma emit_sel [simp]:
  "counters (emit c s) = counters s" "gauges (emit c s) = gauges s" "timers (emit c s) = timers s"
  "counter_heap (emit c s) = counter_heap s" "gauge_heap (emit c s) = gauge_heap s"
  "timer_heap (emit c s) = timer_heap s" "statGenerators (emit c s) = statGenerators s"
  "pruneAfterFlushes (emit c s) = pruneAfterFlushes s" "flushable (emit c s) = flushable s"
  "sink_calls (emit c s) = sink_calls s @ [c]"
  by (simp_all add: emit_def)

lemma attached_upd [simp]: "attached (upd_counter a f s) b = attached s b"
  by (simp add: attached_def)

lemma attached_emit [simp]: "attached (emit c s) b = attached s b"
  by (simp add: attached_def)

lemma upd_counter_id: "f (counter_at s a) = counter_at s a \<Longrightarrow> upd_counter a f s = s"
  by (simp add: upd_counter_def)

lemma upd_counter_twice: "upd_counter a f (upd_counter a g s) = upd_counter a (f \<circ> g) s"
  by (cases "a < length (counter_heap s)")
     (simp_all add: upd_counter_def list_update_beyond)

text \<open>\<open>latch\<close> returns what is pending and marks it as sent.\<close>

lemma counter_latch_eq:
  "counter_latch a s =
     (pending (counter_at s a),
      upd_counter a (\<lambda>c. c\<lparr>lastSentValue := currentValue c\<rparr>) s)"
proof (cases "currentValue (counter_at s a) = lastSentValue (counter_at s a)")
  case True
  then have "upd_counter a (\<lambda>c. c\<lparr>lastSentValue := currentValue c\<rparr>) s = s"
    by (intro upd_counter_id) simp
  with True show ?thesis by (simp add: counter_latch_def counter_Value_def pending_def)
next
  case False
  then show ?thesis
    by (simp add: counter_latch_def counter_Value_def pending_def Let_def upd_counter_def)
qed

lemma core_inv_upd [inv_intros]:
  assumes "core_inv s"
    and "counter_store (f (counter_at s a)) = counter_store (counter_at s a)"
    and "counter_name (f (counter_at s a)) = counter_name (counter_at s a)"
    and "\<not> attached s a \<Longrightarrow> detached (f (counter_at s a)) = detached (counter_at s a)"
  shows "core_inv (upd_counter a f s)"
  using assms by (auto simp: core_inv_def upd_counter_at)

lemma core_inv_emit [inv_intros]: "core_inv s \<Longrightarrow> core_inv (emit c s)"
  by (simp add: core_inv_def)

lemma settled_upd:
  "settled X s \<Longrightarrow> attached s a \<or> a \<in> X \<or> pending (f (counter_at s a)) = 0 \<Longrightarrow>
     settled X (upd_counter a f s)"
  by (auto simp: settled_def upd_counter_at)

lemma settled_emit: "settled X s \<Longrightarrow> settled X (emit c s)"
  by (simp add: settled_def)

section \<open>The balance of a name\<close>

definition delivered :: "string \<Rightarrow> sink_call list \<Rightarrow> u64" where
  "delivered n calls =
     sum_list (map (\<lambda>c. case c of FlushCounter m v \<Rightarrow> if m = n then v else 0 | _ \<Rightarrow> 0) calls)"

text \<open>
  The name a counter was created under.  It is recorded in the counter when pruning is on;
  otherwise nothing leaves the map, and it is the counter's key there.
\<close>

definition owner :: "statStore \<Rightarrow> nat \<Rightarrow> string" where
  "owner s a =
     (if pruneAfterFlushes s \<noteq> 0 then counter_name (counter_at s a)
      else case find (\<lambda>e. snd e = a) (counters s) of Some e \<Rightarrow> fst e | None \<Rightarrow> [])"

definition account :: "statStore \<Rightarrow> string \<Rightarrow> u64" where
  "account s n =
     delivered n (sink_calls s) +
     (\<Sum>a < length (counter_heap s). if owner s a = n then pending (counter_at s a) else 0)"

lemma delivered_simps [simp]:
  "delivered n [] = 0"
  "delivered n (calls @ calls') = delivered n calls + delivered n calls'"
  "delivered n (FlushCounter m v # calls) = (if m = n then v else 0) + delivered n calls"
  "delivered n (FlushGauge m v # calls) = delivered n calls"
  "delivered n (FlushTimer m w # calls) = delivered n calls"
  "delivered n (FlushSink # calls) = delivered n calls"
  by (simp_all add: delivered_def)

lemma find_unique_snd:
  "distinct (map snd m) \<Longrightarrow> (k, a) \<in> set m \<Longrightarrow> find (\<lambda>e. snd e = a) m = Some (k, a)"
  by (induction m) (auto simp: rev_image_eqI)

lemma owner_attached:
  assumes "core_inv s" and "(k, a) \<in> set (counters s)"
  shows "owner s a = k"
  using assms core_invD(2,4) [OF assms(1)] by (auto simp: owner_def find_unique_snd)

lemma owner_upd:
  "counter_name (f (counter_at s a)) = counter_name (counter_at s a) \<Longrightarrow>
     b < length (counter_heap s) \<Longrightarrow> owner (upd_counter a f s) b = owner s b"
  by (auto simp: owner_def upd_counter_at)

lemma owner_emit [simp]: "owner (emit c s) = owner s"
  by (simp add: owner_def fun_eq_iff)

lemma account_upd:
  assumes "counter_name (f (counter_at s a)) = counter_name (counter_at s a)"
    and "a < length (counter_heap s)"
  shows "account (upd_counter a f s) n =
           account s n + (if owner s a = n
                          then pending (f (counter_at s a)) - pending (counter_at s a) else 0)"
proof -
  let ?A = "{..<length (counter_heap s)}"
  let ?g = "\<lambda>b. if owner s b = n then pending (counter_at s b) else 0"
  let ?h = "\<lambda>b. if owner (upd_counter a f s) b = n
                then pending (counter_at (upd_counter a f s) b) else 0"
  have "sum ?h ?A = ?h a + sum ?h (?A - {a})"
    using assms(2) by (intro sum.remove) auto
  also have "sum ?h (?A - {a}) = sum ?g (?A - {a})"
    using assms by (intro sum.cong) (auto simp: owner_upd upd_counter_at)
  also have "?h a = (if owner s a = n then pending (f (counter_at s a)) else 0)"
    using assms by (simp add: owner_upd upd_counter_at)
  finally have h: "sum ?h ?A =
      (if owner s a = n then pending (f (counter_at s a)) else 0) + sum ?g (?A - {a})" .
  have g: "sum ?g ?A = ?g a + sum ?g (?A - {a})" using assms(2) by (intro sum.remove) auto
  show ?thesis unfolding account_def by (simp add: h g)
qed

lemma account_emit:
  "account (emit c s) n = account s n + delivered n [c]"
  by (simp add: account_def cong: if_cong)

section \<open>Writes on a counter\<close>

text \<open>
  Where \<open>maybeRejoin\<close> leaves a counter: untouched when it is in the map; back in the map when its
  name is free; otherwise its pending delta moves to the counter that holds its name.
\<close>

definition rejoined :: "nat \<Rightarrow> statStore \<Rightarrow> statStore" where
  "rejoined a s =
     (if attached s a then s
      else case smap_Load (counters s) (counter_name (counter_at s a)) of
             None \<Rightarrow> s\<lparr>counters := counters s @ [(counter_name (counter_at s a), a)]\<rparr>
           | Some b \<Rightarrow>
               upd_counter b (currentValue_update (\<lambda>v. v + pending (counter_at s a)))
                 (upd_counter a (\<lambda>c. c\<lparr>lastSentValue := currentValue c\<rparr>) s))"

lemma same_counters [simp]: "s\<lparr>counters := counters s\<rparr> = s"
  by simp

lemma maybeRejoin_attached:
  assumes "core_inv s" and "attached s a"
  shows "counter_maybeRejoin add a s = Some s"
proof (cases "counter_store (counter_at s a) \<and> detached (counter_at s a) \<noteq> 0")
  case True
  have "a < length (counter_heap s)" using assms by (rule attached_in_range)
  then have "pruneAfterFlushes s \<noteq> 0" using True core_invD(5) [OF assms(1)] by blast
  then have "smap_Load (counters s) (counter_name (counter_at s a)) = Some a"
    by (rule attached_key [OF assms])
  then have "smap_LoadOrStore (counters s) (counter_name (counter_at s a)) a = (counters s, a, True)"
    by (rule sm.los_present)
  with True show ?thesis by (simp add: counter_maybeRejoin_def counter_rejoin_def)
next
  case False
  then show ?thesis by (auto simp: counter_maybeRejoin_def)
qed

lemma Add_attached:
  assumes "core_inv s" and "attached s a"
  shows "counter_Add_fuel (Suc n) a d s = Some (upd_counter a (currentValue_update (\<lambda>v. v + d)) s)"
  using assms by (simp add: maybeRejoin_attached core_inv_upd)

lemma maybeRejoin_eq:
  assumes "core_inv s" and "a < length (counter_heap s)"
  shows "counter_maybeRejoin (counter_Add_fuel (Suc n)) a s = Some (rejoined a s)"
proof (cases "attached s a")
  case True
  with assms show ?thesis by (simp add: maybeRejoin_attached rejoined_def)
next
  case False
  let ?name = "counter_name (counter_at s a)"
  have d: "pruneAfterFlushes s \<noteq> 0" "detached (counter_at s a) \<noteq> 0"
    using core_invD(6) [OF assms False] by auto
  then have st: "counter_store (counter_at s a)" using core_invD(5) [OF assms] by simp
  show ?thesis
  proof (cases "smap_Load (counters s) ?name")
    case None
    then have "smap_LoadOrStore (counters s) ?name a = (counters s @ [(?name, a)], a, False)"
      by (simp add: smap_Load_def smap_LoadOrStore_def)
    with None False d st show ?thesis
      by (simp add: counter_maybeRejoin_def counter_rejoin_def rejoined_def)
  next
    case (Some b)
    then have los: "smap_LoadOrStore (counters s) ?name a = (counters s, b, True)"
      by (rule sm.los_present)
    have b: "attached s b" using Some assms(1)
      by (force simp: core_inv_Load attached_def)
    have "b \<noteq> a" using b False by auto
    let ?s = "upd_counter a (\<lambda>c. c\<lparr>lastSentValue := currentValue c\<rparr>) s"
    have "core_inv ?s" "attached ?s b" using assms(1) b by (auto intro: core_inv_upd)
    note Add_attached [OF this]
    with Some False d st los \<open>b \<noteq> a\<close> show ?thesis
      by (simp add: counter_maybeRejoin_def counter_rejoin_def rejoined_def counter_latch_eq
          del: counter_Add_fuel.simps)
  qed
qed

theorem Add_fuel_enough:
  assumes "core_inv s" and "a < length (counter_heap s)"
  shows "counter_Add_fuel (Suc (Suc n)) a d s =
           Some (rejoined a (upd_counter a (currentValue_update (\<lambda>v. v + d)) s))"
  using assms maybeRejoin_eq [of "upd_counter a (currentValue_update (\<lambda>v. v + d)) s" a n]
  by (simp add: core_inv_upd del: counter_Add_fuel.simps(2) add: counter_Add_fuel.simps(2) [of "Suc n"])

lemma counter_Add_eq:
  assumes "core_inv s" and "a < length (counter_heap s)"
  shows "counter_Add a d s = Some (rejoined a (upd_counter a (currentValue_update (\<lambda>v. v + d)) s))"
  using Add_fuel_enough [OF assms, of 0] by (simp add: counter_Add_def numeral_2_eq_2)

lemma counter_Set_eq:
  assumes "core_inv s" and "a < length (counter_heap s)"
  shows "counter_Set a v s = Some (rejoined a (upd_counter a (currentValue_update (\<lambda>_. v)) s))"
  using assms maybeRejoin_eq [of "upd_counter a (currentValue_update (\<lambda>_. v)) s" a 1]
  by (simp add: counter_Set_def counter_Add_def core_inv_upd numeral_2_eq_2
      del: counter_Add_fuel.simps)

section \<open>Rejoining keeps the invariant and the balances\<close>

lemma append_counter_inv:
  assumes "core_inv s" and "a < length (counter_heap s)" and "\<not> attached s a"
    and "smap_Load (counters s) k = None" and "pruneAfterFlushes s \<noteq> 0 \<longrightarrow> counter_name (counter_at s a) = k"
  shows "core_inv (s\<lparr>counters := counters s @ [(k, a)]\<rparr>)"
  using assms by (auto simp: core_inv_def attached_def smap_ok_def smap_Load_def map_of_eq_None_iff)

lemma rejoined_heap_length [simp]: "length (counter_heap (rejoined a s)) = length (counter_heap s)"
  by (simp add: rejoined_def split: option.split)

lemma rejoined_sel [simp]:
  "pruneAfterFlushes (rejoined a s) = pruneAfterFlushes s" "sink_calls (rejoined a s) = sink_calls s"
  "gauges (rejoined a s) = gauges s" "timers (rejoined a s) = timers s"
  "gauge_heap (rejoined a s) = gauge_heap s" "timer_heap (rejoined a s) = timer_heap s"
  "statGenerators (rejoined a s) = statGenerators s" "flushable (rejoined a s) = flushable s"
  by (simp_all add: rejoined_def split: option.split)

lemma core_inv_rejoined [inv_intros]:
  assumes "core_inv s" and "a < length (counter_heap s)"
  shows "core_inv (rejoined a s)"
proof (cases "attached s a")
  case True
  with assms show ?thesis by (simp add: rejoined_def)
next
  case False
  then show ?thesis using assms
    by (auto simp: rejoined_def append_counter_inv intro!: core_inv_upd split: option.split)
qed

lemma settled_rejoined:
  assumes "core_inv s" and "a < length (counter_heap s)" and "settled {a} s"
  shows "settled {} (rejoined a s)"
proof (cases "attached s a \<or> smap_Load (counters s) (counter_name (counter_at s a)) = None")
  case True
  with assms show ?thesis by (auto simp: rejoined_def settled_def attached_def)
next
  case False
  then obtain b where b: "smap_Load (counters s) (counter_name (counter_at s a)) = Some b"
    by auto
  then have "attached s b" using assms(1) by (force simp: core_inv_Load attached_def)
  with b False assms(2,3) show ?thesis
    by (auto simp: rejoined_def settled_def upd_counter_at pending_def)
qed

end
