(* ===== verification/Counter_Ops.thy ===== *)
theory Counter_Ops
  imports Metrics_Inv
begin

text \<open>
  The operations on counters keep the invariant, and each changes the balance of the names by
  exactly what was written.  The three constructors are the get-or-create sequence of \<open>SyncMap\<close>.
\<close>

section \<open>Forwarding keeps the balances\<close>

lemma account_rejoined:
  assumes "core_inv s" and "a < length (counter_heap s)"
  shows "account (rejoined a s) n = account s n"
proof (cases "attached s a")
  case True
  then show ?thesis by (simp add: rejoined_def)
next
  case False
  then have prune: "pruneAfterFlushes s \<noteq> 0" using core_invD(6) [OF assms] by simp
  let ?name = "counter_name (counter_at s a)"
  show ?thesis
  proof (cases "smap_Load (counters s) ?name")
    case None
    with False prune show ?thesis by (simp add: rejoined_def account_def owner_def cong: if_cong)
  next
    case (Some b)
    then have kb: "(?name, b) \<in> set (counters s)" using assms(1) by (simp add: core_inv_Load)
    then have b: "attached s b" "b < length (counter_heap s)" "counter_name (counter_at s b) = ?name"
      using assms(1) prune by (force simp: attached_def dest: core_invD)+
    have "b \<noteq> a" using b False by auto
    let ?f = "\<lambda>c. c\<lparr>lastSentValue := currentValue c\<rparr>"
    have own: "owner (upd_counter a ?f s) b = ?name" "owner s a = ?name"
      using prune b \<open>b \<noteq> a\<close> by (simp_all add: owner_def upd_counter_at)
    show ?thesis using False Some b \<open>b \<noteq> a\<close> assms own
      by (simp add: rejoined_def account_upd upd_counter_at pending_def)
  qed
qed

section \<open>Add, Inc and Set\<close>

lemma write_counter:
  assumes "counters_inv s" and "a < length (counter_heap s)"
    and "counter_store (f (counter_at s a)) = counter_store (counter_at s a)"
    and "counter_name (f (counter_at s a)) = counter_name (counter_at s a)"
    and "detached (f (counter_at s a)) = detached (counter_at s a)"
  shows "counters_inv (rejoined a (upd_counter a f s))"
    and "account (rejoined a (upd_counter a f s)) n = account s n +
           (if owner s a = n then pending (f (counter_at s a)) - pending (counter_at s a) else 0)"
proof -
  let ?s = "upd_counter a f s"
  have "core_inv ?s" using assms by (simp add: counters_inv_def core_inv_upd)
  moreover have "settled {a} ?s" using assms(1)
    by (intro settled_upd) (auto simp: counters_inv_def settled_def)
  ultimately show "counters_inv (rejoined a ?s)" using assms(2)
    by (simp add: counters_inv_def core_inv_rejoined settled_rejoined)
  show "account (rejoined a ?s) n = account s n +
           (if owner s a = n then pending (f (counter_at s a)) - pending (counter_at s a) else 0)"
    using \<open>core_inv ?s\<close> assms(2,4) by (simp add: account_rejoined account_upd)
qed

lemma counter_Add_correct:
  assumes "counters_inv s" and "a < length (counter_heap s)"
  shows "\<exists>s'. counter_Add a d s = Some s' \<and> counters_inv s' \<and>
           (\<forall>n. account s' n = account s n + (if owner s a = n then d else 0))"
  using write_counter [OF assms, of "currentValue_update (\<lambda>v. v + d)"] assms
  by (simp add: counter_Add_eq counters_inv_def pending_def cong: if_cong)

lemma counter_Set_correct:
  assumes "counters_inv s" and "a < length (counter_heap s)"
  shows "\<exists>s'. counter_Set a v s = Some s' \<and> counters_inv s' \<and>
           (\<forall>n. account s' n =
              account s n + (if owner s a = n then v - currentValue (counter_at s a) else 0))"
  using write_counter [OF assms, of "currentValue_update (\<lambda>_. v)"] assms
  by (simp add: counter_Set_eq counters_inv_def pending_def cong: if_cong)

lemma rejoined_frame:
  "fst ` set (counters s) \<subseteq> fst ` set (counters (rejoined a s))"
  by (auto simp: rejoined_def split: option.split)

text \<open>The value a counter shows is what was written to it, whether or not it is in the map.\<close>

lemma rejoined_value:
  assumes "core_inv s" and "a < length (counter_heap s)"
  shows "currentValue (counter_at (rejoined a s) a) = currentValue (counter_at s a)"
proof (cases "attached s a")
  case False
  then show ?thesis using assms
    by (auto simp: rejoined_def upd_counter_at core_inv_Load attached_def rev_image_eqI
        split: option.split)
qed (simp add: rejoined_def)

section \<open>Constructors\<close>

lemma newCounter_get_or_create:
  "newCounter k s = (a, s') \<Longrightarrow>
     (counters s', a) = sm.get_or_create (counters s) k (length (counter_heap s))"
  by (auto simp: newCounter_def sm.get_or_create_def smap_Load_def smap_LoadOrStore_def Let_def
      split: option.splits prod.splits if_splits)

lemma newGauge_get_or_create:
  "newGauge k s = (a, s') \<Longrightarrow>
     (gauges s', a) = sm.get_or_create (gauges s) k (length (gauge_heap s))"
  by (auto simp: newGauge_def sm.get_or_create_def smap_Load_def smap_LoadOrStore_def Let_def
      split: option.splits prod.splits if_splits)

lemma newTimer_get_or_create:
  "newTimer k b s = (a, s') \<Longrightarrow>
     (timers s', a) = sm.get_or_create (timers s) k (length (timer_heap s))"
  by (auto simp: newTimer_def sm.get_or_create_def smap_Load_def smap_LoadOrStore_def Let_def
      split: option.splits prod.splits if_splits)

lemma newCounter_hit: "smap_Load (counters s) k = Some a \<Longrightarrow> newCounter k s = (a, s)"
  by (simp add: newCounter_def)

definition fresh_counter :: "statStore \<Rightarrow> string \<Rightarrow> counter" where
  "fresh_counter s k =
     (if pruneAfterFlushes s > 0 then zero_counter\<lparr>counter_store := True, counter_name := k\<rparr>
      else zero_counter)"

lemma newCounter_miss:
  assumes "smap_Load (counters s) k = None"
  shows "newCounter k s =
           (length (counter_heap s),
            s\<lparr>counter_heap := counter_heap s @ [fresh_counter s k],
              counters := counters s @ [(k, length (counter_heap s))]\<rparr>)"
  using assms
  by (simp add: newCounter_def fresh_counter_def smap_Load_def smap_LoadOrStore_def Let_def)

lemma word_zero_gt: "(x::'a::len word) > 0 \<longleftrightarrow> x \<noteq> 0"
  by (simp add: word_gt_0)

lemma newCounter_miss_inv:
  assumes "counters_inv s" and "smap_Load (counters s) k = None"
  defines "s' \<equiv> s\<lparr>counter_heap := counter_heap s @ [fresh_counter s k],
              counters := counters s @ [(k, length (counter_heap s))]\<rparr>"
  shows "counters_inv s'" and "account s' n = account s n"
    and "owner s' (length (counter_heap s)) = k"
    and "b < length (counter_heap s) \<Longrightarrow> owner s' b = owner s b"
proof -
  let ?L = "length (counter_heap s)"
  have core: "core_inv s" using assms(1) by (simp add: counters_inv_def)
  have new: "?L \<notin> snd ` set (counters s)" "k \<notin> fst ` set (counters s)"
    using core assms(2) by (auto dest: core_invD(3) simp: smap_Load_def map_of_eq_None_iff)
  have "\<forall>b < length (counter_heap s'). attached s' b \<longleftrightarrow> attached s b \<or> b = ?L"
    by (auto simp: attached_def s'_def)
  note att = this [rule_format]
  have at: "counter_at s' b = (if b < ?L then counter_at s b else fresh_counter s k)" if "b \<le> ?L" for b
    using that by (auto simp: s'_def nth_append)
  have core': "core_inv s'" using core new att
    by (auto simp: core_inv_def s'_def smap_ok_def nth_append fresh_counter_def zero_counter_def
        word_zero_gt less_Suc_eq attached_def)
  moreover have "settled {} s'" using assms(1) att
    by (auto simp: counters_inv_def settled_def s'_def nth_append less_Suc_eq attached_def)
  ultimately show "counters_inv s'" by (simp add: counters_inv_def)
  show own: "owner s' ?L = k" using core' by (rule owner_attached) (simp add: s'_def)
  show own': "owner s' b = owner s b" if b: "b < ?L" for b
  proof (cases "pruneAfterFlushes s = 0")
    case True
    then obtain l where "(l, b) \<in> set (counters s)" using core_invD(6) [OF core b]
      unfolding attached_def by force
    then show ?thesis using owner_attached [OF core] owner_attached [OF core', of l b]
      by (simp add: s'_def)
  next
    case False
    then show ?thesis using b by (simp add: owner_def s'_def nth_append)
  qed
  have "pending (fresh_counter s k) = 0" by (simp add: fresh_counter_def zero_counter_def pending_def)
  moreover have "length (counter_heap s') = Suc ?L" by (simp add: s'_def)
  moreover have "sink_calls s' = sink_calls s" by (simp add: s'_def)
  ultimately show "account s' n = account s n"
    using own' by (simp add: account_def at cong: if_cong sum.cong_simp)
qed

lemma newCounter_correct:
  assumes "counters_inv s" and "newCounter k s = (a, s')"
  shows "counters_inv s'" and "a < length (counter_heap s')" and "owner s' a = k"
    and "smap_Load (counters s') = (smap_Load (counters s))(k \<mapsto> a)"
    and "account s' n = account s n"
    and "b < length (counter_heap s) \<Longrightarrow> owner s' b = owner s b"
    and "newCounter k s' = (a, s')"
proof -
  have core: "core_inv s" using assms(1) by (simp add: counters_inv_def)
  have "counters_inv s' \<and> a < length (counter_heap s') \<and> owner s' a = k \<and>
        smap_Load (counters s') = (smap_Load (counters s))(k \<mapsto> a) \<and> account s' n = account s n \<and>
        (b < length (counter_heap s) \<longrightarrow> owner s' b = owner s b)"
  proof (cases "smap_Load (counters s) k")
    case (Some c)
    then have "(k, c) \<in> set (counters s)" using core by (simp add: core_inv_Load)
    then have "c < length (counter_heap s)" "owner s c = k" using core
      by (auto dest: core_invD(3) owner_attached)
    with Some assms show ?thesis by (auto simp: newCounter_hit)
  next
    case None
    note m = newCounter_miss [OF None] newCounter_miss_inv [OF assms(1) None]
    have "smap_Load (counters s @ [(k, length (counter_heap s))]) =
            (smap_Load (counters s))(k \<mapsto> length (counter_heap s))"
      using None unfolding smap_Load_def [abs_def] by (rule smap_Load_append)
    then show ?thesis using assms(2) m by (auto simp del: fun_upd_apply)
  qed
  then show "counters_inv s'" "a < length (counter_heap s')" "owner s' a = k"
    and "smap_Load (counters s') = (smap_Load (counters s))(k \<mapsto> a)"
    and "account s' n = account s n"
    and "b < length (counter_heap s) \<Longrightarrow> owner s' b = owner s b" by blast+
  then show "newCounter k s' = (a, s')" by (simp add: newCounter_hit)
qed

end
