(* ===== verification/Flush_Counters.thy ===== *)
theory Flush_Counters
  imports Counter_Ops
begin

text \<open>
  What the counter part of a flush does: which deltas reach the sink, which counters leave the map,
  and that no delta is lost on the way.
\<close>

section \<open>One counter\<close>

text \<open>The counter after the callback of \<open>Range\<close>, and whether the callback removes its entry.\<close>

definition expired :: "u32 \<Rightarrow> counter \<Rightarrow> bool" where
  "expired p c \<longleftrightarrow> pending c = 0 \<and> p \<noteq> 0 \<and> \<not> idleFlushes c + 1 < p"

definition flushed :: "u32 \<Rightarrow> counter \<Rightarrow> counter" where
  "flushed p c =
     (if pending c \<noteq> 0 then c\<lparr>lastSentValue := currentValue c, idleFlushes := 0, detached := 0\<rparr>
      else if p = 0 then c
      else if idleFlushes c + 1 < p then c\<lparr>idleFlushes := idleFlushes c + 1\<rparr>
      else c\<lparr>idleFlushes := idleFlushes c + 1, detached := 1\<rparr>)"

definition report :: "counter list \<Rightarrow> string \<times> nat \<Rightarrow> sink_call list" where
  "report h kv =
     (if pending (h ! snd kv) \<noteq> 0 then [FlushCounter (fst kv) (pending (h ! snd kv))] else [])"

lemma flushed_sel [simp]:
  "currentValue (flushed p c) = currentValue c" "counter_store (flushed p c) = counter_store c"
  "counter_name (flushed p c) = counter_name c" "pending (flushed p c) = 0"
  by (simp_all add: flushed_def pending_def)

lemma flushed_detached: "\<not> expired p c \<Longrightarrow> detached (flushed p c) = (if pending c \<noteq> 0 then 0 else detached c)"
  by (auto simp: flushed_def expired_def)

lemma flushed_expired: "expired p c \<Longrightarrow> detached (flushed p c) = 1"
  by (simp add: flushed_def expired_def)

lemma idleFlushes_inc:
  "idleFlushes_update (\<lambda>n. n + 1) c = c\<lparr>idleFlushes := idleFlushes c + 1\<rparr>"
  by (cases c) simp

text \<open>
  The second \<open>latch\<close> of the callback finds nothing when no write falls between the two, so the
  branch that reports and rejoins is not taken in a sequential run.
\<close>

lemma flush_counter_eq:
  assumes "a < length (counter_heap s)"
  shows "flush_counter (k, a) s = Some (s
    \<lparr>counters := (if expired (pruneAfterFlushes s) (counter_at s a) then smap_Delete (counters s) k
                  else counters s),
     counter_heap := (counter_heap s)[a := flushed (pruneAfterFlushes s) (counter_at s a)],
     sink_calls := sink_calls s @ report (counter_heap s) (k, a)\<rparr>)"
proof (cases "pending (counter_at s a) = 0")
  case False
  then show ?thesis using assms
    by (simp add: flush_counter_def counter_latch_eq Let_def upd_counter_def emit_def expired_def
        report_def flushed_def)
next
  case True
  then have same: "upd_counter a (\<lambda>c. c\<lparr>lastSentValue := currentValue c\<rparr>) s = s"
    by (intro upd_counter_id) (simp add: pending_def)
  show ?thesis
  proof (cases "expired (pruneAfterFlushes s) (counter_at s a)")
    case False
    with True assms same show ?thesis
      by (auto simp: flush_counter_def counter_latch_eq Let_def upd_counter_def expired_def
          report_def flushed_def idleFlushes_inc)
  next
    case exp: True
    with True assms same show ?thesis
      by (auto simp: flush_counter_def counter_latch_eq Let_def upd_counter_def expired_def
          report_def flushed_def pending_def idleFlushes_inc)
  qed
qed

section \<open>All counters\<close>

lemma report_update: "a \<noteq> snd kv \<Longrightarrow> report (h[a := c]) kv = report h kv"
  by (simp add: report_def)

lemma concat_report_update:
  "a \<notin> snd ` set kvs \<Longrightarrow> concat (map (report (h[a := c])) kvs) = concat (map (report h) kvs)"
  by (induction kvs) (auto simp: report_update)

definition expired_keys :: "u32 \<Rightarrow> counter list \<Rightarrow> (string \<times> nat) list \<Rightarrow> string set" where
  "expired_keys p h kvs = {k. \<exists>a. (k, a) \<in> set kvs \<and> expired p (h ! a)}"

lemma expired_keys_Cons:
  "a \<notin> snd ` set kvs \<Longrightarrow>
     expired_keys p h ((k, a) # kvs) =
       (if expired p (h ! a) then {k} else {}) \<union> expired_keys p (h[a := c]) kvs"
proof -
  assume "a \<notin> snd ` set kvs"
  then have "(l, b) \<in> set kvs \<Longrightarrow> h[a := c] ! b = h ! b" for l b
    by (metis image_eqI nth_list_update_neq snd_conv)
  then show ?thesis by (auto simp: expired_keys_def)
qed

theorem flush_counters_eq:
  assumes "distinct (map snd kvs)" and "\<forall>a \<in> snd ` set kvs. a < length (counter_heap s)"
  shows "flush_counters kvs s = Some (s
    \<lparr>counters := filter (\<lambda>e. fst e \<notin> expired_keys (pruneAfterFlushes s) (counter_heap s) kvs)
                   (counters s),
     counter_heap := map_at (snd ` set kvs) (flushed (pruneAfterFlushes s)) (counter_heap s),
     sink_calls := sink_calls s @ concat (map (report (counter_heap s)) kvs)\<rparr>)"
  using assms
proof (induction kvs arbitrary: s)
  case Nil
  then show ?case by (simp add: expired_keys_def)
next
  case (Cons kv kvs)
  obtain k a where kv: "kv = (k, a)" by (cases kv)
  have a: "a < length (counter_heap s)" "a \<notin> snd ` set kvs" using Cons.prems kv by auto
  let ?p = "pruneAfterFlushes s"
  let ?s = "s\<lparr>counters := (if expired ?p (counter_at s a) then smap_Delete (counters s) k
                  else counters s),
     counter_heap := (counter_heap s)[a := flushed ?p (counter_at s a)],
     sink_calls := sink_calls s @ report (counter_heap s) (k, a)\<rparr>"
  have "flush_counters (kv # kvs) s = flush_counters kvs ?s"
    unfolding kv flush_counters.simps flush_counter_eq [OF a(1)] option.case ..
  also note Cons.IH [of ?s]
  finally show ?case
    using Cons.prems a
    by (simp add: kv map_at_insert concat_report_update smap_Delete_def
        expired_keys_Cons [OF a(2), where c = "flushed ?p (counter_at s a)"])
qed

text \<open>The state after the counter part of a flush.\<close>

definition counters_flushed :: "statStore \<Rightarrow> statStore" where
  "counters_flushed s = s
    \<lparr>counters := filter (\<lambda>e. \<not> expired (pruneAfterFlushes s) (counter_at s (snd e))) (counters s),
     counter_heap := map_at (snd ` set (counters s)) (flushed (pruneAfterFlushes s)) (counter_heap s),
     sink_calls := sink_calls s @ concat (map (report (counter_heap s)) (counters s))\<rparr>"

lemma expired_keys_all:
  "smap_ok m \<Longrightarrow>
     filter (\<lambda>e. fst e \<notin> expired_keys p h m) m = filter (\<lambda>e. \<not> expired p (h ! snd e)) m"
  by (rule filter_cong) (auto simp: expired_keys_def smap_ok_def dest: eq_key_imp_eq_value)

lemma flush_counters_all:
  assumes "core_inv s"
  shows "flush_counters (counters s) s = Some (counters_flushed s)"
  using assms by (subst flush_counters_eq)
    (auto simp: core_invD counters_flushed_def expired_keys_all)

lemma counters_flushed_sel [simp]:
  "pruneAfterFlushes (counters_flushed s) = pruneAfterFlushes s"
  "gauges (counters_flushed s) = gauges s" "timers (counters_flushed s) = timers s"
  "gauge_heap (counters_flushed s) = gauge_heap s" "timer_heap (counters_flushed s) = timer_heap s"
  "statGenerators (counters_flushed s) = statGenerators s"
  "flushable (counters_flushed s) = flushable s"
  "length (counter_heap (counters_flushed s)) = length (counter_heap s)"
  by (simp_all add: counters_flushed_def)

lemma counters_flushed_at:
  "a < length (counter_heap s) \<Longrightarrow> counter_at (counters_flushed s) a =
     (if attached s a then flushed (pruneAfterFlushes s) (counter_at s a) else counter_at s a)"
  by (simp add: counters_flushed_def attached_def)

lemma attached_flushed:
  assumes "core_inv s"
  shows "attached (counters_flushed s) a \<longleftrightarrow>
           attached s a \<and> \<not> expired (pruneAfterFlushes s) (counter_at s a)"
  by (auto simp: attached_def counters_flushed_def)

lemma counters_inv_flushed:
  assumes "counters_inv s"
  shows "counters_inv (counters_flushed s)"
proof -
  have core: "core_inv s" using assms by (simp add: counters_inv_def)
  let ?t = "counters_flushed s"
  have ctrs: "counters ?t =
      filter (\<lambda>e. \<not> expired (pruneAfterFlushes s) (counter_at s (snd e))) (counters s)"
    by (simp add: counters_flushed_def)
  have "smap_ok (counters ?t)" "distinct (map snd (counters ?t))"
    using core_invD(1,2) [OF core] by (simp_all add: ctrs smap_ok_def distinct_map_filter)
  moreover have "\<forall>(k, a) \<in> set (counters ?t). a < length (counter_heap ?t) \<and>
        (pruneAfterFlushes ?t \<noteq> 0 \<longrightarrow> counter_name (counter_at ?t a) = k)"
    using core_invD(3,4) [OF core] by (auto simp: ctrs counters_flushed_at)
  moreover have "\<forall>a < length (counter_heap ?t).
        (counter_store (counter_at ?t a) \<longleftrightarrow> pruneAfterFlushes ?t \<noteq> 0) \<and>
        (attached ?t a \<or> pruneAfterFlushes ?t \<noteq> 0 \<and> detached (counter_at ?t a) \<noteq> 0)"
    using core_invD(5,6) [OF core]
    by (auto simp: counters_flushed_at attached_flushed [OF core] flushed_expired)
       (auto simp: expired_def)
  ultimately have "core_inv ?t" by (simp add: core_inv_def)
  moreover have "settled {} ?t" using assms
    by (auto simp: counters_inv_def settled_def counters_flushed_at attached_flushed [OF core])
  ultimately show ?thesis by (simp add: counters_inv_def)
qed

section \<open>Nothing is lost\<close>

lemma owner_flushed:
  assumes "core_inv s" and "counters_inv s" and "a < length (counter_heap s)"
  shows "owner (counters_flushed s) a = owner s a"
proof (cases "pruneAfterFlushes s = 0")
  case True
  then have "counters (counters_flushed s) = counters s"
    by (simp add: counters_flushed_def expired_def)
  with True show ?thesis by (simp add: owner_def)
next
  case False
  with assms show ?thesis by (simp add: owner_def counters_flushed_at)
qed

lemma delivered_reports:
  "delivered n (concat (map (report h) kvs)) =
     sum_list (map (\<lambda>(k, a). if k = n then pending (h ! a) else 0) kvs)"
  by (induction kvs) (auto simp: report_def)

lemma sum_counters:
  assumes "core_inv s"
  shows "sum_list (map (\<lambda>(k, a). if k = n then pending (counter_at s a) else 0) (counters s)) =
         (\<Sum>a \<in> snd ` set (counters s). if owner s a = n then pending (counter_at s a) else 0)"
proof -
  have "map (\<lambda>(k, a). if k = n then pending (counter_at s a) else 0) (counters s) =
        map (\<lambda>a. if owner s a = n then pending (counter_at s a) else 0) (map snd (counters s))"
    using owner_attached [OF assms] by auto
  then show ?thesis using core_invD(2) [OF assms]
    by (simp add: sum_list_distinct_conv_sum_set del: map_map)
qed

lemma all_pending_sent:
  assumes "counters_inv s" and "a < length (counter_heap s)"
  shows "pending (counter_at (counters_flushed s) a) = 0"
  using assms by (auto simp: counters_flushed_at counters_inv_def settled_def)

theorem account_flushed:
  assumes "counters_inv s"
  shows "account (counters_flushed s) n = account s n"
    and "delivered n (sink_calls (counters_flushed s)) = account s n"
proof -
  have core: "core_inv s" using assms by (simp add: counters_inv_def)
  have "(\<Sum>a \<in> snd ` set (counters s). if owner s a = n then pending (counter_at s a) else 0) =
        (\<Sum>a < length (counter_heap s). if owner s a = n then pending (counter_at s a) else 0)"
    using assms core_invD(3) [OF core]
    by (intro sum.mono_neutral_left) (auto simp: counters_inv_def settled_def attached_def)
  then show d: "delivered n (sink_calls (counters_flushed s)) = account s n"
    by (simp add: account_def counters_flushed_def delivered_reports sum_counters [OF core])
  show "account (counters_flushed s) n = account s n"
    unfolding account_def [of "counters_flushed s"] d
    by (simp add: all_pending_sent [OF assms] cong: if_cong)
qed

text \<open>What one flush reports: one call for each entry with a delta, none with the value zero.\<close>

lemma set_reports:
  "FlushCounter k v \<in> set (concat (map (report h) kvs)) \<longleftrightarrow>
     v \<noteq> 0 \<and> (\<exists>a. (k, a) \<in> set kvs \<and> pending (h ! a) = v)"
  by (force simp: report_def)

lemma reports_map:
  "concat (map (report h) kvs) =
     map (\<lambda>(k, a). FlushCounter k (pending (h ! a))) (filter (\<lambda>(k, a). pending (h ! a) \<noteq> 0) kvs)"
  by (induction kvs) (auto simp: report_def)

end
