(* ===== verification/Flush_Store.thy ===== *)
theory Flush_Store
  imports Flush_Counters
begin

text \<open>
  Timers, gauges and the whole of \<open>Flush\<close>: the state it leaves and the calls it makes, in order,
  and when an idle timer leaves the store.
\<close>

section \<open>Well-formed timers and gauges\<close>

definition timers_inv :: "statStore \<Rightarrow> bool" where
  "timers_inv s \<longleftrightarrow>
     smap_ok (timers s) \<and> distinct (map snd (timers s)) \<and>
     (\<forall>(k, a) \<in> set (timers s). a < length (timer_heap s) \<and> timer_name (timer_heap s ! a) = k)"

definition gauges_inv :: "statStore \<Rightarrow> bool" where
  "gauges_inv s \<longleftrightarrow>
     smap_ok (gauges s) \<and> distinct (map snd (gauges s)) \<and>
     (\<forall>(k, a) \<in> set (gauges s). a < length (gauge_heap s))"

definition store_inv :: "statStore \<Rightarrow> bool" where
  "store_inv s \<longleftrightarrow> counters_inv s \<and> timers_inv s \<and> gauges_inv s"

section \<open>Timers\<close>

definition timer_expired :: "u32 \<Rightarrow> timer \<Rightarrow> bool" where
  "timer_expired p t \<longleftrightarrow> active t = 0 \<and> p \<noteq> 0 \<and> \<not> timer_idleFlushes t + 1 < p"

definition timer_flushed :: "u32 \<Rightarrow> timer \<Rightarrow> timer" where
  "timer_flushed p t =
     (if active t \<noteq> 0 then t\<lparr>active := 0, timer_idleFlushes := 0\<rparr>
      else if p = 0 then t else t\<lparr>timer_idleFlushes := timer_idleFlushes t + 1\<rparr>)"

lemma timer_inactive: "active t = 0 \<Longrightarrow> t\<lparr>active := 0\<rparr> = t"
  by (cases t) simp

lemma timer_idle_inc: "timer_idleFlushes_update (\<lambda>n. n + 1) t = t\<lparr>timer_idleFlushes := timer_idleFlushes t + 1\<rparr>"
  by (cases t) simp

lemma flush_timer_eq:
  assumes "a < length (timer_heap s)"
  shows "flush_timer (k, a) s = s
    \<lparr>timers := (if timer_expired (pruneAfterFlushes s) (timer_heap s ! a)
                then smap_Delete (timers s) k else timers s),
     timer_heap := (timer_heap s)[a := timer_flushed (pruneAfterFlushes s) (timer_heap s ! a)]\<rparr>"
  using assms
  by (auto simp: flush_timer_def Let_def upd_timer_def timer_expired_def timer_flushed_def
      timer_inactive timer_idle_inc)

lemma timer_expired_keys_Cons:
  assumes "a \<notin> snd ` set kvs"
  shows "{l. \<exists>b. (l, b) \<in> set ((k, a) # kvs) \<and> timer_expired p (h ! b)} =
         (if timer_expired p (h ! a) then {k} else {}) \<union>
         {l. \<exists>b. (l, b) \<in> set kvs \<and> timer_expired p (h[a := c] ! b)}"
proof -
  have "(l, b) \<in> set kvs \<Longrightarrow> h[a := c] ! b = h ! b" for l b
    using assms by (metis image_eqI nth_list_update_neq snd_conv)
  then show ?thesis by auto
qed

lemma flush_timers_eq:
  assumes "distinct (map snd kvs)" and "\<forall>a \<in> snd ` set kvs. a < length (timer_heap s)"
  shows "fold flush_timer kvs s = s
    \<lparr>timers := filter (\<lambda>e. fst e \<notin>
        {k. \<exists>a. (k, a) \<in> set kvs \<and> timer_expired (pruneAfterFlushes s) (timer_heap s ! a)}) (timers s),
     timer_heap := map_at (snd ` set kvs) (timer_flushed (pruneAfterFlushes s)) (timer_heap s)\<rparr>"
  using assms
proof (induction kvs arbitrary: s)
  case (Cons kv kvs)
  obtain k a where kv: "kv = (k, a)" by (cases kv)
  have a: "a < length (timer_heap s)" "a \<notin> snd ` set kvs" using Cons.prems kv by auto
  let ?p = "pruneAfterFlushes s"
  note step = flush_timer_eq [OF a(1), of k]
  have "fold flush_timer (kv # kvs) s = fold flush_timer kvs (flush_timer (k, a) s)"
    by (simp add: kv)
  also note Cons.IH [of "flush_timer (k, a) s"]
  finally show ?case
    using Cons.prems a
    by (simp add: kv step map_at_insert smap_Delete_def
        timer_expired_keys_Cons [OF a(2), where c = "timer_flushed ?p (timer_heap s ! a)", simplified])
qed simp

definition timers_flushed :: "statStore \<Rightarrow> statStore" where
  "timers_flushed s = s
    \<lparr>timers := filter (\<lambda>e. \<not> timer_expired (pruneAfterFlushes s) (timer_heap s ! snd e)) (timers s),
     timer_heap := map_at (snd ` set (timers s)) (timer_flushed (pruneAfterFlushes s)) (timer_heap s)\<rparr>"

lemma flush_timers_all:
  assumes "timers_inv s"
  shows "fold flush_timer (timers s) s = timers_flushed s"
proof -
  have "filter (\<lambda>e. fst e \<notin> {k. \<exists>a. (k, a) \<in> set (timers s) \<and>
            timer_expired (pruneAfterFlushes s) (timer_heap s ! a)}) (timers s) =
        filter (\<lambda>e. \<not> timer_expired (pruneAfterFlushes s) (timer_heap s ! snd e)) (timers s)"
    using assms
    by (intro filter_cong) (auto simp: timers_inv_def smap_ok_def dest: eq_key_imp_eq_value)
  then show ?thesis using assms
    by (subst flush_timers_eq) (auto simp: timers_flushed_def timers_inv_def)
qed

lemma timer_flushed_name [simp]: "timer_name (timer_flushed p t) = timer_name t"
  by (simp add: timer_flushed_def)

lemma timers_inv_flushed: "timers_inv s \<Longrightarrow> timers_inv (timers_flushed s)"
  by (fastforce simp: timers_inv_def timers_flushed_def smap_ok_def distinct_map_filter)

section \<open>Gauges\<close>

lemma flush_gauges_eq:
  "fold flush_gauge kvs s =
     s\<lparr>sink_calls := sink_calls s @ map (\<lambda>(k, a). FlushGauge k (gauge_Value a s)) kvs\<rparr>"
  by (induction kvs arbitrary: s) (auto simp: flush_gauge_def emit_def gauge_Value_def)

section \<open>Flush\<close>

text \<open>The state \<open>s\<close> is the one the generators leave.\<close>

definition flush_result :: "statStore \<Rightarrow> statStore" where
  "flush_result s = (timers_flushed (counters_flushed s))
     \<lparr>sink_calls := sink_calls s
        @ concat (map (report (counter_heap s)) (counters s))
        @ map (\<lambda>(k, a). FlushGauge k (gauge_Value a s)) (gauges s)
        @ (if flushable s then [FlushSink] else [])\<rparr>"

theorem Flush_eq:
  assumes "store_inv (fold gen (statGenerators s) s)"
  shows "Flush gen s = Some (flush_result (fold gen (statGenerators s) s))"
proof -
  let ?s = "fold gen (statGenerators s) s"
  have inv: "core_inv ?s" "timers_inv (counters_flushed ?s)"
    using assms by (simp_all add: store_inv_def counters_inv_def timers_inv_def)
  have "timers (counters_flushed ?s) = timers ?s" by simp
  note t = flush_timers_all [OF inv(2), unfolded this]
  show ?thesis
    by (simp add: Flush_def flush_counters_all [OF inv(1)] t flush_gauges_eq emit_def
        flush_result_def Let_def)
       (simp add: timers_flushed_def counters_flushed_def gauge_Value_def)
qed

lemma flush_result_sel [simp]:
  "counters (flush_result s) = counters (counters_flushed s)"
  "counter_heap (flush_result s) = counter_heap (counters_flushed s)"
  "timers (flush_result s) = timers (timers_flushed s)"
  "timer_heap (flush_result s) = timer_heap (timers_flushed s)"
  "gauges (flush_result s) = gauges s" "gauge_heap (flush_result s) = gauge_heap s"
  "pruneAfterFlushes (flush_result s) = pruneAfterFlushes s"
  "statGenerators (flush_result s) = statGenerators s"
  "flushable (flush_result s) = flushable s"
  by (simp_all add: flush_result_def timers_flushed_def counters_flushed_def)

text \<open>The counter invariant and the balances read the counters and the calls on them only.\<close>

lemma counters_inv_cong:
  "counters s = counters t \<Longrightarrow> counter_heap s = counter_heap t \<Longrightarrow>
     pruneAfterFlushes s = pruneAfterFlushes t \<Longrightarrow> counters_inv s \<longleftrightarrow> counters_inv t"
  by (simp add: counters_inv_def core_inv_def settled_def attached_def)

lemma owner_cong:
  "counters s = counters t \<Longrightarrow> counter_heap s = counter_heap t \<Longrightarrow>
     pruneAfterFlushes s = pruneAfterFlushes t \<Longrightarrow> owner s = owner t"
  by (simp add: owner_def fun_eq_iff)

lemma account_cong:
  assumes "counters s = counters t" "counter_heap s = counter_heap t"
    and "pruneAfterFlushes s = pruneAfterFlushes t"
    and "delivered n (sink_calls s) = delivered n (sink_calls t)"
  shows "account s n = account t n"
  using assms owner_cong [OF assms(1-3)] by (simp add: account_def cong: if_cong)

lemma delivered_gauges: "delivered n (map (\<lambda>(k, a). FlushGauge k (g a)) kvs) = 0"
  by (induction kvs) auto

lemma delivered_flush_result:
  "delivered n (sink_calls (flush_result s)) = delivered n (sink_calls (counters_flushed s))"
  by (simp add: flush_result_def counters_flushed_def delivered_gauges)

lemma store_inv_flush:
  assumes "store_inv s"
  shows "store_inv (flush_result s)"
proof -
  have "counters_inv (flush_result s) \<longleftrightarrow> counters_inv (counters_flushed s)"
    by (rule counters_inv_cong) simp_all
  moreover have "timers_inv (flush_result s) \<longleftrightarrow> timers_inv (timers_flushed s)"
    by (simp add: timers_inv_def)
  ultimately show ?thesis using assms
    by (simp add: store_inv_def counters_inv_flushed timers_inv_flushed gauges_inv_def)
qed

lemma account_flush:
  assumes "counters_inv s"
  shows "account (flush_result s) n = account s n"
    and "delivered n (sink_calls (flush_result s)) = account s n"
    and "a < length (counter_heap s) \<Longrightarrow> pending (counter_at (flush_result s) a) = 0"
    and "a < length (counter_heap s) \<Longrightarrow> owner (flush_result s) a = owner s a"
proof -
  show "delivered n (sink_calls (flush_result s)) = account s n"
    by (simp add: delivered_flush_result account_flushed [OF assms])
  have "account (flush_result s) n = account (counters_flushed s) n"
    by (rule account_cong) (simp_all add: delivered_flush_result)
  then show "account (flush_result s) n = account s n" by (simp add: account_flushed [OF assms])
  show "pending (counter_at (flush_result s) a) = 0" if "a < length (counter_heap s)"
    using all_pending_sent [OF assms that] by simp
  have "owner (flush_result s) = owner (counters_flushed s)" by (rule owner_cong) simp_all
  then show "owner (flush_result s) a = owner s a" if "a < length (counter_heap s)"
    using assms that by (simp add: owner_flushed counters_inv_def)
qed

section \<open>Other operations keep the invariant\<close>

lemma store_inv_emit: "store_inv (emit c s) = store_inv s"
  by (simp add: store_inv_def counters_inv_def core_inv_def settled_def timers_inv_def gauges_inv_def)

lemma account_emit_other:
  "delivered n [c] = 0 \<Longrightarrow> account (emit c s) n = account s n"
  by (simp add: account_emit)

lemma upd_gauge_sel [simp]:
  "counters (upd_gauge a f s) = counters s" "gauges (upd_gauge a f s) = gauges s"
  "timers (upd_gauge a f s) = timers s" "counter_heap (upd_gauge a f s) = counter_heap s"
  "timer_heap (upd_gauge a f s) = timer_heap s" "sink_calls (upd_gauge a f s) = sink_calls s"
  "pruneAfterFlushes (upd_gauge a f s) = pruneAfterFlushes s"
  "length (gauge_heap (upd_gauge a f s)) = length (gauge_heap s)"
  by (simp_all add: upd_gauge_def)

lemma upd_timer_sel [simp]:
  "counters (upd_timer a f s) = counters s" "gauges (upd_timer a f s) = gauges s"
  "timers (upd_timer a f s) = timers s" "counter_heap (upd_timer a f s) = counter_heap s"
  "gauge_heap (upd_timer a f s) = gauge_heap s" "sink_calls (upd_timer a f s) = sink_calls s"
  "pruneAfterFlushes (upd_timer a f s) = pruneAfterFlushes s"
  "length (timer_heap (upd_timer a f s)) = length (timer_heap s)"
  by (simp_all add: upd_timer_def)

lemma store_inv_upd_gauge [inv_intros]: "store_inv s \<Longrightarrow> store_inv (upd_gauge a f s)"
  using counters_inv_cong [of "upd_gauge a f s" s]
  by (simp add: store_inv_def timers_inv_def gauges_inv_def)

lemma store_inv_upd_timer [inv_intros]:
  assumes "store_inv s" and "\<And>t. timer_name (f t) = timer_name t"
  shows "store_inv (upd_timer a f s)"
proof -
  have "timer_name ((timer_heap s)[a := f (timer_heap s ! a)] ! b) = timer_name (timer_heap s ! b)"
    if "b < length (timer_heap s)" for b
    using that assms(2) by (cases "a = b") auto
  then have "timers_inv (upd_timer a f s)" using assms(1)
    by (auto simp: store_inv_def timers_inv_def upd_timer_def)
  then show ?thesis using assms(1) counters_inv_cong [of "upd_timer a f s" s]
    by (simp add: store_inv_def gauges_inv_def)
qed

lemma account_upd_gauge [account_simps]: "account (upd_gauge a f s) n = account s n"
  by (rule account_cong) simp_all

lemma account_upd_timer [account_simps]: "account (upd_timer a f s) n = account s n"
  by (rule account_cong) simp_all

end
