(* ===== verification/Store_Run.thy ===== *)
theory Store_Run
  imports Flush_Store
begin

text \<open>
  Runs of a store: every sequence of calls a program can make on a store and on the metrics it has
  obtained from it.  A run records the metrics handed out and, for each counter name, the sum of
  what was written to the counters of that name; the invariants hold in every run.
\<close>

record client =
  written :: "string \<Rightarrow> u64"
  counter_refs :: "(string \<times> nat) set"
  gauge_refs :: "(string \<times> nat) set"
  timer_refs :: "(string \<times> nat) set"

definition no_refs :: client where
  "no_refs = \<lparr>written = (\<lambda>_. 0), counter_refs = {}, gauge_refs = {}, timer_refs = {}\<rparr>"

definition wrote :: "string \<Rightarrow> u64 \<Rightarrow> client \<Rightarrow> client" where
  "wrote k d w = w\<lparr>written := (written w)(k := written w k + d)\<rparr>"

text \<open>
  A flush starts from the state the generators leave, which is itself the state of a run: the
  generators call the same operations.  \<open>Range\<close> of a \<open>sync.Map\<close> visits the entries in no particular
  order: between two calls, a flush being one, the entries of each map may come to stand in any other.
\<close>

definition reordered :: "nat smap \<Rightarrow> nat smap \<Rightarrow> nat smap \<Rightarrow> statStore \<Rightarrow> statStore" where
  "reordered cs gs ts s = s\<lparr>counters := cs, gauges := gs, timers := ts\<rparr>"

definition same_entries :: "nat smap \<Rightarrow> nat smap \<Rightarrow> nat smap \<Rightarrow> statStore \<Rightarrow> bool" where
  "same_entries cs gs ts s \<longleftrightarrow>
     mset cs = mset (counters s) \<and> mset gs = mset (gauges s) \<and> mset ts = mset (timers s)"

inductive store_run :: "(nat \<Rightarrow> statStore \<Rightarrow> statStore) \<Rightarrow> client \<Rightarrow> statStore \<Rightarrow> bool"
  for gen where
  start: "store_run gen no_refs (empty_store p fl)"
| new_counter: "store_run gen w s \<Longrightarrow> newCounter k s = (a, s') \<Longrightarrow>
    store_run gen (w\<lparr>counter_refs := insert (k, a) (counter_refs w)\<rparr>) s'"
| add: "store_run gen w s \<Longrightarrow> (k, a) \<in> counter_refs w \<Longrightarrow> counter_Add a d s = Some s' \<Longrightarrow>
    store_run gen (wrote k d w) s'"
| inc: "store_run gen w s \<Longrightarrow> (k, a) \<in> counter_refs w \<Longrightarrow> counter_Inc a s = Some s' \<Longrightarrow>
    store_run gen (wrote k 1 w) s'"
| set: "store_run gen w s \<Longrightarrow> (k, a) \<in> counter_refs w \<Longrightarrow> counter_Set a v s = Some s' \<Longrightarrow>
    store_run gen (wrote k (v - counter_Value a s) w) s'"
| new_gauge: "store_run gen w s \<Longrightarrow> newGauge k s = (a, s') \<Longrightarrow>
    store_run gen (w\<lparr>gauge_refs := insert (k, a) (gauge_refs w)\<rparr>) s'"
| gauge_add: "store_run gen w s \<Longrightarrow> (k, a) \<in> gauge_refs w \<Longrightarrow> store_run gen w (gauge_Add a d s)"
| gauge_sub: "store_run gen w s \<Longrightarrow> (k, a) \<in> gauge_refs w \<Longrightarrow> store_run gen w (gauge_Sub a d s)"
| gauge_set: "store_run gen w s \<Longrightarrow> (k, a) \<in> gauge_refs w \<Longrightarrow> store_run gen w (gauge_Set a d s)"
| new_timer: "store_run gen w s \<Longrightarrow> b = Microsecond \<or> b = Millisecond \<Longrightarrow>
    newTimer k b s = (a, s') \<Longrightarrow>
    store_run gen (w\<lparr>timer_refs := insert (k, a) (timer_refs w)\<rparr>) s'"
| timer_value: "store_run gen w s \<Longrightarrow> (k, a) \<in> timer_refs w \<Longrightarrow>
    store_run gen w (timer_AddValue a x s)"
| timer_duration: "store_run gen w s \<Longrightarrow> (k, a) \<in> timer_refs w \<Longrightarrow>
    store_run gen w (timer_AddDuration a d s)"
| add_generator: "store_run gen w s \<Longrightarrow> store_run gen w (AddStatGenerator g s)"
| flush: "store_run gen w s \<Longrightarrow> store_run gen w' (fold gen (statGenerators s) s) \<Longrightarrow>
    Flush gen s = Some s' \<Longrightarrow> store_run gen w' s'"
| reorder: "store_run gen w s \<Longrightarrow> same_entries cs gs ts s \<Longrightarrow> store_run gen w (reordered cs gs ts s)"

section \<open>The constructors of gauges and timers\<close>

lemma newGauge_hit: "smap_Load (gauges s) k = Some a \<Longrightarrow> newGauge k s = (a, s)"
  by (simp add: newGauge_def)

lemma newGauge_miss:
  "smap_Load (gauges s) k = None \<Longrightarrow> newGauge k s = (length (gauge_heap s),
     s\<lparr>gauge_heap := gauge_heap s @ [zero_gauge],
       gauges := gauges s @ [(k, length (gauge_heap s))]\<rparr>)"
  by (simp add: newGauge_def smap_Load_def smap_LoadOrStore_def Let_def)

lemma newTimer_hit: "smap_Load (timers s) k = Some a \<Longrightarrow> newTimer k b s = (a, s)"
  by (simp add: newTimer_def)

lemma newTimer_miss:
  "smap_Load (timers s) k = None \<Longrightarrow> newTimer k b s = (length (timer_heap s),
     s\<lparr>timer_heap := timer_heap s @
         [\<lparr>base = b, timer_name = k, active = 0, timer_idleFlushes = 0\<rparr>],
       timers := timers s @ [(k, length (timer_heap s))]\<rparr>)"
  by (simp add: newTimer_def smap_Load_def smap_LoadOrStore_def Let_def)

lemma gauges_inv_append:
  assumes "gauges_inv s" and "smap_Load (gauges s) k = None"
  shows "gauges_inv (s\<lparr>gauge_heap := gauge_heap s @ [g],
           gauges := gauges s @ [(k, length (gauge_heap s))]\<rparr>)"
  using assms
  by (auto simp: gauges_inv_def smap_ok_def smap_Load_def map_of_eq_None_iff less_Suc_eq)

lemma timers_inv_append:
  assumes "timers_inv s" and "smap_Load (timers s) k = None" and "timer_name t = k"
  shows "timers_inv (s\<lparr>timer_heap := timer_heap s @ [t],
           timers := timers s @ [(k, length (timer_heap s))]\<rparr>)"
  using assms
  by (auto simp: timers_inv_def smap_ok_def smap_Load_def map_of_eq_None_iff less_Suc_eq nth_append)

lemma newGauge_inv:
  assumes "store_inv s" and "newGauge k s = (a, s')"
  shows "store_inv s'" and "account s' n = account s n" and "counters s' = counters s"
    and "counter_heap s' = counter_heap s" and "pruneAfterFlushes s' = pruneAfterFlushes s"
proof -
  have "counters s' = counters s \<and> counter_heap s' = counter_heap s \<and> timers s' = timers s \<and>
      timer_heap s' = timer_heap s \<and>
      pruneAfterFlushes s' = pruneAfterFlushes s \<and> sink_calls s' = sink_calls s \<and> gauges_inv s'"
    using assms gauges_inv_append [of s k zero_gauge]
    by (cases "smap_Load (gauges s) k") (auto simp: newGauge_hit newGauge_miss store_inv_def)
  note f = this
  then show "account s' n = account s n" by (intro account_cong) simp_all
  have "counters_inv s' \<longleftrightarrow> counters_inv s" using f by (intro counters_inv_cong) simp_all
  then show "store_inv s'" using assms(1) f by (simp add: store_inv_def timers_inv_def)
  show "counters s' = counters s" "counter_heap s' = counter_heap s"
    "pruneAfterFlushes s' = pruneAfterFlushes s" using f by simp_all
qed

lemma newTimer_inv:
  assumes "store_inv s" and "newTimer k b s = (a, s')"
  shows "store_inv s'" and "account s' n = account s n" and "counters s' = counters s"
    and "counter_heap s' = counter_heap s" and "pruneAfterFlushes s' = pruneAfterFlushes s"
proof -
  have "counters s' = counters s \<and> counter_heap s' = counter_heap s \<and> gauges s' = gauges s \<and>
      gauge_heap s' = gauge_heap s \<and>
      pruneAfterFlushes s' = pruneAfterFlushes s \<and> sink_calls s' = sink_calls s \<and> timers_inv s'"
    using assms timers_inv_append [of s k "\<lparr>base = b, timer_name = k, active = 0, timer_idleFlushes = 0\<rparr>"]
    by (cases "smap_Load (timers s) k") (auto simp: newTimer_hit newTimer_miss store_inv_def)
  note f = this
  then show "account s' n = account s n" by (intro account_cong) simp_all
  have "counters_inv s' \<longleftrightarrow> counters_inv s" using f by (intro counters_inv_cong) simp_all
  then show "store_inv s'" using assms(1) f by (simp add: store_inv_def gauges_inv_def)
  show "counters s' = counters s" "counter_heap s' = counter_heap s"
    "pruneAfterFlushes s' = pruneAfterFlushes s" using f by simp_all
qed

section \<open>The invariant of a run\<close>

definition run_inv :: "client \<Rightarrow> statStore \<Rightarrow> bool" where
  "run_inv w s \<longleftrightarrow>
     store_inv s \<and> (\<forall>n. account s n = written w n) \<and>
     (\<forall>(k, a) \<in> counter_refs w. a < length (counter_heap s) \<and> owner s a = k)"

lemma run_inv_same_counters:
  assumes "run_inv w s" and "store_inv s'" and "counters s' = counters s"
    and "counter_heap s' = counter_heap s" and "pruneAfterFlushes s' = pruneAfterFlushes s"
    and "\<And>n. account s' n = account s n" and "written w' = written w"
    and "counter_refs w' = counter_refs w"
  shows "run_inv w' s'"
  using assms owner_cong [OF assms(3-5)] by (auto simp: run_inv_def)

lemma rejoined_owner:
  assumes "core_inv s" and "a < length (counter_heap s)" and "b < length (counter_heap s)"
  shows "owner (rejoined a s) b = owner s b"
proof (cases "attached s a")
  case False
  then have "pruneAfterFlushes s \<noteq> 0" using core_invD(6) [OF assms(1,2)] by simp
  moreover have "counter_name (counter_at (rejoined a s) b) = counter_name (counter_at s b)"
    using assms(3) by (auto simp: rejoined_def upd_counter_at split: option.split)
  ultimately show ?thesis by (simp add: owner_def)
qed (simp add: rejoined_def)

lemma run_inv_write:
  assumes "run_inv w s" and "(k, a) \<in> counter_refs w"
    and "counter_store (f (counter_at s a)) = counter_store (counter_at s a)"
    and "counter_name (f (counter_at s a)) = counter_name (counter_at s a)"
    and "detached (f (counter_at s a)) = detached (counter_at s a)"
    and "d = pending (f (counter_at s a)) - pending (counter_at s a)"
  shows "run_inv (wrote k d w) (rejoined a (upd_counter a f s))"
proof -
  let ?s = "rejoined a (upd_counter a f s)"
  have inv: "counters_inv s" and a: "a < length (counter_heap s)" "owner s a = k"
    using assms(1,2) by (auto simp: run_inv_def store_inv_def)
  note w = write_counter [where f = f and a = a and s = s, OF inv a(1) assms(3-5)]
  have core: "core_inv (upd_counter a f s)"
    using inv assms(3-5) by (simp add: counters_inv_def core_inv_upd)
  have own: "owner ?s b = owner s b" if "b < length (counter_heap s)" for b
    using rejoined_owner [OF core, of a b] a(1) that owner_upd [of f s a, OF assms(4)] by simp
  have "store_inv ?s" using w(1) assms(1)
    by (simp add: store_inv_def run_inv_def timers_inv_def gauges_inv_def)
  then show ?thesis using assms(1,6) w(2) own a(2)
    by (auto simp: run_inv_def wrote_def)
qed

lemma run_inv_flush:
  assumes "run_inv w s"
  shows "run_inv w (flush_result s)"
proof -
  have "store_inv s" "counters_inv s" using assms by (simp_all add: run_inv_def store_inv_def)
  with assms show ?thesis
    by (auto simp: run_inv_def store_inv_flush account_flush)
qed

lemma account_timer_AddValue [account_simps]: "account (timer_AddValue a x s) n = account s n"
  by (simp add: timer_AddValue_def Let_def account_emit account_simps)

lemma store_inv_timer_AddValue [inv_intros]: "store_inv s \<Longrightarrow> store_inv (timer_AddValue a x s)"
  by (simp add: timer_AddValue_def Let_def store_inv_emit store_inv_upd_timer)

lemma timer_AddValue_sel [simp]:
  "counters (timer_AddValue a x s) = counters s"
  "counter_heap (timer_AddValue a x s) = counter_heap s"
  "pruneAfterFlushes (timer_AddValue a x s) = pruneAfterFlushes s"
  by (simp_all add: timer_AddValue_def Let_def)

lemma run_inv_start: "run_inv no_refs (empty_store p fl)"
  by (simp add: run_inv_def no_refs_def empty_store_def store_inv_def counters_inv_def core_inv_def
      settled_def timers_inv_def gauges_inv_def smap_ok_def account_def)

lemma run_inv_new_counter:
  assumes "run_inv w s" and "newCounter k s = (a, s')"
  shows "run_inv (w\<lparr>counter_refs := insert (k, a) (counter_refs w)\<rparr>) s'"
proof -
  have inv: "counters_inv s" using assms(1) by (simp add: run_inv_def store_inv_def)
  note n = newCounter_correct [OF inv assms(2)]
  have f: "timers s' = timers s" "timer_heap s' = timer_heap s" "gauges s' = gauges s"
    "gauge_heap s' = gauge_heap s" "length (counter_heap s) \<le> length (counter_heap s')"
    using assms(2)
    by (cases "smap_Load (counters s) k"; auto simp: newCounter_hit newCounter_miss)+
  then show ?thesis using assms(1) n
    by (force simp: run_inv_def store_inv_def timers_inv_def gauges_inv_def)
qed

text \<open>The order of the entries does not matter.\<close>

lemma reordered_sel [simp]:
  "counters (reordered cs gs ts s) = cs" "gauges (reordered cs gs ts s) = gs" "timers (reordered cs gs ts s) = ts"
  "counter_heap (reordered cs gs ts s) = counter_heap s" "gauge_heap (reordered cs gs ts s) = gauge_heap s"
  "timer_heap (reordered cs gs ts s) = timer_heap s" "pruneAfterFlushes (reordered cs gs ts s) = pruneAfterFlushes s"
  "sink_calls (reordered cs gs ts s) = sink_calls s" "statGenerators (reordered cs gs ts s) = statGenerators s"
  "flushable (reordered cs gs ts s) = flushable s"
  by (simp_all add: reordered_def)

lemma same_mset:
  assumes "mset m' = mset m"
  shows "set m' = set m" and "smap_ok m' = smap_ok m" and "distinct (map snd m') = distinct (map snd m)"
proof -
  show "set m' = set m" using assms by (rule mset_eq_setD)
  have "mset (map f m') = mset (map f m)" for f :: "_ \<Rightarrow> 'x" using assms by simp
  then show "smap_ok m' = smap_ok m" and "distinct (map snd m') = distinct (map snd m)"
    unfolding smap_ok_def by (metis mset_eq_imp_distinct_iff)+
qed

lemma same_Load:
  assumes "mset m' = mset m" and "smap_ok m"
  shows "smap_Load m' = smap_Load m"
  using map_of_mset_eq [OF assms(1) [symmetric]] assms(2) by (simp add: smap_Load_def smap_ok_def fun_eq_iff)

lemma reordered_core:
  assumes "core_inv s" and "same_entries cs gs ts s"
  shows "core_inv (reordered cs gs ts s)" and "attached (reordered cs gs ts s) = attached s"
    and "a < length (counter_heap s) \<Longrightarrow> owner (reordered cs gs ts s) a = owner s a"
proof -
  let ?t = "reordered cs gs ts s"
  note same = same_mset [OF assms(2) [unfolded same_entries_def, THEN conjunct1]]
  show att: "attached ?t = attached s" by (simp add: attached_def same(1) fun_eq_iff)
  show core: "core_inv ?t" using assms(1) unfolding core_inv_def att by (simp add: same)
  show "owner ?t a = owner s a" if "a < length (counter_heap s)"
  proof (cases "pruneAfterFlushes s = 0")
    case True
    then have "attached s a" using assms(1) that by (auto simp: core_inv_def)
    then obtain k where k: "(k, a) \<in> set (counters s)" by (auto simp: attached_def)
    then have "(k, a) \<in> set (counters ?t)" by (simp add: same(1))
    then show ?thesis using owner_attached [OF core] owner_attached [OF assms(1) k] by simp
  qed (simp add: owner_def)
qed

lemma store_inv_reordered:
  assumes "store_inv s" and "same_entries cs gs ts s"
  shows "store_inv (reordered cs gs ts s)"
proof -
  have m: "mset gs = mset (gauges s)" "mset ts = mset (timers s)" using assms(2) by (simp_all add: same_entries_def)
  have core: "core_inv s" "settled {} s" using assms(1) by (simp_all add: store_inv_def counters_inv_def)
  have "settled {} (reordered cs gs ts s)" using core(2) reordered_core(2) [OF core(1) assms(2)] by (simp add: settled_def)
  then show ?thesis using assms(1) reordered_core(1) [OF core(1) assms(2)] same_mset [OF m(1)] same_mset [OF m(2)]
    by (simp add: store_inv_def counters_inv_def timers_inv_def gauges_inv_def)
qed

lemma run_inv_reordered:
  assumes "run_inv w s" and "same_entries cs gs ts s"
  shows "run_inv w (reordered cs gs ts s)"
proof -
  have inv: "store_inv s" "core_inv s" using assms(1) by (simp_all add: run_inv_def store_inv_def counters_inv_def)
  note own = reordered_core(3) [OF inv(2) assms(2)]
  have "(\<Sum>a < length (counter_heap s). if owner (reordered cs gs ts s) a = n then pending (counter_at s a) else 0) =
      (\<Sum>a < length (counter_heap s). if owner s a = n then pending (counter_at s a) else 0)" for n
    by (rule sum.cong) (simp_all add: own)
  then have "account (reordered cs gs ts s) n = account s n" for n by (simp add: account_def cong: if_cong)
  then show ?thesis using assms(1) store_inv_reordered [OF inv(1) assms(2)] own
    by (auto simp: run_inv_def)
qed

theorem store_run_inv: "store_run gen w s \<Longrightarrow> run_inv w s"
proof (induction rule: store_run.induct)
  case (start p fl)
  show ?case by (rule run_inv_start)
next
  case (new_counter w s k a s')
  show ?case by (rule run_inv_new_counter) (use new_counter in auto)
next
  case (add w s k a d s')
  then have "a < length (counter_heap s)" "core_inv s"
    by (auto simp: run_inv_def store_inv_def counters_inv_def)
  with add run_inv_write [OF add(4,2), of "currentValue_update (\<lambda>v. v + d)" d]
  show ?case by (simp add: counter_Add_eq pending_def)
next
  case (inc w s k a s')
  then have "a < length (counter_heap s)" "core_inv s"
    by (auto simp: run_inv_def store_inv_def counters_inv_def)
  with inc run_inv_write [OF inc(4,2), of "currentValue_update (\<lambda>v. v + 1)" 1]
  show ?case by (simp add: counter_Add_eq pending_def counter_Inc_def)
next
  case (set w s k a v s')
  then have "a < length (counter_heap s)" "core_inv s"
    by (auto simp: run_inv_def store_inv_def counters_inv_def)
  with set run_inv_write [OF set(4,2), of "currentValue_update (\<lambda>_. v)" "v - counter_Value a s"]
  show ?case by (simp add: counter_Set_eq pending_def counter_Value_def)
next
  case (new_gauge w s k a s')
  then have "store_inv s" by (simp add: run_inv_def)
  from new_gauge(3) show ?case
    by (rule run_inv_same_counters) (simp_all add: newGauge_inv [OF \<open>store_inv s\<close> new_gauge(2)])
next
  case (new_timer w s b k a s')
  then have "store_inv s" by (simp add: run_inv_def)
  from new_timer(4) show ?case
    by (rule run_inv_same_counters) (simp_all add: newTimer_inv [OF \<open>store_inv s\<close> new_timer(3)])
next
  case (gauge_add w s k a d)
  from gauge_add(3) show ?case
    by (rule run_inv_same_counters)
       (use gauge_add(3) in \<open>simp_all add: gauge_Add_def run_inv_def store_inv_upd_gauge account_simps\<close>)
next
  case (gauge_sub w s k a d)
  from gauge_sub(3) show ?case
    by (rule run_inv_same_counters)
       (use gauge_sub(3) in \<open>simp_all add: gauge_Sub_def run_inv_def store_inv_upd_gauge account_simps\<close>)
next
  case (gauge_set w s k a d)
  from gauge_set(3) show ?case
    by (rule run_inv_same_counters)
       (use gauge_set(3) in \<open>simp_all add: gauge_Set_def run_inv_def store_inv_upd_gauge account_simps\<close>)
next
  case (timer_value w s k a x)
  from timer_value(3) show ?case
    by (rule run_inv_same_counters)
       (use timer_value(3) in \<open>simp_all add: run_inv_def store_inv_timer_AddValue account_simps\<close>)
next
  case (timer_duration w s k a d)
  from timer_duration(3) show ?case
    by (rule run_inv_same_counters)
       (use timer_duration(3) in \<open>simp_all add: timer_AddDuration_def run_inv_def
          store_inv_timer_AddValue account_simps\<close>)
next
  case (add_generator w s g)
  let ?s = "AddStatGenerator g s"
  have "store_inv ?s \<longleftrightarrow> store_inv s" using counters_inv_cong [of ?s s]
    by (simp add: store_inv_def AddStatGenerator_def timers_inv_def gauges_inv_def)
  moreover have "account ?s n = account s n" for n
    by (rule account_cong) (simp_all add: AddStatGenerator_def)
  ultimately show ?case using add_generator(2)
    by (intro run_inv_same_counters [OF add_generator(2)])
       (simp_all add: run_inv_def AddStatGenerator_def)
next
  case (flush w s w' s')
  then have "s' = flush_result (fold gen (statGenerators s) s)"
    by (simp add: Flush_eq run_inv_def)
  with flush(5) show ?case by (simp add: run_inv_flush)
next
  case (reorder w s cs gs ts)
  from reorder(3,2) show ?case by (rule run_inv_reordered)
qed

section \<open>Timers a program holds\<close>

definition timer_ref_ok :: "statStore \<Rightarrow> string \<Rightarrow> nat \<Rightarrow> bool" where
  "timer_ref_ok s k a \<longleftrightarrow> a < length (timer_heap s) \<and> timer_name (timer_heap s ! a) = k \<and>
     (base (timer_heap s ! a) = Microsecond \<or> base (timer_heap s ! a) = Millisecond)"

definition timers_ok :: "client \<Rightarrow> statStore \<Rightarrow> bool" where
  "timers_ok w s \<longleftrightarrow>
     (\<forall>(k, a) \<in> timer_refs w. timer_ref_ok s k a) \<and>
     (\<forall>(k, a) \<in> set (timers s). timer_ref_ok s k a)"

lemma timers_ok_cong:
  "timers_ok w s \<Longrightarrow> timers s' = timers s \<Longrightarrow> timer_heap s' = timer_heap s \<Longrightarrow>
     timer_refs w' = timer_refs w \<Longrightarrow> timers_ok w' s'"
  by (simp add: timers_ok_def timer_ref_ok_def)

lemma newCounter_timers:
  "newCounter k s = (a, s') \<Longrightarrow> timers s' = timers s \<and> timer_heap s' = timer_heap s"
  by (cases "smap_Load (counters s) k") (auto simp: newCounter_hit newCounter_miss)

lemma newGauge_timers:
  "newGauge k s = (a, s') \<Longrightarrow> timers s' = timers s \<and> timer_heap s' = timer_heap s"
  by (cases "smap_Load (gauges s) k") (auto simp: newGauge_hit newGauge_miss)

lemma timers_ok_newTimer:
  assumes "timers_ok w s" and "store_inv s" and "newTimer k b s = (a, s')"
    and "b = Microsecond \<or> b = Millisecond"
  shows "timers_ok (w\<lparr>timer_refs := insert (k, a) (timer_refs w)\<rparr>) s'"
proof (cases "smap_Load (timers s) k")
  case (Some c)
  then have "(k, c) \<in> set (timers s)" using assms(2)
    by (simp add: store_inv_def timers_inv_def smap_Load_def map_of_eq_Some_iff smap_ok_def)
  with Some assms show ?thesis by (auto simp: newTimer_hit timers_ok_def)
next
  case None
  with assms show ?thesis
    by (fastforce simp: newTimer_miss timers_ok_def timer_ref_ok_def nth_append)
qed

lemma timers_ok_upd:
  assumes "timers_ok w s" and "timers s' = timers s"
    and "timer_heap s' = (timer_heap s)[a := (timer_heap s ! a)\<lparr>active := v\<rparr>]"
  shows "timers_ok w s'"
proof -
  have "timer_name (timer_heap s' ! b) = timer_name (timer_heap s ! b) \<and>
        base (timer_heap s' ! b) = base (timer_heap s ! b)" if "b < length (timer_heap s)" for b
    using that assms(3) by (cases "a = b") auto
  then show ?thesis using assms by (auto simp: timers_ok_def timer_ref_ok_def)
qed

lemma timer_AddValue_timers:
  "timers (timer_AddValue a x s) = timers s"
  "timer_heap (timer_AddValue a x s) = (timer_heap s)[a := (timer_heap s ! a)\<lparr>active := 1\<rparr>]"
  by (simp_all add: timer_AddValue_def Let_def emit_def upd_timer_def)

lemma timer_flushed_base [simp]: "base (timer_flushed p t) = base t"
  by (simp add: timer_flushed_def)

lemma timer_ref_ok_flush: "timer_ref_ok s k a \<Longrightarrow> timer_ref_ok (flush_result s) k a"
  by (simp add: timer_ref_ok_def timers_flushed_def)

lemma timers_ok_flush: "timers_ok w s \<Longrightarrow> timers_ok w (flush_result s)"
proof -
  have "set (timers (flush_result s)) \<subseteq> set (timers s)" by (simp add: timers_flushed_def)
  then show "timers_ok w s \<Longrightarrow> timers_ok w (flush_result s)"
    unfolding timers_ok_def using timer_ref_ok_flush by blast
qed

lemma timers_ok_upd_gauge: "timers_ok w s \<Longrightarrow> timers_ok w (upd_gauge a f s)"
  by (rule timers_ok_cong) simp_all

lemma rejoined_timers:
  "timers (rejoined a (upd_counter a f s)) = timers s"
  "timer_heap (rejoined a (upd_counter a f s)) = timer_heap s"
  by simp_all

lemma write_timers:
  assumes "run_inv w s" and "(k, a) \<in> counter_refs w"
  shows "counter_Add a d s = Some s' \<Longrightarrow> timers s' = timers s \<and> timer_heap s' = timer_heap s"
    and "counter_Set a d s = Some s' \<Longrightarrow> timers s' = timers s \<and> timer_heap s' = timer_heap s"
proof -
  have "core_inv s" "a < length (counter_heap s)" using assms
    by (auto simp: run_inv_def store_inv_def counters_inv_def)
  then show "counter_Add a d s = Some s' \<Longrightarrow> timers s' = timers s \<and> timer_heap s' = timer_heap s"
    and "counter_Set a d s = Some s' \<Longrightarrow> timers s' = timers s \<and> timer_heap s' = timer_heap s"
    by (auto simp: counter_Add_eq counter_Set_eq)
qed

theorem store_run_timers: "store_run gen w s \<Longrightarrow> timers_ok w s"
proof (induction rule: store_run.induct)
  case (start p fl)
  show ?case by (simp add: timers_ok_def no_refs_def empty_store_def)
next
  case (new_counter w s k a s')
  from new_counter(3) show ?case
    by (rule timers_ok_cong) (simp_all add: newCounter_timers [OF new_counter(2)])
next
  case (add w s k a d s')
  from add(4) show ?case
    by (rule timers_ok_cong)
       (simp_all add: wrote_def write_timers(1) [OF store_run_inv [OF add(1)] add(2,3)])
next
  case (inc w s k a s')
  from inc(4) show ?case
    by (rule timers_ok_cong)
       (use inc(3) in \<open>simp_all add: wrote_def counter_Inc_def
          write_timers(1) [OF store_run_inv [OF inc(1)] inc(2)]\<close>)
next
  case (set w s k a v s')
  from set(4) show ?case
    by (rule timers_ok_cong)
       (simp_all add: wrote_def write_timers(2) [OF store_run_inv [OF set(1)] set(2,3)])
next
  case (new_gauge w s k a s')
  from new_gauge(3) show ?case
    by (rule timers_ok_cong) (simp_all add: newGauge_timers [OF new_gauge(2)])
next
  case (new_timer w s b k a s')
  then show ?case using store_run_inv [OF new_timer(1)] timers_ok_newTimer by (simp add: run_inv_def)
next
  case (timer_value w s k a x)
  from timer_value(3) show ?case by (rule timers_ok_upd) (simp_all add: timer_AddValue_timers)
next
  case (timer_duration w s k a d)
  from timer_duration(3) show ?case
    by (rule timers_ok_upd) (simp_all add: timer_AddDuration_def timer_AddValue_timers)
next
  case (add_generator w s g)
  from add_generator(2) show ?case by (rule timers_ok_cong) (simp_all add: AddStatGenerator_def)
next
  case (flush w s w' s')
  then have "store_inv (fold gen (statGenerators s) s)"
    using store_run_inv [OF flush(2)] by (simp add: run_inv_def)
  then have "s' = flush_result (fold gen (statGenerators s) s)" using flush(3) by (simp add: Flush_eq)
  with flush(5) show ?case by (simp add: timers_ok_flush)
next
  case (gauge_add w s k a d)
  then show ?case unfolding gauge_Add_def by (intro timers_ok_upd_gauge)
next
  case (gauge_sub w s k a d)
  then show ?case unfolding gauge_Sub_def by (intro timers_ok_upd_gauge)
next
  case (gauge_set w s k a d)
  then show ?case unfolding gauge_Set_def by (intro timers_ok_upd_gauge)
next
  case (reorder w s cs gs ts)
  then have "set ts = set (timers s)" using same_mset(1) by (auto simp: same_entries_def)
  with reorder(3) show ?case by (simp add: timers_ok_def timer_ref_ok_def)
qed

end
