(* ===== verification/Store_Props.thy ===== *)
theory Store_Props
  imports Store_Run
begin

text \<open>
  The properties of the store: what a program may rely on when it writes to metrics and flushes the
  store.  Each is instantiated on a run in which a counter is pruned, recreated under its name and
  written to through the old reference.
\<close>

section \<open>A run with pruning and forwarding\<close>

abbreviation ctr :: "u64 \<Rightarrow> u64 \<Rightarrow> u32 \<Rightarrow> u32 \<Rightarrow> counter" where
  "ctr cur sent idle det \<equiv>
     \<lparr>currentValue = cur, lastSentValue = sent, idleFlushes = idle, detached = det,
      counter_store = True, counter_name = ''a''\<rparr>"

abbreviation demo_state :: "nat smap \<Rightarrow> counter list \<Rightarrow> sink_call list \<Rightarrow> statStore" where
  "demo_state m h calls \<equiv>
     \<lparr>counters = m, gauges = [], timers = [], counter_heap = h, gauge_heap = [], timer_heap = [],
      statGenerators = [], pruneAfterFlushes = 1, flushable = True, sink_calls = calls\<rparr>"

abbreviation no_gen :: "nat \<Rightarrow> statStore \<Rightarrow> statStore" where
  "no_gen \<equiv> \<lambda>_ s. s"

definition demo_active :: statStore where
  "demo_active = demo_state [(''a'', 0)] [ctr 5 5 0 0] [FlushCounter ''a'' 5, FlushSink]"

definition demo_pruned :: statStore where
  "demo_pruned = demo_state [] [ctr 5 5 1 1] [FlushCounter ''a'' 5, FlushSink, FlushSink]"

definition demo_forwarded :: statStore where
  "demo_forwarded = demo_state [(''a'', 1)] [ctr 12 12 1 1, ctr 7 0 0 0]
     [FlushCounter ''a'' 5, FlushSink, FlushSink]"

lemma counter_Add_steps:
  "counter_Add a d s =
     counter_maybeRejoin (counter_Add_fuel (Suc 0)) a (upd_counter a (currentValue_update (\<lambda>v. v + d)) s)"
  by (simp add: counter_Add_def numeral_2_eq_2)

lemmas store_eval =
  newCounter_def empty_store_def smap_Load_def smap_LoadOrStore_def smap_Delete_def
  counter_Add_steps counter_Inc_def counter_maybeRejoin_def counter_rejoin_def upd_counter_def
  zero_counter_def counter_latch_def counter_Value_def emit_def Flush_def flush_counter_def
  Let_def

definition demo_client :: client where
  "demo_client = no_refs\<lparr>written := (\<lambda>_. 0)(''a'' := 5), counter_refs := {(''a'', 0)}\<rparr>"

lemma run_active: "store_run no_gen demo_client demo_active"
proof -
  let ?s1 = "demo_state [(''a'', 0)] [ctr 0 0 0 0] []"
  let ?s2 = "demo_state [(''a'', 0)] [ctr 5 0 0 0] []"
  let ?w1 = "no_refs\<lparr>counter_refs := insert (''a'', 0) (counter_refs no_refs)\<rparr>"
  have "store_run no_gen ?w1 ?s1"
    by (rule store_run.new_counter [OF store_run.start [of _ 1 True]]) (simp add: store_eval)
  then have "store_run no_gen (wrote ''a'' 5 ?w1) ?s2"
    by (rule store_run.add [where a = 0]) (simp_all add: store_eval)
  moreover have "wrote ''a'' 5 ?w1 = demo_client"
    by (simp add: wrote_def demo_client_def no_refs_def fun_eq_iff)
  ultimately have 2: "store_run no_gen demo_client ?s2" by simp
  then show ?thesis
    by (rule store_run.flush) (use 2 in \<open>simp_all add: store_eval demo_active_def\<close>)
qed

lemma run_pruned: "store_run no_gen demo_client demo_pruned"
  by (rule store_run.flush [OF run_active])
     (use run_active in \<open>simp_all add: store_eval demo_pruned_def demo_active_def\<close>)

lemma run_forwarded:
  "store_run no_gen (wrote ''a'' 7
     (demo_client\<lparr>counter_refs := insert (''a'', 1) (counter_refs demo_client)\<rparr>)) demo_forwarded"
proof -
  let ?s = "demo_state [(''a'', 1)] [ctr 5 5 1 1, ctr 0 0 0 0]
     [FlushCounter ''a'' 5, FlushSink, FlushSink]"
  have "store_run no_gen (demo_client\<lparr>counter_refs := insert (''a'', 1) (counter_refs demo_client)\<rparr>) ?s"
    by (rule store_run.new_counter [OF run_pruned]) (simp add: store_eval demo_pruned_def)
  then show ?thesis
    by (rule store_run.add [where a = 0])
       (simp_all add: demo_client_def demo_forwarded_def store_eval)
qed

section \<open>Nothing is lost\<close>

text \<open>
  C1: nothing is lost and nothing is counted twice.  In every run, whatever was pruned, recreated
  or forwarded in it, a flush succeeds, and after it the sum of the deltas the sink has received
  for a counter name is the sum of what was written to the counters of that name.
\<close>

theorem flush_delivers_everything:
  assumes "store_run gen w s" and "store_run gen w' (fold gen (statGenerators s) s)"
  shows "\<exists>s'. Flush gen s = Some s' \<and> (\<forall>k. delivered k (sink_calls s') = written w' k)"
proof -
  have "run_inv w' (fold gen (statGenerators s) s)" using assms(2) by (rule store_run_inv)
  then show ?thesis
    by (simp add: Flush_eq run_inv_def account_flush(2) store_inv_def)
qed

theorem flush_delivers_everything_witness:
  "\<exists>s'. Flush no_gen demo_forwarded = Some s' \<and> delivered ''a'' (sink_calls s') = 12"
proof -
  have "store_run no_gen (wrote ''a'' 7
     (demo_client\<lparr>counter_refs := insert (''a'', 1) (counter_refs demo_client)\<rparr>))
     (fold no_gen (statGenerators demo_forwarded) demo_forwarded)"
    using run_forwarded by (simp add: demo_forwarded_def)
  from flush_delivers_everything [OF run_forwarded this] show ?thesis
    by (auto simp: wrote_def demo_client_def)
qed

text \<open>
  C2: at every point of every run, what has been delivered for a name plus what the counters of
  that name still hold back is what was written to the name; a counter that holds something back
  is in the map, under its own name, so the next flush reaches it.
\<close>

theorem written_is_delivered_or_reachable:
  assumes "store_run gen w s"
  shows "delivered k (sink_calls s) +
           (\<Sum>a < length (counter_heap s). if owner s a = k then pending (counter_at s a) else 0) =
           written w k \<and>
         (\<forall>a < length (counter_heap s). pending (counter_at s a) \<noteq> 0 \<longrightarrow>
            smap_Load (counters s) (owner s a) = Some a)"
proof (intro conjI allI impI)
  have inv: "run_inv w s" using assms by (rule store_run_inv)
  then show "delivered k (sink_calls s) +
      (\<Sum>a < length (counter_heap s). if owner s a = k then pending (counter_at s a) else 0) =
      written w k"
    by (simp add: run_inv_def account_def)
  fix a assume a: "a < length (counter_heap s)" "pending (counter_at s a) \<noteq> 0"
  have core: "core_inv s" "settled {} s" using inv
    by (simp_all add: run_inv_def store_inv_def counters_inv_def)
  then have "attached s a" using a by (auto simp: settled_def)
  then obtain l where "(l, a) \<in> set (counters s)" by (auto simp: attached_def)
  then show "smap_Load (counters s) (owner s a) = Some a"
    using owner_attached [OF core(1)] by (simp add: core_inv_Load [OF core(1)])
qed

theorem written_is_delivered_or_reachable_witness:
  "delivered ''a'' (sink_calls demo_forwarded) +
     (\<Sum>a < length (counter_heap demo_forwarded).
        if owner demo_forwarded a = ''a'' then pending (counter_at demo_forwarded a) else 0) = 12"
  using written_is_delivered_or_reachable [OF run_forwarded, of "''a''"]
  by (simp add: wrote_def demo_client_def)

text \<open>
  C20: a write on any counter a program has ever obtained succeeds: the mutual recursion of \<open>Add\<close>
  and \<open>rejoin\<close> ends after at most one forwarding step, so any bound of at least two on its depth
  gives the same result, and that result is the one \<open>rejoined\<close> describes.
\<close>

theorem counter_Add_terminates:
  assumes "store_run gen w s" and "(k, a) \<in> counter_refs w"
  shows "\<forall>n. counter_Add_fuel (Suc (Suc n)) a d s =
           Some (rejoined a (upd_counter a (currentValue_update (\<lambda>v. v + d)) s))"
proof -
  have "core_inv s" "a < length (counter_heap s)"
    using store_run_inv [OF assms(1)] assms(2)
    by (auto simp: run_inv_def store_inv_def counters_inv_def)
  then show ?thesis by (simp only: Add_fuel_enough simp_thms)
qed

theorem counter_Add_terminates_witness:
  "counter_Add_fuel (Suc (Suc 0)) 0 9 demo_forwarded =
     Some (demo_state [(''a'', 1)] [ctr 21 21 1 1, ctr 16 0 0 0]
       [FlushCounter ''a'' 5, FlushSink, FlushSink])"
proof -
  have "(''a'', 0) \<in> counter_refs (wrote ''a'' 7
     (demo_client\<lparr>counter_refs := insert (''a'', 1) (counter_refs demo_client)\<rparr>))"
    by (simp add: wrote_def demo_client_def)
  from counter_Add_terminates [OF run_forwarded this, THEN spec, of 0 9] show ?thesis
    by (simp add: demo_forwarded_def rejoined_def attached_def smap_Load_def upd_counter_def
        pending_def)
qed

text \<open>
  C19: forwarding and rejoining do not show in what a reference reports: after \<open>Add\<close> and \<open>Set\<close>, the
  value of the counter they were called on is the sum, or the value, that was written, and the
  metrics of every other name keep their totals.
\<close>

theorem counter_write_visible:
  assumes "store_run gen w s" and "(k, a) \<in> counter_refs w"
  shows "(\<exists>s'. counter_Add a d s = Some s' \<and> counter_Value a s' = counter_Value a s + d \<and>
            (\<forall>l. account s' l = account s l + (if l = k then d else 0))) \<and>
         (\<exists>s'. counter_Set a v s = Some s' \<and> counter_Value a s' = v \<and>
            (\<forall>l. account s' l = account s l + (if l = k then v - counter_Value a s else 0)))"
proof -
  have inv: "counters_inv s" "core_inv s" "a < length (counter_heap s)" "owner s a = k"
    using store_run_inv [OF assms(1)] assms(2)
    by (auto simp: run_inv_def store_inv_def counters_inv_def)
  have core: "core_inv (upd_counter a (currentValue_update f) s)" for f
    using inv(2) by (rule core_inv_upd) simp_all
  have "currentValue (counter_at (rejoined a (upd_counter a (currentValue_update f) s)) a) =
      f (currentValue (counter_at s a))" for f
    using rejoined_value [OF core, of a f] inv(3) by (simp add: upd_counter_at)
  note val = this
  have "\<exists>s'. counter_Add a d s = Some s' \<and> counter_Value a s' = counter_Value a s + d \<and>
           (\<forall>l. account s' l = account s l + (if l = k then d else 0))"
    using counter_Add_correct [OF inv(1,3), of d] inv(4)
    by (auto simp: counter_Add_eq [OF inv(2,3)] counter_Value_def val)
  moreover have "\<exists>s'. counter_Set a v s = Some s' \<and> counter_Value a s' = v \<and>
           (\<forall>l. account s' l = account s l + (if l = k then v - counter_Value a s else 0))"
    using counter_Set_correct [OF inv(1,3), of v] inv(4)
    by (auto simp: counter_Set_eq [OF inv(2,3)] counter_Value_def val)
  ultimately show ?thesis by (rule conjI)
qed

theorem counter_write_visible_witness:
  "\<exists>s'. counter_Set 0 6 demo_pruned = Some s' \<and> counter_Value 0 s' = 6 \<and>
     account s' ''a'' = account demo_pruned ''a'' + 1"
proof -
  have "(''a'', 0) \<in> counter_refs demo_client" by (simp add: demo_client_def)
  from counter_write_visible [OF run_pruned this, of 0 6] show ?thesis
    by (auto simp: demo_pruned_def counter_Value_def)
qed

end
