(* ===== verification/Flush_Props.thy ===== *)
theory Flush_Props
  imports Store_Props
begin

text \<open>
  Properties of single flushes and of series of idle flushes, and of gauges and timers.
\<close>

section \<open>What one flush sends\<close>

text \<open>
  C9: the calls of a flush, in order: one \<open>FlushCounter\<close> for each counter of the map with a pending
  delta, none with the value zero and none twice for a name; one \<open>FlushGauge\<close> for every gauge with
  its current value; then \<open>Flush\<close> of the sink, if it has that method.
\<close>

theorem flush_calls:
  assumes "store_run gen w s" and "store_run gen w' t" and "t = fold gen (statGenerators s) s"
  defines "active_counters \<equiv> filter (\<lambda>(k, a). pending (counter_at t a) \<noteq> 0) (counters t)"
  shows "\<exists>s'. Flush gen s = Some s' \<and>
           sink_calls s' = sink_calls t
             @ map (\<lambda>(k, a). FlushCounter k (pending (counter_at t a))) active_counters
             @ map (\<lambda>(k, a). FlushGauge k (gauge_Value a t)) (gauges t)
             @ (if flushable t then [FlushSink] else []) \<and>
           distinct (map fst active_counters) \<and> distinct (map fst (gauges t))"
proof -
  have "store_inv t" using store_run_inv [OF assms(2)] by (simp add: run_inv_def)
  then show ?thesis
    by (auto simp: assms(3) [symmetric] Flush_eq [where s = s and gen = gen] flush_result_def reports_map
        active_counters_def store_inv_def counters_inv_def core_inv_def gauges_inv_def smap_ok_def
        distinct_map_filter)
qed

theorem flush_calls_witness:
  "\<exists>s'. Flush no_gen demo_forwarded = Some s' \<and>
     sink_calls s' = [FlushCounter ''a'' 5, FlushSink, FlushSink, FlushCounter ''a'' 7, FlushSink]"
proof -
  have "demo_forwarded = fold no_gen (statGenerators demo_forwarded) demo_forwarded"
    by (simp add: demo_forwarded_def)
  from flush_calls [OF run_forwarded run_forwarded this] show ?thesis
    by (auto simp: demo_forwarded_def pending_def)
qed

text \<open>
  C10: what a flush does to a counter of the map.  One with a pending delta stays, with its idle
  count and its detached mark cleared; an idle one stays while its count is below the limit, or
  pruning is off, and leaves the map, marked detached, when the count reaches the limit.  Either
  way nothing is pending afterwards and its value is what it was.
\<close>

theorem flush_counter_fate:
  assumes "store_run gen w s" and "store_run gen w' t" and "t = fold gen (statGenerators s) s"
    and "smap_Load (counters t) k = Some a" and "Flush gen s = Some s'"
  defines "c \<equiv> counter_at t a" and "c' \<equiv> counter_at s' a" and "p \<equiv> pruneAfterFlushes t"
  shows "currentValue c' = currentValue c \<and> pending c' = 0 \<and>
         (if pending c \<noteq> 0
          then smap_Load (counters s') k = Some a \<and> idleFlushes c' = 0 \<and> detached c' = 0
          else if p = 0 then smap_Load (counters s') k = Some a \<and> c' = c
          else idleFlushes c' = idleFlushes c + 1 \<and>
               (if idleFlushes c + 1 < p then smap_Load (counters s') k = Some a
                else smap_Load (counters s') k = None \<and> detached c' = 1))"
proof -
  have inv: "store_inv t" using store_run_inv [OF assms(2)] by (simp add: run_inv_def)
  then have core: "core_inv t" by (simp add: store_inv_def counters_inv_def)
  have s': "s' = flush_result t" using assms(3,5) inv by (simp add: Flush_eq)
  have ka: "(k, a) \<in> set (counters t)" using assms(4) core by (simp add: core_inv_Load)
  then have a: "a < length (counter_heap t)" "attached t a"
    using core by (force simp: attached_def dest: core_invD(3))+
  have c': "c' = flushed p c" using a by (simp add: s' c'_def c_def p_def counters_flushed_at)
  have "counters_inv (counters_flushed t)"
    using inv by (simp add: store_inv_def counters_inv_flushed)
  then have core': "core_inv (counters_flushed t)" by (simp add: counters_inv_def)
  have some: "smap_Load (counters s') k = Some a \<longleftrightarrow> \<not> expired p c"
    using ka unfolding s' flush_result_sel core_inv_Load [OF core'] c_def p_def
    by (simp add: counters_flushed_def)
  have none: "expired p c \<Longrightarrow> smap_Load (counters s') k = None"
    using core_invD(1) [OF core] ka
    by (auto simp: s' smap_Load_def counters_flushed_def map_of_eq_None_iff c_def p_def smap_ok_def
        dest: eq_key_imp_eq_value)
  show ?thesis using some none by (auto simp: c' flushed_def expired_def pending_def)
qed

theorem flush_counter_fate_witness:
  "\<exists>s'. Flush no_gen demo_forwarded = Some s' \<and>
     smap_Load (counters s') ''a'' = Some 1 \<and> pending (counter_at s' 1) = 0"
proof -
  let ?s = "demo_forwarded"
  have t: "?s = fold no_gen (statGenerators ?s) ?s" by (simp add: demo_forwarded_def)
  have "smap_Load (counters ?s) ''a'' = Some 1" by (simp add: demo_forwarded_def smap_Load_def)
  note fate = flush_counter_fate [OF run_forwarded run_forwarded t this]
  obtain s' where s': "Flush no_gen ?s = Some s'"
    by (simp add: demo_forwarded_def store_eval)
  have "pending (counter_at ?s 1) \<noteq> 0" by (simp add: demo_forwarded_def pending_def)
  with fate [OF s'] s' show ?thesis by auto
qed

section \<open>Idle flushes\<close>

primrec flush_times :: "nat \<Rightarrow> statStore \<Rightarrow> statStore option" where
  "flush_times 0 s = Some s"
| "flush_times (Suc n) s = Option.bind (flush_times n s) (Flush (\<lambda>_ s. s))"

lemma fold_no_gen: "fold (\<lambda>_ s. s) gs s = s"
  by (induction gs) simp_all

lemma Flush_no_gen: "store_inv s \<Longrightarrow> Flush (\<lambda>_ s. s) s = Some (flush_result s)"
  using Flush_eq [of "\<lambda>_ s. s" s] by (simp add: fold_no_gen)

lemma flush_times_Some:
  "store_inv s \<Longrightarrow> \<exists>s'. flush_times n s = Some s' \<and> store_inv s' \<and>
     pruneAfterFlushes s' = pruneAfterFlushes s \<and>
     length (counter_heap s') = length (counter_heap s)"
proof (induction n)
  case (Suc n)
  then obtain t where "flush_times n s = Some t" "store_inv t"
    "pruneAfterFlushes t = pruneAfterFlushes s" "length (counter_heap t) = length (counter_heap s)"
    by blast
  then show ?case by (simp add: Flush_no_gen store_inv_flush)
qed simp

lemma word_Suc_less:
  assumes "unat (x :: u32) + n < unat p"
  shows "x + of_nat n + 1 < p \<longleftrightarrow> unat x + Suc n < unat p"
proof -
  have "unat p < 2 ^ 32" using unsigned_less [of p, where 'a = nat] by simp
  then have "unat (x + of_nat n + 1) = unat x + Suc n"
    using assms unat_word_ariths(1) [of "x + of_nat n" 1] unat_word_ariths(1) [of x "of_nat n"]
    by (simp add: unat_of_nat)
  then show ?thesis by (simp add: word_less_nat_alt)
qed

text \<open>A counter of the map through a series of idle flushes.\<close>

definition idle_in :: "statStore \<Rightarrow> nat \<Rightarrow> nat \<Rightarrow> statStore \<Rightarrow> bool" where
  "idle_in s a n s' \<longleftrightarrow>
     pending (counter_at s' a) = 0 \<and>
     (attached s' a \<longleftrightarrow> pruneAfterFlushes s = 0 \<or> n = 0 \<or>
        unat (idleFlushes (counter_at s a)) + n < unat (pruneAfterFlushes s)) \<and>
     (attached s' a \<and> pruneAfterFlushes s \<noteq> 0 \<longrightarrow>
        idleFlushes (counter_at s' a) = idleFlushes (counter_at s a) + of_nat n)"

lemma idle_in_Suc:
  assumes "store_inv t" and "idle_in s a n t" and "a < length (counter_heap t)"
    and "pruneAfterFlushes t = pruneAfterFlushes s"
    and "unat (idleFlushes (counter_at s a)) < unat (pruneAfterFlushes s) \<or> pruneAfterFlushes s = 0"
  shows "idle_in s a (Suc n) (flush_result t)"
proof -
  let ?p = "pruneAfterFlushes s" and ?i = "idleFlushes (counter_at s a)"
  have core: "core_inv t" using assms(1) by (simp add: store_inv_def counters_inv_def)
  have at: "counter_at (counters_flushed t) a =
      (if attached t a then flushed ?p (counter_at t a) else counter_at t a)"
    using assms(3,4) by (simp add: counters_flushed_at)
  have att: "attached (flush_result t) a \<longleftrightarrow> attached t a \<and> \<not> expired ?p (counter_at t a)"
    using attached_flushed [OF core, of a] assms(4) by (simp add: attached_def)
  have pend: "pending (counter_at t a) = 0" using assms(2) by (simp add: idle_in_def)
  show ?thesis
  proof (cases "?p = 0")
    case True
    then show ?thesis using assms(2) pend by (simp add: idle_in_def at att expired_def)
  next
    case False
    show ?thesis
    proof (cases "unat ?i + n < unat ?p")
      case True
      then have t: "attached t a" "idleFlushes (counter_at t a) = ?i + of_nat n"
        using assms(2) False by (auto simp: idle_in_def)
      have "expired ?p (counter_at t a) \<longleftrightarrow> \<not> unat ?i + Suc n < unat ?p"
        using word_Suc_less [OF True] pend False t by (simp add: expired_def)
      then show ?thesis using t pend False
        by (auto simp: idle_in_def at att) (auto simp: flushed_def add_ac split: if_splits)
    next
      case over: False
      then have "n \<noteq> 0" using assms(5) False by auto
      then have "\<not> attached t a" using assms(2) over False by (simp add: idle_in_def)
      then show ?thesis using over pend False by (simp add: idle_in_def at att)
    qed
  qed
qed

lemma idle_flush_times:
  assumes "store_inv s" and "attached s a" and "pending (counter_at s a) = 0"
    and "unat (idleFlushes (counter_at s a)) < unat (pruneAfterFlushes s) \<or> pruneAfterFlushes s = 0"
  shows "\<exists>s'. flush_times n s = Some s' \<and> idle_in s a n s'"
proof (induction n)
  case 0
  show ?case using assms by (simp add: idle_in_def)
next
  case (Suc n)
  then obtain t where t: "flush_times n s = Some t" "idle_in s a n t" by blast
  with flush_times_Some [OF assms(1), of n] have "store_inv t"
    "pruneAfterFlushes t = pruneAfterFlushes s" "length (counter_heap t) = length (counter_heap s)"
    by auto
  moreover have "a < length (counter_heap s)"
    using assms(1,2) by (intro attached_in_range) (simp_all add: store_inv_def counters_inv_def)
  ultimately show ?case using t idle_in_Suc [OF _ t(2)] assms(4) by (simp add: Flush_no_gen)
qed

text \<open>
  C11: an idle counter leaves the map with the flush that makes its idle count reach the limit, no
  earlier and no later, and never when pruning is off.
\<close>

theorem pruned_after_exactly:
  assumes "store_run gen w s" and "smap_Load (counters s) k = Some a"
    and "pending (counter_at s a) = 0" and "pruneAfterFlushes s = p"
    and "unat (idleFlushes (counter_at s a)) < unat p \<or> p = 0"
  shows "\<exists>s'. flush_times n s = Some s' \<and>
           (attached s' a \<longleftrightarrow> p = 0 \<or> unat (idleFlushes (counter_at s a)) + n < unat p)"
proof -
  have inv: "store_inv s" using store_run_inv [OF assms(1)] by (simp add: run_inv_def)
  then have "core_inv s" by (simp add: store_inv_def counters_inv_def)
  then have "attached s a" using assms(2) by (force simp: core_inv_Load attached_def)
  then obtain s' where s': "flush_times n s = Some s'" "idle_in s a n s'"
    using idle_flush_times [OF inv _ assms(3)] assms(4,5) by metis
  from s'(2) have "attached s' a \<longleftrightarrow> p = 0 \<or> n = 0 \<or> unat (idleFlushes (counter_at s a)) + n < unat p"
    unfolding idle_in_def assms(4) by (rule conjunct1 [OF conjunct2])
  with s'(1) assms(5) show ?thesis by (cases "n = 0") auto
qed

theorem pruned_after_exactly_witness:
  "\<exists>s'. flush_times 1 demo_active = Some s' \<and> \<not> attached s' 0"
proof -
  have "smap_Load (counters demo_active) ''a'' = Some 0" "pending (counter_at demo_active 0) = 0"
    "pruneAfterFlushes demo_active = 1" "idleFlushes (counter_at demo_active 0) = 0"
    by (simp_all add: demo_active_def smap_Load_def pending_def)
  note pruned_after_exactly [OF run_active this(1-3), of 1, unfolded this(4)]
  then show ?thesis by (simp del: flush_times.simps)
qed

section \<open>Gauges\<close>

text \<open>
  The arithmetic of gauges, modulo \<open>2 ^ 64\<close>: the trick \<open>^(value - 1)\<close> of \<open>Sub\<close> subtracts, \<open>Dec\<close>
  undoes \<open>Inc\<close> and \<open>Sub\<close> undoes \<open>Add\<close>, and no operation on one gauge touches another or makes a
  call on the sink.
\<close>

theorem gauge_arithmetic:
  assumes "a < length (gauge_heap s)"
  shows "gauge_Value a (gauge_Add a v s) = gauge_Value a s + v \<and>
         gauge_Value a (gauge_Sub a v s) = gauge_Value a s - v \<and>
         gauge_Value a (gauge_Set a v s) = v \<and>
         gauge_Sub a v (gauge_Add a v s) = s \<and> gauge_Dec a (gauge_Inc a s) = s \<and>
         (\<forall>b. b \<noteq> a \<longrightarrow> gauge_Value b (gauge_Sub a v s) = gauge_Value b s) \<and>
         sink_calls (gauge_Sub a v s) = sink_calls s"
proof -
  have neg: "NOT (v - 1) = - v" for v :: u64 by (simp add: not_eq_complement)
  have [simp]: "gauge_value_update (\<lambda>x. x) g = g" for g by (cases g) simp
  show ?thesis using assms
    by (simp add: gauge_Add_def gauge_Sub_def gauge_Set_def gauge_Inc_def gauge_Dec_def
        gauge_Value_def upd_gauge_def neg o_def)
qed

theorem gauge_arithmetic_witness:
  "gauge_Value 0 (gauge_Sub 0 5 ((empty_store 0 True)\<lparr>gauge_heap := [\<lparr>gauge_value = 3\<rparr>]\<rparr>)) = - 2"
proof -
  let ?s = "(empty_store 0 True)\<lparr>gauge_heap := [\<lparr>gauge_value = 3\<rparr>]\<rparr>"
  have "0 < length (gauge_heap ?s)" by simp
  from gauge_arithmetic [OF this, of 5] show ?thesis by (simp add: gauge_Value_def)
qed

end
