(* ===== verification/Timer_Props.thy ===== *)
theory Timer_Props
  imports Flush_Props
begin

text \<open>Properties of timers and time spans.\<close>

lemma go_div_trunc:
  assumes "b > 0" and "\<bar>d\<bar> < 2 ^ 63"
  shows "go_div d b = sgn d * (\<bar>d\<bar> div b)"
proof -
  have "0 \<le> \<bar>d\<bar> div b" "\<bar>d\<bar> div b \<le> \<bar>d\<bar>"
    using assms(1) zdiv_mono2 [of "\<bar>d\<bar>" 1 b] by (simp_all add: pos_imp_zdiv_nonneg_iff)
  then have "is_int64 (sgn d * (\<bar>d\<bar> div b))" using assms(2)
    by (cases "d = 0"; cases "d > 0") (auto simp: sgn_if)
  then show ?thesis using assms(1) by (simp add: go_div_def)
qed

lemma trunc_div_bound:
  assumes "b > 0" and "\<bar>d\<bar> < m * b"
  shows "\<bar>sgn d * (\<bar>d\<bar> div b)\<bar> < (m :: int)"
proof -
  have "0 \<le> \<bar>d\<bar> div b" using assms(1) by (simp add: pos_imp_zdiv_nonneg_iff)
  moreover have "\<bar>d\<bar> div b < m"
  proof -
    have "\<bar>d\<bar> = (\<bar>d\<bar> div b) * b + \<bar>d\<bar> mod b" by simp
    moreover have "0 \<le> \<bar>d\<bar> mod b" using assms(1) by simp
    ultimately have "(\<bar>d\<bar> div b) * b < m * b" using assms(2) by linarith
    then show ?thesis using assms(1) by simp
  qed
  ultimately show ?thesis by (cases "d = 0"; cases "d > 0") (auto simp: sgn_if)
qed

text \<open>
  C39: a timer a program holds sends one call for each value, at once and under its own name, and
  in a duration's case the value is the number of whole units of the timer's base, truncated
  towards zero, exactly as long as it is below \<open>2 ^ 53\<close> units: every duration for a timer in
  milliseconds.
\<close>

theorem timer_sends_duration:
  assumes "store_run gen w s" and "(k, a) \<in> timer_refs w"
    and "\<bar>d\<bar> < 2 ^ 53 * base (timer_heap s ! a)" and "\<bar>d\<bar> < 2 ^ 63"
  shows "\<exists>x. sink_calls (timer_AddDuration a d s) = sink_calls s @ [FlushTimer k x] \<and>
           f64_val x = Some (of_int (sgn d * (\<bar>d\<bar> div base (timer_heap s ! a))))"
proof -
  have t: "timer_ref_ok s k a" using store_run_timers [OF assms(1)] assms(2)
    by (auto simp: timers_ok_def)
  then have b: "0 < base (timer_heap s ! a)"
    by (auto simp: timer_ref_ok_def Microsecond_def Millisecond_def)
  have "f64_val (f64_of_int (go_div d (base (timer_heap s ! a)))) =
      Some (of_int (sgn d * (\<bar>d\<bar> div base (timer_heap s ! a))))"
    unfolding go_div_trunc [OF b assms(4)] using b assms(3)
    by (intro f64_val_of_int trunc_div_bound)
  then show ?thesis using t
    by (simp add: timer_AddDuration_def timer_AddValue_def Let_def upd_timer_def timer_ref_ok_def)
qed

definition demo_timer :: statStore where
  "demo_timer = (empty_store 1 True)\<lparr>timers := [(''t'', 0)],
     timer_heap := [\<lparr>base = Millisecond, timer_name = ''t'', active = 0, timer_idleFlushes = 0\<rparr>]\<rparr>"

definition demo_timer_client :: client where
  "demo_timer_client = no_refs\<lparr>timer_refs := {(''t'', 0)}\<rparr>"

lemma run_timer: "store_run no_gen demo_timer_client demo_timer"
proof -
  have "newTimer ''t'' Millisecond (empty_store 1 True) = (0, demo_timer)"
    by (simp add: newTimer_def empty_store_def demo_timer_def smap_Load_def smap_LoadOrStore_def)
  from store_run.new_timer [OF store_run.start disjI2 [OF refl] this] show ?thesis
    by (simp add: demo_timer_client_def no_refs_def)
qed

theorem timer_sends_duration_witness:
  "\<exists>x. sink_calls (timer_AddDuration 0 (- 2500000) demo_timer) = [FlushTimer ''t'' x] \<and>
     f64_val x = Some (- 2)"
proof -
  have ref: "(''t'', 0) \<in> timer_refs demo_timer_client" by (simp add: demo_timer_client_def)
  have d: "\<bar>- 2500000\<bar> < 2 ^ 53 * base (timer_heap demo_timer ! 0)" "\<bar>- 2500000 :: int\<bar> < 2 ^ 63"
    by (simp_all add: demo_timer_def Millisecond_def)
  from timer_sends_duration [OF run_timer ref d] show ?thesis
    by (auto simp: demo_timer_def Millisecond_def empty_store_def)
qed

text \<open>
  A time span reports the time between its start and its completion to its timer, and returns it.
\<close>

theorem timespan_complete:
  assumes "start \<le> now" and "now - start < 2 ^ 63"
  shows "timespan_Complete (timer_AllocateSpan a start) now s =
           (now - start, timer_AddDuration a (now - start) s) \<and>
         timespan_CompleteWithDuration (timer_AllocateSpan a start) d s = timer_AddDuration a d s"
  using assms
  by (simp add: timespan_Complete_def timer_AllocateSpan_def time_Since_def timer_time_def
      timespan_CompleteWithDuration_def Let_def)

theorem timespan_complete_witness:
  "fst (timespan_Complete (timer_AllocateSpan 0 5) 9 demo_timer) = 4"
  using timespan_complete [of 5 9 0 demo_timer] by simp

text \<open>
  C21: what a flush does to a timer of the map: used since the last flush, it stays with its idle
  count cleared; idle, it stays while its count is below the limit or pruning is off, and leaves
  otherwise.  Its use mark is cleared, and no gauge is ever removed or changed.
\<close>

theorem flush_timer_fate:
  assumes "store_run gen w s" and "store_run gen w' t" and "t = fold gen (statGenerators s) s"
    and "smap_Load (timers t) k = Some a" and "Flush gen s = Some s'"
  defines "c \<equiv> timer_heap t ! a" and "c' \<equiv> timer_heap s' ! a" and "p \<equiv> pruneAfterFlushes t"
  shows "active c' = 0 \<and>
         smap_Load (timers s') k =
           (if active c = 0 \<and> p \<noteq> 0 \<and> \<not> timer_idleFlushes c + 1 < p then None else Some a) \<and>
         timer_idleFlushes c' =
           (if active c \<noteq> 0 then 0 else if p = 0 then timer_idleFlushes c
            else timer_idleFlushes c + 1) \<and>
         gauges s' = gauges t \<and> gauge_heap s' = gauge_heap t"
proof -
  have inv: "store_inv t" using store_run_inv [OF assms(2)] by (simp add: run_inv_def)
  then have tinv: "timers_inv t" by (simp add: store_inv_def)
  have s': "s' = flush_result t" using assms(3,5) inv by (simp add: Flush_eq)
  have ka: "(k, a) \<in> set (timers t)" using assms(4) by (simp add: smap_Load_def map_of_SomeD)
  then have a: "a < length (timer_heap t)" "a \<in> snd ` set (timers t)" using tinv
    by (force simp: timers_inv_def)+
  have c': "c' = timer_flushed p c" using a by (simp add: s' c'_def c_def p_def timers_flushed_def)
  have dist: "distinct (map fst (timers t))" using tinv by (simp add: timers_inv_def smap_ok_def)
  have "smap_Load (timers s') k = (if timer_expired p c then None else Some a)"
    using ka dist
    by (auto simp: s' smap_Load_def timers_flushed_def c_def p_def map_of_eq_None_iff
        distinct_map_filter dest: eq_key_imp_eq_value)
  then show ?thesis by (auto simp: c' timer_flushed_def timer_expired_def s')
qed

theorem flush_timer_fate_witness:
  "\<exists>s'. Flush no_gen demo_timer = Some s' \<and> smap_Load (timers s') ''t'' = None"
proof -
  have t: "demo_timer = fold no_gen (statGenerators demo_timer) demo_timer"
    by (simp add: demo_timer_def empty_store_def)
  have k: "smap_Load (timers demo_timer) ''t'' = Some 0"
    by (simp add: demo_timer_def smap_Load_def)
  obtain s' where s': "Flush no_gen demo_timer = Some s'"
    using Flush_eq [of no_gen demo_timer] store_run_inv [OF run_timer] t
    by (auto simp: run_inv_def fold_no_gen)
  from flush_timer_fate [OF run_timer run_timer t k s'] s' show ?thesis
    by (auto simp: demo_timer_def empty_store_def)
qed

text \<open>
  C40: a pruned timer that is written to again keeps reporting under its name, but the write does
  not enter it in the store again: a later request for the name makes a second timer.
\<close>

theorem pruned_timer_not_reattached:
  assumes "store_run gen w s" and "(k, a) \<in> timer_refs w" and "smap_Load (timers s) k = None"
  shows "sink_calls (timer_AddValue a x s) = sink_calls s @ [FlushTimer k x] \<and>
         smap_Load (timers (timer_AddValue a x s)) k = None \<and>
         fst (newTimer k b (timer_AddValue a x s)) \<noteq> a"
proof -
  have t: "timer_ref_ok s k a" using store_run_timers [OF assms(1)] assms(2)
    by (auto simp: timers_ok_def)
  then have none: "smap_Load (timers (timer_AddValue a x s)) k = None"
    using assms(3) by (simp add: timer_AddValue_timers)
  then show ?thesis using t
    by (simp add: newTimer_miss timer_AddValue_def Let_def upd_timer_def timer_ref_ok_def)
qed

theorem pruned_timer_not_reattached_witness:
  "\<exists>s'. Flush no_gen demo_timer = Some s' \<and>
     smap_Load (timers (timer_AddValue 0 7 s')) ''t'' = None"
proof -
  have gens: "fold no_gen (statGenerators demo_timer) demo_timer = demo_timer"
    by (rule fold_no_gen)
  obtain s' where s': "Flush no_gen demo_timer = Some s'" "smap_Load (timers s') ''t'' = None"
  proof -
    have "Flush no_gen demo_timer = Some (demo_timer\<lparr>timers := [],
        timer_heap := [\<lparr>base = Millisecond, timer_name = ''t'', active = 0, timer_idleFlushes = 1\<rparr>],
        sink_calls := [FlushSink]\<rparr>)"
      by (simp add: Flush_def demo_timer_def empty_store_def flush_timer_def upd_timer_def emit_def
          smap_Delete_def Let_def)
    then show ?thesis by (rule that) (simp add: smap_Load_def)
  qed
  have "store_run no_gen demo_timer_client s'"
    using run_timer s'(1) by (intro store_run.flush [OF run_timer _ s'(1)]) (simp add: gens)
  moreover have "(''t'', 0) \<in> timer_refs demo_timer_client" by (simp add: demo_timer_client_def)
  ultimately show ?thesis using pruned_timer_not_reattached s' by blast
qed

end
