(* ===== verification/Float_Add.thy ===== *)
theory Float_Add
  imports Float64
begin

text \<open>
  Addition of \<open>float64\<close> values, rounded to nearest, ties to even.  Every finite value is a whole
  number of units of \<open>2 ^ - 1074\<close>, so the exact sum is an integer sum, which is then rounded.  The
  result for a NaN is one fixed NaN: which one Go produces depends on the machine.
\<close>

definition f64_nan :: float64 where
  "f64_nan = of_nat (2047 * 2 ^ 52 + 2 ^ 51 + 1)"

definition f64_is_nan :: "float64 \<Rightarrow> bool" where
  "f64_is_nan w \<longleftrightarrow> f64_exp w = 2047 \<and> f64_frac w \<noteq> 0"

definition f64_is_inf :: "float64 \<Rightarrow> bool" where
  "f64_is_inf w \<longleftrightarrow> f64_exp w = 2047 \<and> f64_frac w = 0"

text \<open>The units of a finite value, and the value nearest to a number of units.\<close>

definition f64_units :: "float64 \<Rightarrow> nat" where
  "f64_units w =
     (if f64_exp w = 0 then f64_frac w else (2 ^ 52 + f64_frac w) * 2 ^ (f64_exp w - 1))"

definition f64_signed_units :: "float64 \<Rightarrow> int" where
  "f64_signed_units w = (if f64_sign w then - int (f64_units w) else int (f64_units w))"

definition f64_round :: "nat \<Rightarrow> nat" where
  "f64_round k =
     (if k < 2 ^ 53 then k
      else let s = bit_length k - 53 in min (s * 2 ^ 52 + round_half_even k s) (2047 * 2 ^ 52))"

definition f64_pack :: "bool \<Rightarrow> nat \<Rightarrow> float64" where
  "f64_pack neg k = of_nat ((if neg then 2 ^ 63 else 0) + f64_round k)"

definition f64_add :: "float64 \<Rightarrow> float64 \<Rightarrow> float64" where
  "f64_add x y =
     (if f64_is_nan x \<or> f64_is_nan y then f64_nan
      else if f64_is_inf x
      then (if f64_is_inf y \<and> f64_sign x \<noteq> f64_sign y then f64_nan else x)
      else if f64_is_inf y then y
      else let i = f64_signed_units x + f64_signed_units y in
           if i = 0 then f64_pack (f64_sign x \<and> f64_sign y) 0
           else f64_pack (i < 0) (nat \<bar>i\<bar>))"

text \<open>Go's comparison: a NaN equals nothing, and the two zeros are equal.\<close>

definition f64_eq :: "float64 \<Rightarrow> float64 \<Rightarrow> bool" where
  "f64_eq x y \<longleftrightarrow>
     \<not> f64_is_nan x \<and> \<not> f64_is_nan y \<and>
     (x = y \<or> \<not> f64_is_inf x \<and> \<not> f64_is_inf y \<and> f64_signed_units x = f64_signed_units y)"

section \<open>Exact on integers\<close>

lemma bit_length_unique: "2 ^ k \<le> n \<Longrightarrow> n < 2 ^ Suc k \<Longrightarrow> bit_length n = Suc k"
proof -
  assume n: "2 ^ k \<le> n" "n < 2 ^ Suc k"
  then have "n > 0" by (metis gr_zeroI not_exp_less_eq_0_int power_not_zero le_zero_eq zero_neq_numeral)
  note b = bit_length_bounds [OF this] bit_length_pos [OF this]
  have "bit_length n \<le> Suc k" using n(2) by (rule bit_length_le)
  moreover have "(2::nat) ^ k < 2 ^ bit_length n" using n(1) b(1) by linarith
  then have "k < bit_length n" by simp
  ultimately show ?thesis by simp
qed

lemma bit_length_shift: "n > 0 \<Longrightarrow> bit_length (n * 2 ^ m) = bit_length n + m"
proof -
  assume n: "n > 0"
  obtain k where k: "bit_length n = Suc k" using bit_length_pos [OF n] by (cases "bit_length n") auto
  have "2 ^ k \<le> n" "n < 2 ^ Suc k" using bit_length_bounds [OF n] k by simp_all
  then have "2 ^ (k + m) \<le> n * 2 ^ m" "n * 2 ^ m < 2 ^ Suc (k + m)"
    by (simp_all add: power_add)
  then show ?thesis using bit_length_unique k by simp
qed

lemma round_half_even_exact: "round_half_even (q * 2 ^ s) s = q"
  by (simp add: round_half_even_def Let_def)

lemma f64_round_of_nat:
  assumes "n < 2 ^ 53"
  shows "f64_round (n * 2 ^ 1074) = f64_of_nat n"
proof (cases "n = 0")
  case True
  then show ?thesis by (simp add: f64_round_def f64_of_nat_def)
next
  case False
  then have n: "0 < n" by simp
  note f = f64_of_nat_fields [OF n assms]
  let ?L = "bit_length n" and ?k = "n * 2 ^ 1074"
  have big: "\<not> ?k < 2 ^ 53"
  proof -
    have "(2::nat) ^ 53 \<le> 1 * 2 ^ 1074" by simp
    also have "\<dots> \<le> ?k" using n by (intro mult_right_mono) auto
    finally show ?thesis by simp
  qed
  have s: "bit_length ?k - 53 = ?L + 1021" using bit_length_shift [OF n, of 1074] by simp
  have "(53 - ?L) + (?L + 1021) = 1074" using f(4) by simp
  then have "?k = n * 2 ^ (53 - ?L) * 2 ^ (?L + 1021)"
    by (simp only: mult.assoc power_add [symmetric])
  then have r: "round_half_even ?k (?L + 1021) = n * 2 ^ (53 - ?L)"
    by (simp only: round_half_even_exact)
  have "f64_of_nat n = (?L + 1021) * 2 ^ 52 + n * 2 ^ (53 - ?L)"
    using n f(4) by (simp add: f64_of_nat_def Let_def)
  moreover have "(?L + 1021) * 2 ^ 52 + n * 2 ^ (53 - ?L) \<le> 2047 * 2 ^ 52" using f(3,4) by simp
  ultimately show ?thesis using big unfolding f64_round_def s Let_def r by simp
qed

lemma f64_of_int_fields:
  assumes "\<bar>i\<bar> < 2 ^ 53"
  shows "\<not> f64_is_nan (f64_of_int i)" and "\<not> f64_is_inf (f64_of_int i)"
    and "f64_sign (f64_of_int i) \<longleftrightarrow> i < 0" and "f64_signed_units (f64_of_int i) = i * 2 ^ 1074"
proof -
  define n where "n = nat \<bar>i\<bar>"
  define s where "s = (if i < 0 then 1 else 0 :: nat)"
  have n: "n < 2 ^ 53" using assms by (simp add: n_def)
  have fields: "f64_exp (f64_of_int i) < 2047 \<and> (f64_sign (f64_of_int i) \<longleftrightarrow> s = 1) \<and>
      f64_units (f64_of_int i) = n * 2 ^ 1074"
  proof (cases "n = 0")
    case True
    then have "i = 0" by (simp add: n_def)
    then show ?thesis
      by (simp add: f64_of_int_def f64_of_nat_def f64_exp_def f64_sign_def f64_units_def f64_frac_def
          s_def n_def)
  next
    case False
    then have n': "0 < n" by simp
    note f = f64_of_nat_fields [OF n' n]
    let ?L = "bit_length n"
    let ?m = "n * 2 ^ (53 - ?L) - 2 ^ 52"
    have w: "f64_of_int i = of_nat (s * 2 ^ 63 + (?L + 1022) * 2 ^ 52 + ?m)"
    proof (cases "i < 0")
      case True
      then have "f64_of_int i = of_nat (2 ^ 63 + f64_of_nat n)" by (simp add: f64_of_int_def n_def)
      then show ?thesis using True unfolding f(1) by (simp only: s_def if_True mult_1 add.assoc)
    next
      case False
      then have "f64_of_int i = of_nat (f64_of_nat n)" by (simp add: f64_of_int_def n_def)
      then show ?thesis using False unfolding f(1) by (simp only: s_def if_False mult_0 add_0)
    qed
    have "?L + 1022 < 2047" "?m < 2 ^ 52" "s < 2" using f by (auto simp: s_def)
    note fl = f64_fields [OF this, folded w]
    have "2 ^ 52 + ?m = n * 2 ^ (53 - ?L)" using f(2) by simp
    moreover have "(53 - ?L) + (?L + 1022 - 1) = 1074" using f(4) by simp
    ultimately have "f64_units (f64_of_int i) = n * 2 ^ 1074"
      unfolding f64_units_def fl by (simp add: mult.assoc flip: power_add)
    then show ?thesis using fl f(4) by simp
  qed
  then show "\<not> f64_is_nan (f64_of_int i)" "\<not> f64_is_inf (f64_of_int i)"
    by (auto simp: f64_is_nan_def f64_is_inf_def)
  show "f64_sign (f64_of_int i) \<longleftrightarrow> i < 0" using fields by (simp add: s_def)
  show "f64_signed_units (f64_of_int i) = i * 2 ^ 1074"
    using fields by (auto simp: f64_signed_units_def s_def n_def)
qed

theorem f64_add_of_int:
  assumes "\<bar>i\<bar> < 2 ^ 53" and "\<bar>j\<bar> < 2 ^ 53" and "\<bar>i + j\<bar> < 2 ^ 53"
  shows "f64_add (f64_of_int i) (f64_of_int j) = f64_of_int (i + j)"
proof -
  note x = f64_of_int_fields [OF assms(1)] and y = f64_of_int_fields [OF assms(2)]
  let ?i = "f64_signed_units (f64_of_int i) + f64_signed_units (f64_of_int j)"
  have sum: "?i = (i + j) * 2 ^ 1074" by (simp only: x(4) y(4) distrib_right)
  have scale: "k * P = 0 \<longleftrightarrow> k = 0" "k * P < 0 \<longleftrightarrow> k < 0" if "P > 0" for k P :: int
    using that by (auto simp: mult_less_0_iff)
  have zero: "?i = 0 \<longleftrightarrow> i + j = 0" and neg: "?i < 0 \<longleftrightarrow> i + j < 0"
    unfolding sum by (rule scale, simp)+
  have nat: "nat \<bar>?i\<bar> = nat \<bar>i + j\<bar> * 2 ^ 1074"
    unfolding sum by (simp add: abs_mult nat_mult_distrib nat_power_eq)
  have r: "f64_round (nat \<bar>i + j\<bar> * 2 ^ 1074) = f64_of_nat (nat \<bar>i + j\<bar>)"
    by (rule f64_round_of_nat) (use assms(3) in simp)
  show ?thesis
  proof (cases "i + j = 0")
    case True
    then have "\<not> (i < 0 \<and> j < 0)" by simp
    then show ?thesis using True zero x y
      by (simp add: f64_add_def f64_pack_def f64_round_def f64_of_int_def f64_of_nat_def Let_def)
  next
    case False
    then have "f64_add (f64_of_int i) (f64_of_int j) = f64_pack (i + j < 0) (nat \<bar>i + j\<bar> * 2 ^ 1074)"
      using x y zero neg nat by (simp add: f64_add_def Let_def)
    also have "\<dots> = f64_of_int (i + j)"
      unfolding f64_pack_def r f64_of_int_def by simp
    finally show ?thesis .
  qed
qed

end
