(* ===== verification/MockSinks.thy ===== *)
theory MockSinks
  imports Store_Run Float_Add TagSerialize TagParse
begin

text \<open>
  The sinks that keep what they receive in memory or drop it: \<open>mock/sink.go\<close>, \<open>mock_sink.go\<close> and
  \<open>null_sink.go\<close>, and the contract of a sink that adds up counters and stores gauges.
\<close>

section \<open>The contract\<close>

locale totals_sink =
  fixes flush_counter_call :: "string \<Rightarrow> u64 \<Rightarrow> 's \<Rightarrow> 's"
    and flush_gauge_call :: "string \<Rightarrow> u64 \<Rightarrow> 's \<Rightarrow> 's"
    and flush_timer_call :: "string \<Rightarrow> float64 \<Rightarrow> 's \<Rightarrow> 's"
    and flush_call :: "'s \<Rightarrow> 's"
    and counter_total :: "'s \<Rightarrow> string \<Rightarrow> u64 option"
    and gauge_last :: "'s \<Rightarrow> string \<Rightarrow> u64 option"
  assumes total_counter: "counter_total (flush_counter_call n v s) =
        (counter_total s)(n \<mapsto> (case counter_total s n of None \<Rightarrow> 0 | Some u \<Rightarrow> u) + v)"
    and total_gauge: "counter_total (flush_gauge_call n v s) = counter_total s"
    and total_timer: "counter_total (flush_timer_call n w s) = counter_total s"
    and total_flush: "counter_total (flush_call s) = counter_total s"
    and last_counter: "gauge_last (flush_counter_call n v s) = gauge_last s"
    and last_gauge: "gauge_last (flush_gauge_call n v s) = (gauge_last s)(n \<mapsto> v)"
    and last_timer: "gauge_last (flush_timer_call n w s) = gauge_last s"
    and last_flush: "gauge_last (flush_call s) = gauge_last s"
begin

text \<open>The sink after a sequence of calls.\<close>

definition receive :: "sink_call \<Rightarrow> 's \<Rightarrow> 's" where
  "receive c s =
     (case c of
        FlushCounter n v \<Rightarrow> flush_counter_call n v s
      | FlushGauge n v \<Rightarrow> flush_gauge_call n v s
      | FlushTimer n w \<Rightarrow> flush_timer_call n w s
      | FlushSink \<Rightarrow> flush_call s)"

lemma receive_simps [simp]:
  "receive (FlushCounter n v) = flush_counter_call n v"
  "receive (FlushGauge n v) = flush_gauge_call n v"
  "receive (FlushTimer n w) = flush_timer_call n w"
  "receive FlushSink = flush_call"
  by (auto simp: receive_def fun_eq_iff)

lemma total_receive:
  "counter_total (fold receive cs s) n =
     (if \<exists>v. FlushCounter n v \<in> set cs
      then Some ((case counter_total s n of None \<Rightarrow> 0 | Some u \<Rightarrow> u) + delivered n cs)
      else counter_total s n)"
proof (induction cs arbitrary: s)
  case (Cons c cs)
  have none: "(\<nexists>v. FlushCounter n v \<in> set cs) \<Longrightarrow> delivered n cs = 0"
    unfolding delivered_def by (induction cs) (auto split: sink_call.split)
  show ?case
  proof (cases c)
    case (FlushCounter m v)
    then show ?thesis using none
      by (cases "m = n") (auto simp: Cons.IH total_counter add.assoc)
  qed (auto simp: Cons.IH total_gauge total_timer total_flush)
qed simp

lemma last_receive:
  assumes "distinct (map fst gs)"
  shows "gauge_last (fold receive (map (\<lambda>(k, a). FlushGauge k (f a)) gs) s) n =
           (case map_of gs n of None \<Rightarrow> gauge_last s n | Some a \<Rightarrow> Some (f a))"
  using assms
proof (induction gs arbitrary: s)
  case (Cons g gs)
  obtain k a where g: "g = (k, a)" by (cases g)
  have "n = k \<Longrightarrow> map_of gs n = None" using Cons.prems g by (simp add: map_of_eq_None_iff)
  then show ?case using Cons by (auto simp: g last_gauge split: option.split)
qed simp

lemma last_receive_counters:
  "gauge_last (fold receive (map (\<lambda>(k, a). FlushCounter k (f a)) cs) s) = gauge_last s"
  by (induction cs arbitrary: s) (auto simp: last_counter)

end

section \<open>The mock sink\<close>

record entry =
  val :: u64
  count :: u64  \<comment> \<open>an \<open>int64\<close>, as its bit pattern\<close>

record mock_maps =
  mock_counters :: "entry smap"
  mock_timers :: "entry smap"
  mock_gauges :: "entry smap"

text \<open>\<open>Sink\<close>: the maps are made at the first use.\<close>

record mock_Sink =
  mock_store :: "mock_maps option"
  once :: bool

definition new_maps :: mock_maps where
  "new_maps = \<lparr>mock_counters = [], mock_timers = [], mock_gauges = []\<rparr>"

definition new_entry :: entry where
  "new_entry = \<lparr>val = 0, count = 0\<rparr>"

definition zero_Sink :: mock_Sink where
  "zero_Sink = \<lparr>mock_store = None, once = False\<rparr>"

definition mock_sink :: "mock_Sink \<Rightarrow> mock_maps \<times> mock_Sink" where
  "mock_sink s =
     (let s = (if once s then s else s\<lparr>mock_store := Some new_maps, once := True\<rparr>)
      in (the (mock_store s), s))"

definition mock_NewSink :: mock_Sink where
  "mock_NewSink = snd (mock_sink zero_Sink)"

definition mock_Flush :: "mock_Sink \<Rightarrow> mock_Sink" where
  "mock_Flush s = s"

definition mock_Reset :: "mock_Sink \<Rightarrow> mock_Sink" where
  "mock_Reset s = s\<lparr>mock_store := Some new_maps\<rparr>"

text \<open>
  The entry of a name, made where there is none, and changed in place: \<open>Load\<close>, \<open>LoadOrStore\<close> and the
  two atomic operations on the entry.
\<close>

definition update_entry :: "string \<Rightarrow> (entry \<Rightarrow> entry) \<Rightarrow> entry smap \<Rightarrow> entry smap" where
  "update_entry name f m =
     (let m = (case smap_Load m name of
                 Some p \<Rightarrow> m
               | None \<Rightarrow> fst (smap_LoadOrStore m name new_entry))
      in map (\<lambda>(k, p). if k = name then (k, f p) else (k, p)) m)"

definition mock_FlushCounter :: "string \<Rightarrow> u64 \<Rightarrow> mock_Sink \<Rightarrow> mock_Sink" where
  "mock_FlushCounter name v s =
     (let (m, s) = mock_sink s;
          cs = update_entry name (\<lambda>p. p\<lparr>val := val p + v, count := count p + 1\<rparr>) (mock_counters m)
      in s\<lparr>mock_store := Some (m\<lparr>mock_counters := cs\<rparr>)\<rparr>)"

definition mock_FlushGauge :: "string \<Rightarrow> u64 \<Rightarrow> mock_Sink \<Rightarrow> mock_Sink" where
  "mock_FlushGauge name v s =
     (let (m, s) = mock_sink s;
          gs = update_entry name (\<lambda>p. p\<lparr>val := v, count := count p + 1\<rparr>) (mock_gauges m)
      in s\<lparr>mock_store := Some (m\<lparr>mock_gauges := gs\<rparr>)\<rparr>)"

text \<open>\<open>atomicAddFloat64\<close>: the bits of the sum, as the compare-and-swap succeeds without interference.\<close>

definition atomicAddFloat64 :: "u64 \<Rightarrow> float64 \<Rightarrow> u64" where
  "atomicAddFloat64 cur delta = f64_add cur delta"

definition mock_FlushTimer :: "string \<Rightarrow> float64 \<Rightarrow> mock_Sink \<Rightarrow> mock_Sink" where
  "mock_FlushTimer name v s =
     (let (m, s) = mock_sink s;
          ts = update_entry name
                 (\<lambda>p. p\<lparr>val := atomicAddFloat64 (val p) v, count := count p + 1\<rparr>) (mock_timers m)
      in s\<lparr>mock_store := Some (m\<lparr>mock_timers := ts\<rparr>)\<rparr>)"

text \<open>Readers return their result and the sink, which the first use of it may have initialised.\<close>

definition load_entry :: "entry smap \<Rightarrow> string \<Rightarrow> u64 \<times> bool" where
  "load_entry m name = (case smap_Load m name of Some p \<Rightarrow> (val p, True) | None \<Rightarrow> (0, False))"

definition keys_of :: "entry smap \<Rightarrow> string list" where
  "keys_of m = map fst m"

definition values_of :: "entry smap \<Rightarrow> u64 go_map" where
  "values_of m = map (\<lambda>(k, p). (k, val p)) m"

definition call_count :: "entry smap \<Rightarrow> string \<Rightarrow> int" where
  "call_count m name = (case smap_Load m name of Some p \<Rightarrow> sint (count p) | None \<Rightarrow> 0)"

text \<open>What an assertion reports to the test: nothing, that the name is missing, or what it got.\<close>

datatype assertion = Holds | Not_found | Unexpected u64 | Exists

definition assert_equals :: "(u64 \<Rightarrow> u64 \<Rightarrow> bool) \<Rightarrow> entry smap \<Rightarrow> string \<Rightarrow> u64 \<Rightarrow> assertion" where
  "assert_equals eq m name want =
     (let (u, ok) = load_entry m name in
      if \<not> ok then Not_found else if \<not> eq u want then Unexpected u else Holds)"

definition assert_exists :: "entry smap \<Rightarrow> string \<Rightarrow> assertion" where
  "assert_exists m name = (if \<not> snd (load_entry m name) then Not_found else Holds)"

definition assert_not_exists :: "entry smap \<Rightarrow> string \<Rightarrow> assertion" where
  "assert_not_exists m name = (if snd (load_entry m name) then Exists else Holds)"

definition assert_call_count :: "entry smap \<Rightarrow> string \<Rightarrow> int \<Rightarrow> assertion" where
  "assert_call_count m name want =
     (case smap_Load m name of
        None \<Rightarrow> Not_found
      | Some p \<Rightarrow> if count p \<noteq> word_of_int want then Unexpected (count p) else Holds)"

subsection \<open>Counters\<close>

definition mock_LoadCounter :: "string \<Rightarrow> mock_Sink \<Rightarrow> (u64 \<times> bool) \<times> mock_Sink" where
  "mock_LoadCounter name s = (let (m, s) = mock_sink s in (load_entry (mock_counters m) name, s))"

definition mock_ListCounters :: "mock_Sink \<Rightarrow> string list \<times> mock_Sink" where
  "mock_ListCounters s = (let (m, s) = mock_sink s in (keys_of (mock_counters m), s))"

definition mock_Counters :: "mock_Sink \<Rightarrow> u64 go_map \<times> mock_Sink" where
  "mock_Counters s = (let (m, s) = mock_sink s in (values_of (mock_counters m), s))"

definition mock_Counter :: "string \<Rightarrow> mock_Sink \<Rightarrow> u64 \<times> mock_Sink" where
  "mock_Counter name s = (let (m, s) = mock_sink s in (fst (load_entry (mock_counters m) name), s))"

definition mock_CounterCallCount :: "string \<Rightarrow> mock_Sink \<Rightarrow> int \<times> mock_Sink" where
  "mock_CounterCallCount name s = (let (m, s) = mock_sink s in (call_count (mock_counters m) name, s))"

definition mock_AssertCounterEquals :: "string \<Rightarrow> u64 \<Rightarrow> mock_Sink \<Rightarrow> assertion \<times> mock_Sink" where
  "mock_AssertCounterEquals name want s = (let (m, s) = mock_sink s in (assert_equals (=) (mock_counters m) name want, s))"

definition mock_AssertCounterExists :: "string \<Rightarrow> mock_Sink \<Rightarrow> assertion \<times> mock_Sink" where
  "mock_AssertCounterExists name s = (let (m, s) = mock_sink s in (assert_exists (mock_counters m) name, s))"

definition mock_AssertCounterNotExists :: "string \<Rightarrow> mock_Sink \<Rightarrow> assertion \<times> mock_Sink" where
  "mock_AssertCounterNotExists name s = (let (m, s) = mock_sink s in (assert_not_exists (mock_counters m) name, s))"

definition mock_AssertCounterCallCount :: "string \<Rightarrow> int \<Rightarrow> mock_Sink \<Rightarrow> assertion \<times> mock_Sink" where
  "mock_AssertCounterCallCount name want s = (let (m, s) = mock_sink s in (assert_call_count (mock_counters m) name want, s))"

subsection \<open>Gauges\<close>

definition mock_LoadGauge :: "string \<Rightarrow> mock_Sink \<Rightarrow> (u64 \<times> bool) \<times> mock_Sink" where
  "mock_LoadGauge name s = (let (m, s) = mock_sink s in (load_entry (mock_gauges m) name, s))"

definition mock_ListGauges :: "mock_Sink \<Rightarrow> string list \<times> mock_Sink" where
  "mock_ListGauges s = (let (m, s) = mock_sink s in (keys_of (mock_gauges m), s))"

definition mock_Gauges :: "mock_Sink \<Rightarrow> u64 go_map \<times> mock_Sink" where
  "mock_Gauges s = (let (m, s) = mock_sink s in (values_of (mock_gauges m), s))"

definition mock_Gauge :: "string \<Rightarrow> mock_Sink \<Rightarrow> u64 \<times> mock_Sink" where
  "mock_Gauge name s = (let (m, s) = mock_sink s in (fst (load_entry (mock_gauges m) name), s))"

definition mock_GaugeCallCount :: "string \<Rightarrow> mock_Sink \<Rightarrow> int \<times> mock_Sink" where
  "mock_GaugeCallCount name s = (let (m, s) = mock_sink s in (call_count (mock_gauges m) name, s))"

definition mock_AssertGaugeEquals :: "string \<Rightarrow> u64 \<Rightarrow> mock_Sink \<Rightarrow> assertion \<times> mock_Sink" where
  "mock_AssertGaugeEquals name want s = (let (m, s) = mock_sink s in (assert_equals (=) (mock_gauges m) name want, s))"

definition mock_AssertGaugeExists :: "string \<Rightarrow> mock_Sink \<Rightarrow> assertion \<times> mock_Sink" where
  "mock_AssertGaugeExists name s = (let (m, s) = mock_sink s in (assert_exists (mock_gauges m) name, s))"

definition mock_AssertGaugeNotExists :: "string \<Rightarrow> mock_Sink \<Rightarrow> assertion \<times> mock_Sink" where
  "mock_AssertGaugeNotExists name s = (let (m, s) = mock_sink s in (assert_not_exists (mock_gauges m) name, s))"

definition mock_AssertGaugeCallCount :: "string \<Rightarrow> int \<Rightarrow> mock_Sink \<Rightarrow> assertion \<times> mock_Sink" where
  "mock_AssertGaugeCallCount name want s = (let (m, s) = mock_sink s in (assert_call_count (mock_gauges m) name want, s))"

subsection \<open>Timers\<close>

definition mock_LoadTimer :: "string \<Rightarrow> mock_Sink \<Rightarrow> (float64 \<times> bool) \<times> mock_Sink" where
  "mock_LoadTimer name s = (let (m, s) = mock_sink s in (load_entry (mock_timers m) name, s))"

definition mock_ListTimers :: "mock_Sink \<Rightarrow> string list \<times> mock_Sink" where
  "mock_ListTimers s = (let (m, s) = mock_sink s in (keys_of (mock_timers m), s))"

definition mock_Timers :: "mock_Sink \<Rightarrow> float64 go_map \<times> mock_Sink" where
  "mock_Timers s = (let (m, s) = mock_sink s in (values_of (mock_timers m), s))"

definition mock_Timer :: "string \<Rightarrow> mock_Sink \<Rightarrow> float64 \<times> mock_Sink" where
  "mock_Timer name s = (let (m, s) = mock_sink s in (fst (load_entry (mock_timers m) name), s))"

definition mock_TimerCallCount :: "string \<Rightarrow> mock_Sink \<Rightarrow> int \<times> mock_Sink" where
  "mock_TimerCallCount name s = (let (m, s) = mock_sink s in (call_count (mock_timers m) name, s))"

definition mock_AssertTimerEquals :: "string \<Rightarrow> float64 \<Rightarrow> mock_Sink \<Rightarrow> assertion \<times> mock_Sink" where
  "mock_AssertTimerEquals name want s = (let (m, s) = mock_sink s in (assert_equals f64_eq (mock_timers m) name want, s))"

definition mock_AssertTimerExists :: "string \<Rightarrow> mock_Sink \<Rightarrow> assertion \<times> mock_Sink" where
  "mock_AssertTimerExists name s = (let (m, s) = mock_sink s in (assert_exists (mock_timers m) name, s))"

definition mock_AssertTimerNotExists :: "string \<Rightarrow> mock_Sink \<Rightarrow> assertion \<times> mock_Sink" where
  "mock_AssertTimerNotExists name s = (let (m, s) = mock_sink s in (assert_not_exists (mock_timers m) name, s))"

definition mock_AssertTimerCallCount :: "string \<Rightarrow> int \<Rightarrow> mock_Sink \<Rightarrow> assertion \<times> mock_Sink" where
  "mock_AssertTimerCallCount name want s = (let (m, s) = mock_sink s in (assert_call_count (mock_timers m) name want, s))"

subsection \<open>Tags\<close>

definition mock_ParseTags :: "string \<Rightarrow> string \<times> string go_map option" where
  "mock_ParseTags stat = ParseTags stat"

definition mock_SerializeTags :: "string \<Rightarrow> string go_map \<Rightarrow> string" where
  "mock_SerializeTags name tags = SerializeTags name tags"

section \<open>The older mock sink and the null sink\<close>

record MockSink =
  MockCounters :: "string \<rightharpoonup> u64"
  MockTimers :: "string \<rightharpoonup> u64"
  MockGauges :: "string \<rightharpoonup> u64"

definition NewMockSink :: MockSink where
  "NewMockSink = \<lparr>MockCounters = Map.empty, MockTimers = Map.empty, MockGauges = Map.empty\<rparr>"

text \<open>A missing key of a Go map reads as zero.\<close>

definition map_get :: "(string \<rightharpoonup> u64) \<Rightarrow> string \<Rightarrow> u64" where
  "map_get m k = (case m k of None \<Rightarrow> 0 | Some v \<Rightarrow> v)"

definition MockSink_FlushCounter :: "string \<Rightarrow> u64 \<Rightarrow> MockSink \<Rightarrow> MockSink" where
  "MockSink_FlushCounter name v m =
     m\<lparr>MockCounters := (MockCounters m)(name \<mapsto> map_get (MockCounters m) name + v)\<rparr>"

definition MockSink_FlushGauge :: "string \<Rightarrow> u64 \<Rightarrow> MockSink \<Rightarrow> MockSink" where
  "MockSink_FlushGauge name v m = m\<lparr>MockGauges := (MockGauges m)(name \<mapsto> v)\<rparr>"

definition MockSink_FlushTimer :: "string \<Rightarrow> float64 \<Rightarrow> MockSink \<Rightarrow> MockSink" where
  "MockSink_FlushTimer name v m =
     m\<lparr>MockTimers := (MockTimers m)(name \<mapsto> map_get (MockTimers m) name + 1)\<rparr>"

definition null_FlushCounter :: "string \<Rightarrow> u64 \<Rightarrow> unit \<Rightarrow> unit" where
  "null_FlushCounter name v s = s"

definition null_FlushGauge :: "string \<Rightarrow> u64 \<Rightarrow> unit \<Rightarrow> unit" where
  "null_FlushGauge name v s = s"

definition null_FlushTimer :: "string \<Rightarrow> float64 \<Rightarrow> unit \<Rightarrow> unit" where
  "null_FlushTimer name v s = s"

definition null_Flush :: "unit \<Rightarrow> unit" where
  "null_Flush s = s"

section \<open>Both mock sinks keep the contract\<close>

lemma smap_Load_map:
  "smap_Load (map (\<lambda>(k, p). if k = name then (k, f p) else (k, p)) m) n =
     (if n = name then map_option f (smap_Load m n) else smap_Load m n)"
  by (induction m) (auto simp: smap_Load_def)

lemma update_entry_Load:
  "smap_Load (update_entry name f m) n =
     (if n = name then Some (f (case smap_Load m name of None \<Rightarrow> new_entry | Some p \<Rightarrow> p))
      else smap_Load m n)"
proof (cases "smap_Load m name")
  case None
  then have "fst (smap_LoadOrStore m name new_entry) = m @ [(name, new_entry)]"
    by (simp add: smap_LoadOrStore_def smap_Load_def)
  with None have "update_entry name f m =
      map (\<lambda>(k, p). if k = name then (k, f p) else (k, p)) (m @ [(name, new_entry)])"
    by (simp add: update_entry_def)
  then have "smap_Load (update_entry name f m) n =
      (if n = name then map_option f (smap_Load (m @ [(name, new_entry)]) n)
       else smap_Load (m @ [(name, new_entry)]) n)"
    by (simp only: smap_Load_map)
  then show ?thesis using None by (simp add: smap_Load_def map_add_def split: option.split)
next
  case (Some p)
  then show ?thesis by (simp add: update_entry_def smap_Load_map)
qed

text \<open>What the mock sink reports for a name.\<close>

definition mock_counter_total :: "mock_Sink \<Rightarrow> string \<Rightarrow> u64 option" where
  "mock_counter_total s name = map_option val (smap_Load (mock_counters (fst (mock_sink s))) name)"

definition mock_gauge_last :: "mock_Sink \<Rightarrow> string \<Rightarrow> u64 option" where
  "mock_gauge_last s name = map_option val (smap_Load (mock_gauges (fst (mock_sink s))) name)"

lemma mock_sink_put [simp]:
  "mock_sink (snd (mock_sink s)\<lparr>mock_store := Some m\<rparr>) = (m, snd (mock_sink s)\<lparr>mock_store := Some m\<rparr>)"
  by (simp add: mock_sink_def)

lemma LoadCounter_total:
  "fst (mock_LoadCounter name s) =
     (case mock_counter_total s name of Some v \<Rightarrow> (v, True) | None \<Rightarrow> (0, False))"
  by (simp add: mock_LoadCounter_def mock_counter_total_def load_entry_def split: prod.split option.split)

lemma LoadGauge_last:
  "fst (mock_LoadGauge name s) =
     (case mock_gauge_last s name of Some v \<Rightarrow> (v, True) | None \<Rightarrow> (0, False))"
  by (simp add: mock_LoadGauge_def mock_gauge_last_def load_entry_def split: prod.split option.split)

interpretation ms: totals_sink mock_FlushCounter mock_FlushGauge mock_FlushTimer mock_Flush
    mock_counter_total mock_gauge_last
proof
  fix n v w s
  let ?m = "fst (mock_sink s)" and ?s = "snd (mock_sink s)"
  have c: "mock_FlushCounter n v s = ?s\<lparr>mock_store := Some (?m\<lparr>mock_counters :=
      update_entry n (\<lambda>p. p\<lparr>val := val p + v, count := count p + 1\<rparr>) (mock_counters ?m)\<rparr>)\<rparr>"
    by (simp add: mock_FlushCounter_def split: prod.split)
  have g: "mock_FlushGauge n v s = ?s\<lparr>mock_store := Some (?m\<lparr>mock_gauges :=
      update_entry n (\<lambda>p. p\<lparr>val := v, count := count p + 1\<rparr>) (mock_gauges ?m)\<rparr>)\<rparr>"
    by (simp add: mock_FlushGauge_def split: prod.split)
  have t: "mock_FlushTimer n w s = ?s\<lparr>mock_store := Some (?m\<lparr>mock_timers :=
      update_entry n (\<lambda>p. p\<lparr>val := atomicAddFloat64 (val p) w, count := count p + 1\<rparr>) (mock_timers ?m)\<rparr>)\<rparr>"
    by (simp add: mock_FlushTimer_def split: prod.split)
  show "mock_counter_total (mock_FlushCounter n v s) = (mock_counter_total s)
      (n \<mapsto> (case mock_counter_total s n of None \<Rightarrow> 0 | Some u \<Rightarrow> u) + v)"
    by (auto simp: mock_counter_total_def c update_entry_Load new_entry_def fun_eq_iff split: option.split)
  show "mock_counter_total (mock_FlushGauge n v s) = mock_counter_total s"
    "mock_counter_total (mock_FlushTimer n w s) = mock_counter_total s"
    by (simp_all add: mock_counter_total_def g t fun_eq_iff)
  show "mock_gauge_last (mock_FlushCounter n v s) = mock_gauge_last s"
    "mock_gauge_last (mock_FlushTimer n w s) = mock_gauge_last s"
    by (simp_all add: mock_gauge_last_def c t fun_eq_iff)
  show "mock_gauge_last (mock_FlushGauge n v s) = (mock_gauge_last s)(n \<mapsto> v)"
    by (auto simp: mock_gauge_last_def g update_entry_Load fun_eq_iff)
qed (simp_all add: mock_Flush_def)

interpretation os: totals_sink MockSink_FlushCounter MockSink_FlushGauge MockSink_FlushTimer
    "\<lambda>s. s" MockCounters MockGauges
  by unfold_locales
     (simp_all add: MockSink_FlushCounter_def MockSink_FlushGauge_def MockSink_FlushTimer_def map_get_def)

text \<open>Timers: the sum of whole numbers is exact while it stays below \<open>2 ^ 53\<close>.\<close>

definition mock_timer_total :: "mock_Sink \<Rightarrow> string \<Rightarrow> float64" where
  "mock_timer_total s name = fst (fst (mock_LoadTimer name s))"

lemma mock_timer_total_eq:
  "mock_timer_total s k =
     (case smap_Load (mock_timers (fst (mock_sink s))) k of None \<Rightarrow> 0 | Some p \<Rightarrow> val p)"
  by (simp add: mock_timer_total_def mock_LoadTimer_def load_entry_def split: prod.split option.split)

lemma mock_FlushTimer_total:
  "mock_timer_total (mock_FlushTimer n w s) k =
     (if k = n then f64_add (mock_timer_total s n) w else mock_timer_total s k)"
proof -
  let ?m = "fst (mock_sink s)" and ?s = "snd (mock_sink s)"
  have t: "mock_FlushTimer n w s = ?s\<lparr>mock_store := Some (?m\<lparr>mock_timers :=
      update_entry n (\<lambda>p. p\<lparr>val := atomicAddFloat64 (val p) w, count := count p + 1\<rparr>) (mock_timers ?m)\<rparr>)\<rparr>"
    by (simp add: mock_FlushTimer_def split: prod.split)
  show ?thesis
    by (simp add: mock_timer_total_eq t update_entry_Load atomicAddFloat64_def new_entry_def
        split: option.split)
qed

lemma mock_FlushTimer_list:
  assumes "mock_timer_total s n = f64_of_int z" and "\<bar>z\<bar> + sum_list (map abs ds) < 2 ^ 53"
  shows "mock_timer_total (fold (\<lambda>d. mock_FlushTimer n (f64_of_int d)) ds s) n =
           f64_of_int (z + sum_list ds)"
  using assms
proof (induction ds arbitrary: s z)
  case (Cons d ds)
  have pos: "0 \<le> sum_list (map abs ds)" by (rule sum_list_nonneg) auto
  then have "\<bar>z\<bar> < 2 ^ 53" "\<bar>d\<bar> < 2 ^ 53" "\<bar>z + d\<bar> < 2 ^ 53" using Cons.prems(2) by auto
  then have "mock_timer_total (mock_FlushTimer n (f64_of_int d) s) n = f64_of_int (z + d)"
    using Cons.prems(1) by (simp add: mock_FlushTimer_total f64_add_of_int)
  moreover have "\<bar>z + d\<bar> + sum_list (map abs ds) < 2 ^ 53" using Cons.prems(2) by auto
  ultimately show ?case using Cons.IH by (simp add: add.assoc)
qed simp

end
