(* ===== verification/Sink_Props.thy ===== *)
theory Sink_Props
  imports MockSinks Timer_Props
begin

text \<open>Properties of the mock sinks, fed with the calls of a store.\<close>

text \<open>The method that a call on the interface \<open>Sink\<close> runs when the store's sink is a mock sink.\<close>

definition mock_receive :: "sink_call \<Rightarrow> mock_Sink \<Rightarrow> mock_Sink" where
  "mock_receive c s =
     (case c of
        FlushCounter n v \<Rightarrow> mock_FlushCounter n v s
      | FlushGauge n v \<Rightarrow> mock_FlushGauge n v s
      | FlushTimer n w \<Rightarrow> mock_FlushTimer n w s
      | FlushSink \<Rightarrow> mock_Flush s)"

lemma mock_receive_ms: "mock_receive = ms.receive"
  by (simp add: mock_receive_def ms.receive_def fun_eq_iff)

lemma mock_NewSink_empty: "mock_counter_total mock_NewSink k = None"
  by (simp add: mock_counter_total_def mock_NewSink_def mock_sink_def zero_Sink_def new_maps_def
      smap_Load_def)

lemma mock_Counter_total:
  "fst (mock_Counter name s) = (case mock_counter_total s name of Some v \<Rightarrow> v | None \<Rightarrow> 0)"
  by (simp add: mock_Counter_def mock_counter_total_def load_entry_def split: prod.split option.split)

lemma mock_Timer_total: "fst (mock_Timer k s) = mock_timer_total s k"
  by (simp add: mock_timer_total_eq mock_Timer_def load_entry_def split: prod.split option.split)

text \<open>The mock sink reports for a name the sum of the deltas it was sent.\<close>

lemma mock_Counter_delivered:
  "fst (mock_Counter k (fold mock_receive cs mock_NewSink)) = delivered k cs"
proof (cases "\<exists>v. FlushCounter k v \<in> set cs")
  case False
  then have "delivered k cs = 0"
    unfolding delivered_def by (induction cs) (auto split: sink_call.split)
  then show ?thesis using False
    by (simp add: mock_Counter_total mock_receive_ms ms.total_receive mock_NewSink_empty)
qed (simp add: mock_Counter_total mock_receive_ms ms.total_receive mock_NewSink_empty)

lemma mock_gauge_after_flush:
  assumes "gauges_inv t" and "smap_Load (gauges t) k = Some a"
  shows "mock_gauge_last (fold mock_receive (sink_calls (flush_result t)) m) k =
           Some (gauge_Value a t)"
proof -
  let ?g = "map (\<lambda>(k, a). FlushGauge k (gauge_Value a t)) (gauges t)"
  have d: "distinct (map fst (gauges t))" using assms(1) by (simp add: gauges_inv_def smap_ok_def)
  obtain cs where "sink_calls (flush_result t) = cs @ ?g @ (if flushable t then [FlushSink] else [])"
    by (auto simp: flush_result_def)
  then show ?thesis using assms(2)
    by (simp add: mock_receive_ms ms.last_flush ms.last_receive [OF d] smap_Load_def)
qed

text \<open>
  C36: a store whose sink is the mock sink: after every successful flush, in every run, the mock
  sink's \<open>Counter\<close> is the sum of all that was written to the counters of the name, and \<open>LoadGauge\<close>
  finds every gauge with the value it had at the flush.
\<close>

theorem mock_reports_written:
  assumes "store_run gen w s" and "store_run gen w' t" and "t = fold gen (statGenerators s) s"
    and "Flush gen s = Some s'"
  defines "m \<equiv> fold mock_receive (sink_calls s') mock_NewSink"
  shows "fst (mock_Counter k m) = written w' k \<and>
         (\<forall>a. smap_Load (gauges s') k = Some a \<longrightarrow> fst (mock_LoadGauge k m) = (gauge_Value a t, True))"
proof -
  have run: "run_inv w' t" using assms(2) by (rule store_run_inv)
  then have inv: "store_inv t" "counters_inv t" "gauges_inv t" by (simp_all add: run_inv_def store_inv_def)
  have s': "s' = flush_result t" using Flush_eq [of gen s] inv(1) assms(3,4) by simp
  have "fst (mock_Counter k m) = written w' k"
    using run by (simp add: m_def mock_Counter_delivered s' account_flush(2) inv(2) run_inv_def)
  moreover have "fst (mock_LoadGauge k m) = (gauge_Value a t, True)"
    if "smap_Load (gauges s') k = Some a" for a
    using mock_gauge_after_flush [OF inv(3), of k a mock_NewSink] that
    by (simp add: m_def s' LoadGauge_last)
  ultimately show ?thesis by blast
qed

theorem mock_reports_written_witness:
  "\<exists>s'. Flush no_gen demo_forwarded = Some s' \<and>
     fst (mock_Counter ''a'' (fold mock_receive (sink_calls s') mock_NewSink)) = 12"
proof -
  have run: "store_run no_gen (wrote ''a'' 7
     (demo_client\<lparr>counter_refs := insert (''a'', 1) (counter_refs demo_client)\<rparr>))
     (fold no_gen (statGenerators demo_forwarded) demo_forwarded)"
    using run_forwarded by (simp add: demo_forwarded_def)
  then have "store_inv (fold no_gen (statGenerators demo_forwarded) demo_forwarded)"
    using store_run_inv by (auto simp: run_inv_def)
  then obtain s' where s': "Flush no_gen demo_forwarded = Some s'" using Flush_eq by auto
  from mock_reports_written [OF run_forwarded run refl s', of "''a''"] s' show ?thesis
    by (simp add: wrote_def demo_client_def)
qed

text \<open>
  The mock sink's sum of the durations added to a timer is exact in whole units of the timer's
  base, though it is a floating-point sum, as long as the magnitudes stay below \<open>2 ^ 53\<close> units in
  total; the values the store has sent for other timers do not matter.
\<close>

theorem mock_timer_sum:
  assumes "store_run gen w s" and "(k, a) \<in> timer_refs w"
    and "fst (mock_Timer k (fold mock_receive (sink_calls s) mock_NewSink)) = f64_of_int z"
    and "\<forall>d\<in>set ds. \<bar>d\<bar> < 2 ^ 63"
    and "\<bar>z\<bar> + (\<Sum>d\<leftarrow>ds. \<bar>d\<bar> div base (timer_heap s ! a)) < 2 ^ 53"
  defines "s' \<equiv> fold (timer_AddDuration a) ds s"
  shows "fst (mock_Timer k (fold mock_receive (sink_calls s') mock_NewSink)) =
           f64_of_int (z + (\<Sum>d\<leftarrow>ds. sgn d * (\<bar>d\<bar> div base (timer_heap s ! a))))"
proof -
  let ?b = "base (timer_heap s ! a)" and ?m = "fold mock_receive (sink_calls s) mock_NewSink"
  let ?q = "\<lambda>d. sgn d * (\<bar>d\<bar> div ?b)"
  have "timer_ref_ok s k a" using store_run_timers [OF assms(1)] assms(2)
    by (auto simp: timers_ok_def)
  then have b: "0 < ?b" "timer_name (timer_heap s ! a) = k" "a < length (timer_heap s)"
    by (auto simp: timer_ref_ok_def Microsecond_def Millisecond_def)
  have calls: "sink_calls (fold (timer_AddDuration a) ds t) =
      sink_calls t @ map (\<lambda>d. FlushTimer k (f64_of_int (?q d))) ds"
    if "base (timer_heap t ! a) = ?b" "timer_name (timer_heap t ! a) = k" "a < length (timer_heap t)"
      "\<forall>d\<in>set ds. \<bar>d\<bar> < 2 ^ 63" for t ds
    using that
  proof (induction ds arbitrary: t)
    case (Cons d ds)
    have "base (timer_heap (timer_AddDuration a d t) ! a) = ?b"
      "timer_name (timer_heap (timer_AddDuration a d t) ! a) = k"
      "a < length (timer_heap (timer_AddDuration a d t))"
      "sink_calls (timer_AddDuration a d t) = sink_calls t @ [FlushTimer k (f64_of_int (?q d))]"
      using Cons.prems go_div_trunc [OF b(1), of d]
      by (simp_all add: timer_AddDuration_def timer_AddValue_def Let_def upd_timer_def emit_def)
    then show ?case using Cons.IH Cons.prems by simp
  qed simp
  have "0 \<le> \<bar>d\<bar> div ?b" for d using b(1) by (simp add: pos_imp_zdiv_nonneg_iff)
  then have abs: "\<bar>?q d\<bar> = \<bar>d\<bar> div ?b" for d by (cases "d = 0") (auto simp: abs_mult abs_sgn_eq)
  have fold: "fold mock_receive (map (\<lambda>d. FlushTimer k (f64_of_int (?q d))) ds) m =
      fold (\<lambda>d. mock_FlushTimer k (f64_of_int d)) (map ?q ds) m" for m ds
    by (induction ds arbitrary: m) (simp_all add: mock_receive_def)
  have "mock_timer_total ?m k = f64_of_int z" "\<bar>z\<bar> + sum_list (map abs (map ?q ds)) < 2 ^ 53"
    using assms(3,5) by (simp_all add: mock_Timer_total abs o_def)
  from mock_FlushTimer_list [OF this] show ?thesis
    using calls [OF refl b(2,3) assms(4)]
    by (simp add: s'_def fold mock_Timer_total o_def)
qed

theorem mock_timer_sum_witness:
  "fst (mock_Timer ''t'' (fold mock_receive
     (sink_calls (fold (timer_AddDuration 0) [2500000, - 1700000, 40000000] demo_timer)) mock_NewSink)) =
   f64_of_int 41"
proof -
  have ref: "(''t'', 0) \<in> timer_refs demo_timer_client" by (simp add: demo_timer_client_def)
  have zero: "fst (mock_Timer ''t'' (fold mock_receive (sink_calls demo_timer) mock_NewSink)) = f64_of_int 0"
    by (simp add: demo_timer_def empty_store_def mock_Timer_def mock_NewSink_def mock_sink_def
        zero_Sink_def new_maps_def load_entry_def smap_Load_def f64_of_int_def f64_of_nat_def)
  have "\<forall>d\<in>set [2500000, - 1700000, 40000000]. \<bar>d\<bar> < (2 ^ 63 :: int)"
    "\<bar>0\<bar> + (\<Sum>d\<leftarrow>[2500000, - 1700000, 40000000]. \<bar>d\<bar> div base (timer_heap demo_timer ! 0)) < 2 ^ 53"
    by (simp_all add: demo_timer_def Millisecond_def)
  from mock_timer_sum [OF run_timer ref zero this] show ?thesis
    by (simp add: demo_timer_def Millisecond_def)
qed

end
