(* ===== verification/Mock_Fatal.thy ===== *)
theory Mock_Fatal
  imports MockSinks
begin

text \<open>
  \<open>Fatal\<close> of \<open>mock/sink.go\<close>: a test that makes a list of assertions on a mock sink, with the test itself or
  with \<open>Fatal\<close> of it.
\<close>

text \<open>The dynamic type of a \<open>testing.TB\<close>; \<open>TB_other\<close> has the name of any other type.\<close>

datatype testing_TB = TB_T | TB_B | TB_fatalTest | TB_fatalBench | TB_other string

datatype fatal_panic = Invalid_type testing_TB

definition mock_Fatal :: "testing_TB \<Rightarrow> fatal_panic + testing_TB" where
  "mock_Fatal tb =
     (case tb of
        TB_T \<Rightarrow> Inr TB_fatalTest
      | TB_B \<Rightarrow> Inr TB_fatalBench
      | tb \<Rightarrow> Inl (Invalid_type tb))"

text \<open>
  What becomes of a test: the reports, and whether it has been stopped.  \<open>Fatalf\<close> reports and stops
  the goroutine of the test, so that nothing after it runs.
\<close>

record test_state =
  reports :: "assertion list"
  stopped :: bool

definition test_Errorf :: "testing_TB \<Rightarrow> assertion \<Rightarrow> test_state \<Rightarrow> test_state" where
  "test_Errorf tb r t =
     (case tb of
        TB_fatalTest \<Rightarrow> t\<lparr>reports := reports t @ [r], stopped := True\<rparr>
      | TB_fatalBench \<Rightarrow> t\<lparr>reports := reports t @ [r], stopped := True\<rparr>
      | _ \<Rightarrow> t\<lparr>reports := reports t @ [r]\<rparr>)"

text \<open>The assertions of a test, in order; the second result is how many were made.\<close>

fun run_asserts :: "testing_TB \<Rightarrow> (mock_Sink \<Rightarrow> assertion \<times> mock_Sink) list \<Rightarrow> mock_Sink \<Rightarrow> test_state \<Rightarrow> test_state \<times> nat" where
  "run_asserts tb [] s t = (t, 0)"
| "run_asserts tb (a # as) s t =
     (if stopped t then (t, 0)
      else case a s of (r, s) \<Rightarrow>
        let (t, n) = run_asserts tb as s (if r = Holds then t else test_Errorf tb r t) in (t, Suc n))"

text \<open>The reports of all assertions, when nothing stops the test.\<close>

fun all_reports :: "(mock_Sink \<Rightarrow> assertion \<times> mock_Sink) list \<Rightarrow> mock_Sink \<Rightarrow> assertion list" where
  "all_reports [] s = []"
| "all_reports (a # as) s = (case a s of (r, s) \<Rightarrow> (if r = Holds then [] else [r]) @ all_reports as s)"

lemma run_asserts_stopped: "stopped t \<Longrightarrow> run_asserts tb as s t = (t, 0)"
  by (cases "as") simp_all

text \<open>
  A plain test makes every assertion and collects what each reports.  With \<open>Fatal\<close> it ends with the
  first report, and passes exactly when the plain test does.
\<close>

lemma run_asserts_plain:
  assumes "tb = TB_T \<or> tb = TB_B" and "\<not> stopped t"
  shows "run_asserts tb as s t = (t\<lparr>reports := reports t @ all_reports as s\<rparr>, length as)"
  using assms(2)
proof (induction "as" arbitrary: s t)
  case (Cons a "as")
  obtain r s' where a: "a s = (r, s')" by (cases "a s")
  let ?t = "if r = Holds then t else test_Errorf tb r t"
  have t: "?t = t\<lparr>reports := reports t @ (if r = Holds then [] else [r])\<rparr>"
    using assms(1) by (auto simp: test_Errorf_def)
  then have "run_asserts tb as s' ?t = (?t\<lparr>reports := reports ?t @ all_reports as s'\<rparr>, length as)"
    using Cons.prems by (intro Cons.IH) simp
  then show ?case using Cons.prems a t by simp
qed simp

theorem Fatal_stops_at_first:
  assumes "mock_Fatal tb = Inr tb'" and "\<not> stopped t"
  shows "fst (run_asserts tb' as s t) =
           t\<lparr>reports := reports t @ take 1 (all_reports as s), stopped := all_reports as s \<noteq> []\<rparr>"
    and "fst (run_asserts tb as s t) = t\<lparr>reports := reports t @ all_reports as s\<rparr>"
    and "\<exists>p. mock_Fatal tb' = Inl p"
proof -
  have tb: "tb = TB_T \<and> tb' = TB_fatalTest \<or> tb = TB_B \<and> tb' = TB_fatalBench"
    using assms(1) by (auto simp: mock_Fatal_def split: testing_TB.splits)
  then show "\<exists>p. mock_Fatal tb' = Inl p" by (auto simp: mock_Fatal_def)
  show "fst (run_asserts tb as s t) = t\<lparr>reports := reports t @ all_reports as s\<rparr>"
    using tb run_asserts_plain [OF _ assms(2)] by auto
  show "fst (run_asserts tb' as s t) =
      t\<lparr>reports := reports t @ take 1 (all_reports as s), stopped := all_reports as s \<noteq> []\<rparr>"
  proof (induction "as" arbitrary: s)
    case (Cons a "as")
    then show ?case using assms(2) tb
      by (auto simp: test_Errorf_def run_asserts_stopped case_prod_beta Let_def)
  qed (use assms(2) in simp)
qed

end
