(* ===== verification/Wire.thy ===== *)
theory Wire
  imports Metrics Float_Add
begin

text \<open>
  The lines the network sink writes: the \<open>buffer\<close> of \<open>net_sink.go\<close>, the number formats and the
  choice \<open>FlushTimer\<close> makes between them, with a reader for the lines.
\<close>

section \<open>Comparing, truncating and printing \<open>float64\<close> values\<close>

text \<open>
  The units of an infinity exceed those of every finite value, so comparing units compares any two
  values that are not NaN.
\<close>

definition f64_le :: "float64 \<Rightarrow> float64 \<Rightarrow> bool" where
  "f64_le x y \<longleftrightarrow> \<not> f64_is_nan x \<and> \<not> f64_is_nan y \<and> f64_signed_units x \<le> f64_signed_units y"

definition f64_lt :: "float64 \<Rightarrow> float64 \<Rightarrow> bool" where
  "f64_lt x y \<longleftrightarrow> \<not> f64_is_nan x \<and> \<not> f64_is_nan y \<and> f64_signed_units x < f64_signed_units y"

text \<open>\<open>math.Trunc\<close>: the fraction bits below the point are cleared.\<close>

definition f64_trunc :: "float64 \<Rightarrow> float64" where
  "f64_trunc w =
     (if f64_exp w < 1023 then of_nat (unat w div 2 ^ 63 * 2 ^ 63)
      else if f64_exp w < 1075 then of_nat (unat w div 2 ^ (1075 - f64_exp w) * 2 ^ (1075 - f64_exp w))
      else w)"

text \<open>\<open>uint64(value)\<close>, for a value in the range of \<open>uint64\<close>.\<close>

definition f64_to_uint64 :: "float64 \<Rightarrow> u64" where
  "f64_to_uint64 w = of_nat (f64_units w div 2 ^ 1074)"

text \<open>\<open>strconv.AppendFloat(b, val, 'f', 6, 64)\<close>: six decimals, correctly rounded.\<close>

fun fixed_digits :: "nat \<Rightarrow> nat \<Rightarrow> string" where
  "fixed_digits 0 k = []"
| "fixed_digits (Suc n) k = fixed_digits n (k div 10) @ [digit_char (k mod 10)]"

definition f64_micros :: "float64 \<Rightarrow> nat" where
  "f64_micros w = round_half_even (f64_units w * 10 ^ 6) 1074"

definition go_FormatFloat6 :: "float64 \<Rightarrow> string" where
  "go_FormatFloat6 w =
     (if f64_is_nan w then ''NaN''
      else if f64_is_inf w then (if f64_sign w then ''-Inf'' else ''+Inf'')
      else (if f64_sign w then ''-'' else '''') @
           format_nat (f64_micros w div 10 ^ 6) @ ''.'' @ fixed_digits 6 (f64_micros w mod 10 ^ 6))"

section \<open>\<open>buffer\<close>\<close>

type_synonym buffer = string

definition buffer_Len :: "buffer \<Rightarrow> nat" where
  "buffer_Len b = length b"

definition buffer_Reset :: "buffer \<Rightarrow> buffer" where
  "buffer_Reset b = []"

definition buffer_Write :: "string \<Rightarrow> buffer \<Rightarrow> buffer" where
  "buffer_Write p b = b @ p"

definition buffer_WriteString :: "string \<Rightarrow> buffer \<Rightarrow> buffer" where
  "buffer_WriteString s b = b @ s"

definition buffer_WriteChar :: "char \<Rightarrow> buffer \<Rightarrow> buffer" where
  "buffer_WriteChar c b = b @ [c]"

definition buffer_WriteUnit64 :: "u64 \<Rightarrow> buffer \<Rightarrow> buffer" where
  "buffer_WriteUnit64 val b = b @ go_FormatUint val"

definition buffer_WriteFloat64 :: "float64 \<Rightarrow> buffer \<Rightarrow> buffer" where
  "buffer_WriteFloat64 val b = b @ go_FormatFloat6 val"

section \<open>Lines\<close>

text \<open>
  What \<open>flushUint64\<close> and \<open>flushFloat64\<close> put into the buffer they take from the pool, which is empty
  because each buffer is reset before it goes back.
\<close>

definition uint_line :: "string \<Rightarrow> string \<Rightarrow> u64 \<Rightarrow> buffer" where
  "uint_line name suffix u =
     buffer_WriteString suffix (buffer_WriteUnit64 u (buffer_WriteChar (CHR '':'') (buffer_WriteString name [])))"

definition float_line :: "string \<Rightarrow> string \<Rightarrow> float64 \<Rightarrow> buffer" where
  "float_line name suffix f =
     buffer_WriteString suffix (buffer_WriteFloat64 f (buffer_WriteChar (CHR '':'') (buffer_WriteString name [])))"

abbreviation newline :: char where
  "newline \<equiv> CHR 0x0A"

definition counter_line :: "string \<Rightarrow> u64 \<Rightarrow> buffer" where
  "counter_line name value = uint_line name (''|c'' @ [newline]) value"

definition gauge_line :: "string \<Rightarrow> u64 \<Rightarrow> buffer" where
  "gauge_line name value = uint_line name (''|g'' @ [newline]) value"

definition timer_line :: "string \<Rightarrow> float64 \<Rightarrow> buffer" where
  "timer_line name value =
     (if f64_le 0 value \<and> f64_lt value (f64_of_int (2 ^ 64 - 1)) \<and> f64_eq (f64_trunc value) value
      then uint_line name (''|ms'' @ [newline]) (f64_to_uint64 value)
      else float_line name (''|ms'' @ [newline]) value)"

text \<open>The line of a call; \<open>Flush\<close> writes none.\<close>

definition call_line :: "sink_call \<Rightarrow> buffer" where
  "call_line c =
     (case c of
        FlushCounter n v \<Rightarrow> counter_line n v
      | FlushGauge n v \<Rightarrow> gauge_line n v
      | FlushTimer n w \<Rightarrow> timer_line n w
      | FlushSink \<Rightarrow> [])"

lemmas line_defs = call_line_def counter_line_def gauge_line_def timer_line_def uint_line_def
  float_line_def buffer_WriteString_def buffer_WriteChar_def buffer_WriteUnit64_def
  buffer_WriteFloat64_def

section \<open>A reader\<close>

text \<open>
  The reader of a statsd server, as far as the library's lines need it: the name ends at the last
  colon, the number at the bar after it.
\<close>

definition parse_unsigned :: "string \<Rightarrow> rat option" where
  "parse_unsigned s =
     (case parse_digits 0 (takeWhile (\<lambda>c. c \<noteq> CHR ''.'') s) of
        None \<Rightarrow> None
      | Some a \<Rightarrow>
          (case dropWhile (\<lambda>c. c \<noteq> CHR ''.'') s of
             [] \<Rightarrow> Some (of_nat a)
           | _ # ds \<Rightarrow> map_option (\<lambda>b. of_nat a + of_nat b / 10 ^ length ds) (parse_digits 0 ds)))"

definition parse_number :: "string \<Rightarrow> rat option" where
  "parse_number s =
     (case s of [] \<Rightarrow> None
      | c # cs \<Rightarrow> if c = CHR ''-'' then map_option uminus (parse_unsigned cs) else parse_unsigned s)"

definition read_line :: "string \<Rightarrow> (string \<times> rat \<times> string) option" where
  "read_line l =
     (case dropWhile (\<lambda>c. c \<noteq> CHR '':'') (rev l) of
        [] \<Rightarrow> None
      | _ # n \<Rightarrow>
          let v = rev (takeWhile (\<lambda>c. c \<noteq> CHR '':'') (rev l)) in
          (case dropWhile (\<lambda>c. c \<noteq> CHR ''|'') v of
             [] \<Rightarrow> None
           | _ # t \<Rightarrow> map_option (\<lambda>r. (rev n, r, t)) (parse_number (takeWhile (\<lambda>c. c \<noteq> CHR ''|'') v))))"

text \<open>The lines of a stream; what follows the last newline is returned as it is.\<close>

fun split_lines :: "string \<Rightarrow> string list \<times> string" where
  "split_lines [] = ([], [])"
| "split_lines (c # cs) =
     (let (ls, rest) = split_lines cs in
      if c = newline then ([] # ls, rest)
      else case ls of [] \<Rightarrow> ([], c # rest) | l # ls' \<Rightarrow> ((c # l) # ls', rest))"

definition read_stream :: "string \<Rightarrow> (string \<times> rat \<times> string) option list" where
  "read_stream s = map read_line (fst (split_lines s))"

lemma split_lines_line:
  "newline \<notin> set l \<Longrightarrow> split_lines (l @ newline # s) = (l # fst (split_lines s), snd (split_lines s))"
  by (induction l) (auto split: prod.split)

lemma read_stream_line: "newline \<notin> set l \<Longrightarrow> read_stream (l @ newline # s) = read_line l # read_stream s"
  by (simp add: read_stream_def split_lines_line)

lemma read_stream_Nil [simp]: "read_stream [] = []"
  by (simp add: read_stream_def)

lemma span_to:
  assumes "x \<notin> set w"
  shows "dropWhile (\<lambda>c. c \<noteq> x) (w @ x # r) = x # r" and "takeWhile (\<lambda>c. c \<noteq> x) (w @ x # r) = w"
    and "dropWhile (\<lambda>c. c \<noteq> x) w = []" and "takeWhile (\<lambda>c. c \<noteq> x) w = w"
  using assms by (induction w) auto

lemma read_line_parts:
  assumes "CHR '':'' \<notin> set v" and "CHR ''|'' \<notin> set v" and "CHR '':'' \<notin> set t"
  shows "read_line (n @ CHR '':'' # v @ CHR ''|'' # t) = map_option (\<lambda>r. (n, r, t)) (parse_number v)"
proof -
  have "CHR '':'' \<notin> set (rev (v @ CHR ''|'' # t))" using assms by simp
  note w = span_to [OF this]
  have "rev (n @ CHR '':'' # v @ CHR ''|'' # t) = rev (v @ CHR ''|'' # t) @ CHR '':'' # rev n" by simp
  then show ?thesis unfolding read_line_def
    by (simp only: w list.case rev_rev_ident Let_def span_to [OF assms(2)])
qed

section \<open>Reading numbers back\<close>

lemma parse_fixed_digits: "parse_digits acc (fixed_digits n k) = Some (acc * 10 ^ n + k mod 10 ^ n)"
proof (induction n arbitrary: acc k)
  case (Suc n)
  have "k div 10 mod 10 ^ n * 10 + k mod 10 = k mod (10 * 10 ^ n)"
    by (simp add: mod_mult2_eq)
  then show ?case by (simp add: Suc parse_digits_append algebra_simps)
qed simp

lemma length_fixed_digits [simp]: "length (fixed_digits n k) = n"
  by (induction n arbitrary: k) simp_all

lemma fixed_digits_digits: "c \<in> set (fixed_digits n k) \<Longrightarrow> char_digit c \<noteq> None"
  by (induction n arbitrary: k) auto

lemma parse_unsigned_nat: "parse_unsigned (format_nat n) = Some (of_nat n)"
  using format_nat_no_separator [of "CHR ''.''" n]
  by (simp add: parse_unsigned_def span_to parse_format_nat)

lemma parse_unsigned_fixed:
  "parse_unsigned (format_nat a @ CHR ''.'' # fixed_digits n b) =
     Some (of_nat a + of_nat (b mod 10 ^ n) / 10 ^ n)"
  using format_nat_no_separator [of "CHR ''.''" a]
  by (simp add: parse_unsigned_def span_to parse_format_nat parse_fixed_digits)

lemma parse_number_format:
  "parse_number (format_nat a @ s) = parse_unsigned (format_nat a @ s)"
proof (cases "format_nat a @ s")
  case (Cons c cs)
  then have "c \<in> set (format_nat a)" by (cases "format_nat a") auto
  then have "c \<noteq> CHR ''-''" using format_nat_no_separator [of "CHR ''-''" a] by auto
  with Cons show ?thesis by (simp add: parse_number_def)
qed simp

lemma parse_number_uint: "parse_number (go_FormatUint v) = Some (of_nat (unat v))"
  using parse_number_format [of "unat v" "[]"] by (simp add: go_FormatUint_def parse_unsigned_nat)

section \<open>Rounding to six decimals\<close>

lemma round_half_even_near: "\<bar>of_nat (round_half_even n s) - of_nat n / 2 ^ s\<bar> \<le> (1 / 2 :: rat)"
  using round_ratio_near [of "2 ^ s" n] by (simp add: round_half_even_ratio)

lemma f64_val_units:
  assumes "\<not> f64_is_nan w" and "\<not> f64_is_inf w"
  shows "f64_val w = Some (of_int (f64_signed_units w) / 2 ^ 1074)"
proof -
  have e: "f64_exp w \<noteq> 2047" using assms by (auto simp: f64_is_nan_def f64_is_inf_def)
  have "f64_magnitude w = of_nat (f64_units w) / 2 ^ 1074"
  proof (cases "f64_exp w")
    case (Suc k)
    have "(2 :: rat) ^ Suc k / 2 ^ 1075 = 2 ^ k / 2 ^ 1074" by simp
    then have "x * 2 ^ Suc k / 2 ^ 1075 = x * 2 ^ k / 2 ^ 1074" for x :: rat
      by (metis times_divide_eq_right)
    then show ?thesis unfolding f64_magnitude_def f64_units_def Suc by (simp only: diff_Suc_1 of_nat_mult of_nat_power of_nat_numeral nat.distinct if_False)
  qed (simp add: f64_magnitude_def f64_units_def)
  then show ?thesis using e by (simp add: f64_val_def f64_decode_def f64_signed_units_def)
qed

lemma scale_millionths: "\<bar>m - x * 10 ^ 6\<bar> \<le> (1 / 2 :: rat) \<Longrightarrow> \<bar>m / 10 ^ 6 - x\<bar> \<le> 1 / 2000000"
  by (simp add: abs_le_iff field_simps)

lemma f64_micros_near: "\<bar>of_nat (f64_micros w) / 10 ^ 6 - of_nat (f64_units w) / 2 ^ 1074\<bar> \<le> (1 / 2000000 :: rat)"
proof (rule scale_millionths)
  show "\<bar>of_nat (f64_micros w) - of_nat (f64_units w) / 2 ^ 1074 * 10 ^ 6\<bar> \<le> (1 / 2 :: rat)"
    using round_half_even_near [of "f64_units w * 10 ^ 6" 1074]
    by (simp only: f64_micros_def of_nat_mult of_nat_power of_nat_numeral times_divide_eq_left)
qed

lemma f64_micros_whole: "f64_units w = k * 2 ^ 1074 \<Longrightarrow> f64_micros w = k * 10 ^ 6"
  unfolding f64_micros_def using round_half_even_exact [of "k * 10 ^ 6" 1074]
  by (simp only: mult.assoc mult.commute [of "10 ^ 6"])

definition f64_fixed :: "float64 \<Rightarrow> rat" where
  "f64_fixed w = (if f64_sign w then - 1 else 1) * (of_nat (f64_micros w) / 10 ^ 6)"

lemma parse_FormatFloat6:
  assumes "\<not> f64_is_nan w" and "\<not> f64_is_inf w"
  shows "parse_number (go_FormatFloat6 w) = Some (f64_fixed w)"
proof -
  let ?m = "f64_micros w" and ?a = "format_nat (f64_micros w div 10 ^ 6)"
    and ?b = "CHR ''.'' # fixed_digits 6 (f64_micros w mod 10 ^ 6)"
  have "of_nat (?m div 10 ^ 6 * 10 ^ 6 + ?m mod 10 ^ 6) = (of_nat ?m :: rat)"
    by (simp only: div_mult_mod_eq)
  then have "of_nat (?m div 10 ^ 6) * 10 ^ 6 + of_nat (?m mod 10 ^ 6) = (of_nat ?m :: rat)"
    by (simp only: of_nat_add of_nat_mult of_nat_power of_nat_numeral)
  then have "of_nat (?m div 10 ^ 6) + of_nat (?m mod 10 ^ 6) / 10 ^ 6 = (of_nat ?m / 10 ^ 6 :: rat)"
    by (simp only: eq_divide_eq distrib_right) simp
  then have u: "parse_unsigned (?a @ ?b) = Some (of_nat ?m / 10 ^ 6)"
    by (simp only: parse_unsigned_fixed mod_mod_trivial)
  show ?thesis
  proof (cases "f64_sign w")
    case True
    then have "go_FormatFloat6 w = CHR ''-'' # ?a @ ?b" using assms by (simp add: go_FormatFloat6_def)
    with u True show ?thesis by (simp add: parse_number_def f64_fixed_def)
  next
    case False
    then have "go_FormatFloat6 w = ?a @ ?b" using assms by (simp add: go_FormatFloat6_def)
    with u False show ?thesis by (simp add: parse_number_format f64_fixed_def)
  qed
qed

lemma f64_fixed_near:
  assumes "f64_val w = Some x"
  shows "\<bar>f64_fixed w - x\<bar> \<le> 1 / 2000000"
proof -
  have fin: "\<not> f64_is_nan w" "\<not> f64_is_inf w" using assms
    by (auto simp: f64_val_def f64_decode_def f64_is_nan_def f64_is_inf_def split: if_splits)
  let ?u = "of_nat (f64_units w) / 2 ^ 1074 :: rat"
  have "x = (if f64_sign w then - ?u else ?u)"
    using f64_val_units [OF fin] assms by (cases "f64_sign w") (simp_all add: f64_signed_units_def)
  moreover have "\<bar>- a - - b\<bar> = \<bar>a - b\<bar>" for a b :: rat by simp
  ultimately show ?thesis using f64_micros_near [of w] unfolding f64_fixed_def
    by (cases "f64_sign w") (simp_all only: if_True if_False mult_minus1 mult_1)
qed

section \<open>Whole numbers\<close>

lemma unat_bits: "unat (w :: float64) = unat w div 2 ^ 63 * 2 ^ 63 + f64_exp w * 2 ^ 52 + f64_frac w"
proof -
  have "unat w = unat w div 2 ^ 52 * 2 ^ 52 + f64_frac w" by (simp only: f64_frac_def div_mult_mod_eq)
  moreover have "unat w div 2 ^ 52 = unat w div 2 ^ 52 div 2 ^ 11 * 2 ^ 11 + f64_exp w"
    by (simp only: f64_exp_def div_mult_mod_eq)
  moreover have "unat w div 2 ^ 52 div 2 ^ 11 = unat w div 2 ^ 63" by (simp flip: div_mult2_eq)
  ultimately show ?thesis by (simp add: algebra_simps)
qed

lemma clear_low_part: "(a * 2 ^ j + m) div 2 ^ j * 2 ^ j = a * 2 ^ j + m div 2 ^ j * (2 ^ j :: nat)"
  by (simp add: distrib_right)

lemma f64_trunc_whole:
  assumes "f64_eq (f64_trunc w) w" and "\<not> f64_is_inf w"
  shows "f64_units w mod 2 ^ 1074 = 0"
proof -
  let ?s = "unat w div 2 ^ 63"
  have "unat w < 2 ^ 64" by (rule order.strict_trans2 [OF unsigned_less]) simp
  then have s: "?s < 2" by (simp add: less_mult_imp_div_less)
  have m: "f64_frac w < 2 ^ 52" by (simp add: f64_frac_def)
  consider (small) "f64_exp w < 1023" | (mid) "1023 \<le> f64_exp w" "f64_exp w < 1075" | (big) "1075 \<le> f64_exp w"
    by linarith
  then show ?thesis
  proof cases
    case small
    have z: "f64_trunc w = of_nat (?s * 2 ^ 63 + 0 * 2 ^ 52 + 0)" using small by (simp add: f64_trunc_def)
    have "f64_exp (f64_trunc w) = 0" "f64_frac (f64_trunc w) = 0"
      unfolding z by (rule f64_fields; use s in simp)+
    then show ?thesis using assms by (auto simp: f64_eq_def f64_signed_units_def f64_units_def split: if_splits)
  next
    case mid
    let ?j = "1075 - f64_exp w"
    let ?m = "f64_frac w div 2 ^ ?j * 2 ^ ?j"
    have j: "?j \<le> 52" using mid by simp
    have e: "f64_exp w < 2047" "f64_exp w \<noteq> 0" using mid by simp_all
    have "2 ^ 63 = (2 :: nat) ^ (63 - ?j) * 2 ^ ?j" "2 ^ 52 = (2 :: nat) ^ (52 - ?j) * 2 ^ ?j"
      using j by (simp_all flip: power_add)
    then have u: "unat w = (?s * 2 ^ (63 - ?j) + f64_exp w * 2 ^ (52 - ?j)) * 2 ^ ?j + f64_frac w"
      and split: "?s * 2 ^ 63 + f64_exp w * 2 ^ 52 = (?s * 2 ^ (63 - ?j) + f64_exp w * 2 ^ (52 - ?j)) * 2 ^ ?j"
      using unat_bits [of w] by (simp_all only: distrib_right mult.assoc)
    have "unat w div 2 ^ ?j * 2 ^ ?j = ?s * 2 ^ 63 + f64_exp w * 2 ^ 52 + ?m"
      unfolding split by (rule arg_cong [OF u, of "\<lambda>x. x div 2 ^ ?j * 2 ^ ?j", unfolded clear_low_part])
    moreover have "\<not> f64_exp w < 1023" using mid by simp
    ultimately have t: "f64_trunc w = of_nat (?s * 2 ^ 63 + f64_exp w * 2 ^ 52 + ?m)"
      using mid(2) by (simp only: f64_trunc_def if_True if_False)
    have "?m \<le> f64_frac w" by simp
    then have "?m < 2 ^ 52" using m by (rule le_less_trans)
    note f = f64_fields [OF e(1) this s, folded t]
    have sign: "f64_sign w \<longleftrightarrow> ?s = 1" using s by (auto simp: f64_sign_def)
    have "f64_signed_units (f64_trunc w) = f64_signed_units w"
      using assms by (auto simp: f64_eq_def)
    then have "f64_units (f64_trunc w) = f64_units w"
      using f(1) sign by (simp add: f64_signed_units_def split: if_splits)
    then have "(2 ^ 52 + ?m) * 2 ^ (f64_exp w - 1) = (2 ^ 52 + f64_frac w) * 2 ^ (f64_exp w - 1)"
      using e(2) unfolding f64_units_def f by simp
    then have "2 ^ 52 + ?m = 2 ^ 52 + f64_frac w"
      by (rule mult_right_cancel [THEN iffD1, rotated]) simp
    then have "f64_frac w = f64_frac w div 2 ^ ?j * 2 ^ ?j" by (simp only: add_left_cancel)
    then have "2 ^ 52 + f64_frac w = (2 ^ (52 - ?j) + f64_frac w div 2 ^ ?j) * 2 ^ ?j"
      using j by (simp add: distrib_right flip: power_add)
    then have "f64_units w = (2 ^ (52 - ?j) + f64_frac w div 2 ^ ?j) * 2 ^ ?j * 2 ^ (f64_exp w - 1)"
      using e(2) by (simp only: f64_units_def if_False)
    moreover have "?j + (f64_exp w - 1) = 1074" using mid by simp
    ultimately have "f64_units w = (2 ^ (52 - ?j) + f64_frac w div 2 ^ ?j) * 2 ^ 1074"
      by (simp only: mult.assoc power_add [symmetric])
    then show ?thesis by simp
  next
    case big
    then have "f64_exp w - 1 = 1074 + (f64_exp w - 1075)" by simp
    then have "2 ^ (f64_exp w - 1) = (2 :: nat) ^ 1074 * 2 ^ (f64_exp w - 1075)"
      by (simp only: power_add)
    then have "f64_units w = 2 ^ 1074 * ((2 ^ 52 + f64_frac w) * 2 ^ (f64_exp w - 1075))"
      using big by (simp only: f64_units_def if_False mult.left_commute) simp
    then show ?thesis by simp
  qed
qed


text \<open>What the reader finds in a line.\<close>

definition reads_as :: "sink_call \<Rightarrow> string \<times> rat \<times> string \<Rightarrow> bool" where
  "reads_as c = (\<lambda>(n, r, t).
     (case c of
        FlushCounter m v \<Rightarrow> n = m \<and> t = ''c'' \<and> r = of_nat (unat v)
      | FlushGauge m v \<Rightarrow> n = m \<and> t = ''g'' \<and> r = of_nat (unat v)
      | FlushTimer m w \<Rightarrow> n = m \<and> t = ''ms'' \<and>
          (\<exists>x. f64_val w = Some x \<and> \<bar>r - x\<bar> \<le> 1 / 2000000 \<and> (x \<in> \<int> \<longrightarrow> r = x))
      | FlushSink \<Rightarrow> False))"

text \<open>The lines without the newline that ends them.\<close>

definition number_text :: "sink_call \<Rightarrow> string \<times> string \<times> string" where
  "number_text c =
     (case c of
        FlushCounter n v \<Rightarrow> (n, go_FormatUint v, ''c'')
      | FlushGauge n v \<Rightarrow> (n, go_FormatUint v, ''g'')
      | FlushTimer n w \<Rightarrow>
          (n, if f64_le 0 w \<and> f64_lt w (f64_of_int (2 ^ 64 - 1)) \<and> f64_eq (f64_trunc w) w
              then go_FormatUint (f64_to_uint64 w) else go_FormatFloat6 w, ''ms'')
      | FlushSink \<Rightarrow> ([], [], []))"

lemma call_line_parts:
  assumes "c \<noteq> FlushSink" and "number_text c = (n, v, t)"
  shows "call_line c = (n @ CHR '':'' # v @ CHR ''|'' # t) @ [newline]"
  using assms by (auto simp: number_text_def line_defs split: sink_call.splits)

lemma f64_val_fin: "f64_val w = Some x \<Longrightarrow> \<not> f64_is_nan w \<and> \<not> f64_is_inf w"
  by (auto simp: f64_val_def f64_decode_def f64_is_nan_def f64_is_inf_def split: if_splits)

lemma units_of_2_64: "f64_signed_units (f64_of_int (2 ^ 64 - 1)) = 2 ^ 64 * 2 ^ 1074"
proof -
  have L: "bit_length (2 ^ 64 - 1) = 64" using bit_length_unique [of 63 "2 ^ 64 - 1"] by simp
  have r: "round_half_even (2 ^ 64 - 1) 11 = 2 ^ 53" by (simp add: round_half_even_def Let_def)
  have "nat (2 ^ 64 - 1) = 2 ^ 64 - 1" by simp
  then have "f64_of_int (2 ^ 64 - 1) = of_nat (f64_of_nat (2 ^ 64 - 1))" by (simp only: f64_of_int_def) simp
  also have "f64_of_nat (2 ^ 64 - 1) = 0 * 2 ^ 63 + 1087 * 2 ^ 52 + 0"
    unfolding f64_of_nat_def L Let_def using r by simp
  finally have w: "f64_of_int (2 ^ 64 - 1) = of_nat (0 * 2 ^ 63 + 1087 * 2 ^ 52 + 0)" .
  have "f64_sign (f64_of_int (2 ^ 64 - 1)) \<longleftrightarrow> (0 :: nat) = 1"
    "f64_exp (f64_of_int (2 ^ 64 - 1)) = 1087" "f64_frac (f64_of_int (2 ^ 64 - 1)) = 0"
    unfolding w by (rule f64_fields; simp)+
  then show ?thesis by (simp add: f64_signed_units_def f64_units_def)
qed

lemma whole_timer:
  assumes "f64_val w = Some x" and "f64_le 0 w" and "f64_lt w (f64_of_int (2 ^ 64 - 1))"
    and "f64_eq (f64_trunc w) w"
  shows "x = of_nat (unat (f64_to_uint64 w))"
proof -
  note fin = f64_val_fin [OF assms(1)]
  have zero: "f64_signed_units 0 = 0" by (simp add: f64_signed_units_def f64_units_def f64_exp_def f64_frac_def)
  have u: "f64_signed_units w = int (f64_units w)"
    using assms(2) by (simp add: f64_le_def zero) (simp add: f64_signed_units_def split: if_splits)
  define k where "k = f64_units w div 2 ^ 1074"
  have "f64_units w mod 2 ^ 1074 = 0" using assms(4) fin by (intro f64_trunc_whole) simp_all
  then have k: "f64_units w = k * 2 ^ 1074" unfolding k_def by (metis add.right_neutral div_mult_mod_eq)
  have "int (f64_units w) < 2 ^ 64 * 2 ^ 1074" using assms(3) u by (simp only: f64_lt_def units_of_2_64)
  then have "int k * 2 ^ 1074 < 2 ^ 64 * 2 ^ 1074" unfolding k by (simp only: of_nat_mult of_nat_power of_nat_numeral)
  then have "int k < 2 ^ 64" by (rule mult_right_less_imp_less) simp
  then have "k < 2 ^ 64" by simp
  then have "unat (f64_to_uint64 w) = k"
    unfolding f64_to_uint64_def k_def [symmetric] by (simp add: unat_of_nat)
  moreover have "x = of_nat k" using f64_val_units [of w] fin assms(1) unfolding u k by simp
  ultimately show ?thesis by simp
qed

lemma fixed_whole:
  assumes "f64_val w = Some x" and "x \<in> \<int>"
  shows "f64_fixed w = x"
proof -
  note fin = f64_val_fin [OF assms(1)]
  obtain z where z: "x = of_int z" using assms(2) by (auto elim: Ints_cases)
  have "of_int (f64_signed_units w) / 2 ^ 1074 = (of_int z :: rat)"
    using f64_val_units [of w] fin assms(1) z by simp
  then have "of_int (f64_signed_units w) = (of_int (z * 2 ^ 1074) :: rat)" by (simp add: field_simps)
  then have s: "f64_signed_units w = z * 2 ^ 1074" by (simp only: of_int_eq_iff)
  have "int (f64_units w) = \<bar>f64_signed_units w\<bar>" by (simp add: f64_signed_units_def)
  then have "int (f64_units w) = int (nat \<bar>z\<bar> * 2 ^ 1074)" unfolding s by (simp add: abs_mult)
  then have u: "f64_units w = nat \<bar>z\<bar> * 2 ^ 1074" by (simp only: of_nat_eq_iff)
  have "f64_sign w \<Longrightarrow> z \<le> 0" "\<not> f64_sign w \<Longrightarrow> 0 \<le> z"
    using s by (auto simp: f64_signed_units_def split: if_splits)
  then show ?thesis unfolding f64_fixed_def f64_micros_whole [OF u] z by (cases "f64_sign w") simp_all
qed

lemma text_chars:
  assumes "char_digit c = None" and "c \<noteq> CHR ''-''" and "c \<noteq> CHR ''.''"
  shows "c \<notin> set (go_FormatUint v)"
    and "f64_val w = Some x \<Longrightarrow> c \<notin> set (go_FormatFloat6 w)"
proof -
  show "c \<notin> set (go_FormatUint v)" using format_nat_no_separator [OF assms(1)] by (simp add: go_FormatUint_def)
  have "c \<notin> set (fixed_digits 6 k)" for k using fixed_digits_digits assms(1) by blast
  then show "c \<notin> set (go_FormatFloat6 w)" if "f64_val w = Some x"
    using f64_val_fin [OF that] assms format_nat_no_separator [OF assms(1)] by (simp add: go_FormatFloat6_def)
qed

text \<open>The calls that can be read back: a line feed in a name would end its line early.\<close>

definition readable :: "sink_call \<Rightarrow> bool" where
  "readable c =
     (case c of
        FlushCounter n v \<Rightarrow> newline \<notin> set n
      | FlushGauge n v \<Rightarrow> newline \<notin> set n
      | FlushTimer n w \<Rightarrow> newline \<notin> set n \<and> f64_val w \<noteq> None
      | FlushSink \<Rightarrow> False)"

lemma number_text_reads:
  assumes "readable c" and "number_text c = (n, v, t)"
  shows "\<exists>r. parse_number v = Some r \<and> reads_as c (n, r, t)"
proof (cases c)
  case (FlushTimer m w)
  then obtain x where x: "f64_val w = Some x" using assms(1) by (auto simp: readable_def)
  note fin = f64_val_fin [OF x]
  show ?thesis
  proof (cases "f64_le 0 w \<and> f64_lt w (f64_of_int (2 ^ 64 - 1)) \<and> f64_eq (f64_trunc w) w")
    case True
    then have "n = m" "v = go_FormatUint (f64_to_uint64 w)" "t = ''ms''"
      using assms(2) FlushTimer by (simp_all add: number_text_def)
    moreover have "x = of_nat (unat (f64_to_uint64 w))" using whole_timer [OF x] True by blast
    ultimately show ?thesis using x FlushTimer by (simp add: reads_as_def parse_number_uint)
  next
    case False
    then have "n = m" "v = go_FormatFloat6 w" "t = ''ms''"
      using assms(2) FlushTimer by (simp_all only: number_text_def sink_call.case if_False prod.inject)
    then show ?thesis using x FlushTimer parse_FormatFloat6 [of w] fin f64_fixed_near [OF x] fixed_whole [OF x]
      by (simp add: reads_as_def)
  qed
qed (use assms in \<open>auto simp: number_text_def reads_as_def parse_number_uint readable_def\<close>)

lemma number_text_chars:
  assumes "readable c" and "number_text c = (n, v, t)" and "char_digit d = None"
    and "d \<noteq> CHR ''-''" and "d \<noteq> CHR ''.''"
  shows "d \<notin> set v"
  using assms text_chars [OF assms(3-5)]
  by (auto simp: number_text_def readable_def split: sink_call.splits if_splits)

theorem read_call_line:
  assumes "readable c"
  shows "\<exists>r. reads_as c r \<and> read_stream (call_line c @ s) = Some r # read_stream s"
proof -
  obtain n v t where p: "number_text c = (n, v, t)" by (cases "number_text c") auto
  obtain r where r: "parse_number v = Some r" "reads_as c (n, r, t)"
    using number_text_reads [OF assms p] by blast
  have line: "call_line c = (n @ CHR '':'' # v @ CHR ''|'' # t) @ [newline]"
    by (rule call_line_parts [OF _ p]) (use assms in \<open>auto simp: readable_def\<close>)
  have "char_digit newline = None" by (simp add: char_digit_def)
  then have v: "CHR '':'' \<notin> set v" "CHR ''|'' \<notin> set v" "newline \<notin> set v"
    using number_text_chars [OF assms p] by simp_all
  have nt: "newline \<notin> set n" "newline \<notin> set t" "CHR '':'' \<notin> set t"
    using assms p by (auto simp: number_text_def readable_def split: sink_call.splits)
  have "newline \<notin> set (n @ CHR '':'' # v @ CHR ''|'' # t)" using v nt by simp
  then have "read_stream (call_line c @ s) = read_line (n @ CHR '':'' # v @ CHR ''|'' # t) # read_stream s"
    unfolding line using read_stream_line [of "n @ CHR '':'' # v @ CHR ''|'' # t" s] by simp
  then show ?thesis using r read_line_parts [OF v(1,2) nt(3), of n] by auto
qed

end
