(* ===== verification/Settings.thy ===== *)
theory Settings
  imports Metrics
begin

text \<open>
  \<open>settings.go\<close> and the constructors of \<open>stats.go\<close> that read the environment.  The environment is
  a function from names to values, the empty string for a variable that is not set, which is what
  \<open>os.Getenv\<close> returns.
\<close>

type_synonym env = "string \<Rightarrow> string"

section \<open>Parsing\<close>

datatype num_error = ErrSyntax | ErrRange

text \<open>
  The loop of \<open>strconv.ParseUint\<close>: it stops at the first character that is no digit, or as soon as the
  value does not fit into 64 bits.
\<close>

fun scan_digits :: "nat \<Rightarrow> string \<Rightarrow> num_error + nat" where
  "scan_digits acc [] = Inr acc"
| "scan_digits acc (c # cs) =
     (case char_digit c of
        None \<Rightarrow> Inl ErrSyntax
      | Some d \<Rightarrow> if 10 * acc + d < 2 ^ 64 then scan_digits (10 * acc + d) cs else Inl ErrRange)"

definition parse_signed :: "bool \<Rightarrow> string \<Rightarrow> num_error + int" where
  "parse_signed neg digits =
     (if digits = [] then Inl ErrSyntax
      else case scan_digits 0 digits of
             Inl err \<Rightarrow> Inl err
           | Inr n \<Rightarrow>
               let i = (if neg then - int n else int n)
               in if is_int64 i then Inr i else Inl ErrRange)"

text \<open>\<open>strconv.Atoi\<close>: an optional sign, decimal digits, the range of \<open>int\<close>.\<close>

definition go_Atoi :: "string \<Rightarrow> num_error + int" where
  "go_Atoi s =
     (case s of
        [] \<Rightarrow> Inl ErrSyntax
      | c # cs \<Rightarrow> if c = CHR ''-'' then parse_signed True cs
                  else if c = CHR ''+'' then parse_signed False cs
                  else parse_signed False s)"

definition go_ParseBool :: "string \<Rightarrow> num_error + bool" where
  "go_ParseBool s =
     (if s \<in> {''1'', ''t'', ''T'', ''true'', ''TRUE'', ''True''} then Inr True
      else if s \<in> {''0'', ''f'', ''F'', ''false'', ''FALSE'', ''False''} then Inr False
      else Inl ErrSyntax)"

section \<open>Environment variables\<close>

record envError =
  env_Key :: string
  env_Value :: string
  env_Err :: num_error

definition envOr :: "env \<Rightarrow> string \<Rightarrow> string \<Rightarrow> string" where
  "envOr e key def = (if e key \<noteq> [] then e key else def)"

text \<open>A Go result pair: the value, and the error or none.\<close>

definition envInt :: "env \<Rightarrow> string \<Rightarrow> int \<Rightarrow> int \<times> envError option" where
  "envInt e key def =
     (let s = e key in
      if s = [] then (def, None)
      else case go_Atoi s of
             Inl err \<Rightarrow> (def, Some \<lparr>env_Key = key, env_Value = s, env_Err = err\<rparr>)
           | Inr i \<Rightarrow> (i, None))"

definition envBool :: "env \<Rightarrow> string \<Rightarrow> bool \<Rightarrow> bool \<times> envError option" where
  "envBool e key def =
     (let s = e key in
      if s = [] then (def, None)
      else case go_ParseBool s of
             Inl err \<Rightarrow> (def, Some \<lparr>env_Key = key, env_Value = s, env_Err = err\<rparr>)
           | Inr b \<Rightarrow> (b, None))"

section \<open>Settings\<close>

definition DefaultUseStatsd :: bool where "DefaultUseStatsd = True"
definition DefaultStatsdHost :: string where "DefaultStatsdHost = ''localhost''"
definition DefaultStatsdProtocol :: string where "DefaultStatsdProtocol = ''tcp''"
definition DefaultStatsdPort :: int where "DefaultStatsdPort = 8125"
definition DefaultFlushIntervalS :: int where "DefaultFlushIntervalS = 5"
definition DefaultLoggingSinkDisabled :: bool where "DefaultLoggingSinkDisabled = False"
definition DefaultPruneIdleSeconds :: int where "DefaultPruneIdleSeconds = 0"

record Settings =
  UseStatsd :: bool
  StatsdHost :: string
  StatsdProtocol :: string
  StatsdPort :: int
  FlushIntervalS :: int
  LoggingSinkDisabled :: bool
  PruneIdleSeconds :: int

text \<open>What a constructor panics with.\<close>

datatype panic = Panic_env envError | Panic_ticker

definition check_env :: "'a \<times> envError option \<Rightarrow> ('a \<Rightarrow> panic + 'b) \<Rightarrow> panic + 'b" where
  "check_env r k = (case snd r of Some err \<Rightarrow> Inl (Panic_env err) | None \<Rightarrow> k (fst r))"

definition GetSettings :: "env \<Rightarrow> panic + Settings" where
  "GetSettings e =
     check_env (envBool e ''USE_STATSD'' DefaultUseStatsd) (\<lambda>useStatsd.
     check_env (envInt e ''STATSD_PORT'' DefaultStatsdPort) (\<lambda>statsdPort.
     check_env (envInt e ''GOSTATS_FLUSH_INTERVAL_SECONDS'' DefaultFlushIntervalS) (\<lambda>flushIntervalS.
     check_env (envBool e ''GOSTATS_LOGGING_SINK_DISABLED'' DefaultLoggingSinkDisabled)
       (\<lambda>loggingSinkDisabled.
     check_env (envInt e ''GOSTATS_PRUNE_IDLE_SECONDS'' DefaultPruneIdleSeconds)
       (\<lambda>pruneIdleSeconds.
     Inr \<lparr>UseStatsd = useStatsd,
          StatsdHost = envOr e ''STATSD_HOST'' DefaultStatsdHost,
          StatsdProtocol = envOr e ''STATSD_PROTOCOL'' DefaultStatsdProtocol,
          StatsdPort = statsdPort,
          FlushIntervalS = flushIntervalS,
          LoggingSinkDisabled = loggingSinkDisabled,
          PruneIdleSeconds = pruneIdleSeconds\<rparr>)))))"

definition Second :: int where "Second = 1000000000"

definition FlushInterval :: "Settings \<Rightarrow> int" where
  "FlushInterval s = wrap_int64 (FlushIntervalS s * Second)"

section \<open>The number of idle flushes before pruning\<close>

definition MaxUint32 :: int where "MaxUint32 = 2 ^ 32 - 1"

definition pruneAfterFlushesFromEnv :: "env \<Rightarrow> u32" where
  "pruneAfterFlushesFromEnv e =
     (let (pruneIdleSeconds, err) = envInt e ''GOSTATS_PRUNE_IDLE_SECONDS'' DefaultPruneIdleSeconds in
      if err \<noteq> None \<or> pruneIdleSeconds \<le> 0 then 0
      else
        let (flushIntervalS, err) =
              envInt e ''GOSTATS_FLUSH_INTERVAL_SECONDS'' DefaultFlushIntervalS;
            flushIntervalS =
              (if err \<noteq> None \<or> flushIntervalS \<le> 0 then DefaultFlushIntervalS else flushIntervalS);
            n = go_div (wrap_int64 (wrap_int64 (pruneIdleSeconds + flushIntervalS) - 1))
                  flushIntervalS;
            n = (if n > MaxUint32 then MaxUint32 else n)
        in word_of_int n)"

section \<open>Stores from the environment\<close>

definition NewStore :: "env \<Rightarrow> bool \<Rightarrow> statStore" where
  "NewStore e fl = empty_store (pruneAfterFlushesFromEnv e) fl"

datatype sink_kind = NullSink | LoggingSink | TCPStatsdSink

text \<open>
  The sink, the store and the period of the ticker that drives its flushes.  \<open>time.NewTicker\<close>
  panics when the period is not positive.
\<close>

definition new_ticker :: "int \<Rightarrow> panic + int" where
  "new_ticker d = (if d \<le> 0 then Inl Panic_ticker else Inr d)"

definition NewDefaultStore :: "env \<Rightarrow> panic + (sink_kind \<times> statStore \<times> int)" where
  "NewDefaultStore e =
     (case GetSettings e of
        Inl p \<Rightarrow> Inl p
      | Inr settings \<Rightarrow>
          let (kind, period) =
                (if \<not> UseStatsd settings
                 then (if LoggingSinkDisabled settings then NullSink else LoggingSink, 10 * Second)
                 else (TCPStatsdSink, wrap_int64 (FlushIntervalS settings * Second)))
          in case new_ticker period of
               Inl p \<Rightarrow> Inl p
             | Inr d \<Rightarrow> Inr (kind, NewStore e True, d))"

section \<open>Facts\<close>

lemma scan_digits_Some: "parse_digits acc s = Some n \<Longrightarrow> n < 2 ^ 64 \<Longrightarrow> acc \<le> n \<and> scan_digits acc s = Inr n"
proof (induction s arbitrary: acc)
  case (Cons c cs)
  then obtain d where d: "char_digit c = Some d" "parse_digits (10 * acc + d) cs = Some n"
    by (auto split: option.splits)
  from Cons.IH [OF d(2) Cons.prems(2)] show ?case using d(1) Cons.prems(2) by simp
qed simp

lemma scan_format_nat: "n < 2 ^ 64 \<Longrightarrow> scan_digits 0 (format_nat n) = Inr n"
  using scan_digits_Some [OF parse_format_nat] by blast

lemma parse_signed_nat: "is_int64 (int n) \<Longrightarrow> parse_signed False (format_nat n) = Inr (int n)"
  by (simp add: parse_signed_def scan_format_nat)

lemma parse_signed_neg: "is_int64 (- int n) \<Longrightarrow> parse_signed True (format_nat n) = Inr (- int n)"
  by (simp add: parse_signed_def scan_format_nat)

lemma format_nat_head:
  assumes "format_nat n = c # cs"
  shows "c \<noteq> CHR ''-'' \<and> c \<noteq> CHR ''+''"
proof -
  have "char_digit c \<noteq> None" using format_nat_digits [of c n] assms by simp
  then show ?thesis by (auto simp: char_digit_def)
qed

lemma Atoi_Itoa: "is_int64 i \<Longrightarrow> go_Atoi (go_Itoa i) = Inr i"
proof (cases "i < 0")
  case True
  moreover assume "is_int64 i"
  ultimately show ?thesis using parse_signed_neg [of "nat (- i)"]
    by (simp add: go_Itoa_def go_Atoi_def)
next
  case False
  moreover assume "is_int64 i"
  moreover obtain c cs where c: "format_nat (nat i) = c # cs"
    by (cases "format_nat (nat i)") auto
  ultimately show ?thesis using parse_signed_nat [of "nat i"] format_nat_head [OF c]
    by (simp add: go_Itoa_def go_Atoi_def)
qed

lemma envInt_Itoa:
  "e key = go_Itoa i \<Longrightarrow> is_int64 i \<Longrightarrow> envInt e key d = (i, None)"
proof -
  assume e: "e key = go_Itoa i" "is_int64 i"
  have "go_Itoa i \<noteq> []" by (simp add: go_Itoa_def)
  with e show ?thesis by (simp add: envInt_def Atoi_Itoa)
qed

lemma Atoi_range: "go_Atoi s = Inr i \<Longrightarrow> is_int64 i"
  by (auto simp: go_Atoi_def parse_signed_def Let_def split: list.splits sum.splits if_splits)

lemma envInt_range: "is_int64 d \<Longrightarrow> is_int64 (fst (envInt e key d))"
  using Atoi_range [of "e key"] by (auto simp: envInt_def Let_def split: sum.split)

text \<open>The effective values of the two variables, as \<open>pruneAfterFlushesFromEnv\<close> reads them.\<close>

definition prune_seconds :: "env \<Rightarrow> int" where
  "prune_seconds e =
     (let (p, err) = envInt e ''GOSTATS_PRUNE_IDLE_SECONDS'' DefaultPruneIdleSeconds
      in if err \<noteq> None \<or> p \<le> 0 then 0 else p)"

definition flush_seconds :: "env \<Rightarrow> int" where
  "flush_seconds e =
     (let (f, err) = envInt e ''GOSTATS_FLUSH_INTERVAL_SECONDS'' DefaultFlushIntervalS
      in if err \<noteq> None \<or> f \<le> 0 then DefaultFlushIntervalS else f)"

lemma seconds_range:
  "0 \<le> prune_seconds e" "prune_seconds e < 2 ^ 63" "0 < flush_seconds e" "flush_seconds e < 2 ^ 63"
proof -
  have "is_int64 (fst (envInt e ''GOSTATS_PRUNE_IDLE_SECONDS'' DefaultPruneIdleSeconds))"
    by (rule envInt_range) (simp add: DefaultPruneIdleSeconds_def)
  then show "0 \<le> prune_seconds e" "prune_seconds e < 2 ^ 63"
    by (auto simp: prune_seconds_def split: prod.split)
  have "is_int64 (fst (envInt e ''GOSTATS_FLUSH_INTERVAL_SECONDS'' DefaultFlushIntervalS))"
    by (rule envInt_range) (simp add: DefaultFlushIntervalS_def)
  then show "0 < flush_seconds e" "flush_seconds e < 2 ^ 63"
    by (auto simp: flush_seconds_def DefaultFlushIntervalS_def split: prod.split)
qed

lemma prune_flushes_eq:
  "pruneAfterFlushesFromEnv e =
     (let p = prune_seconds e; f = flush_seconds e in
      if p = 0 then 0
      else word_of_int (min (go_div (wrap_int64 (wrap_int64 (p + f) - 1)) f) MaxUint32))"
  by (auto simp: pruneAfterFlushesFromEnv_def prune_seconds_def flush_seconds_def Let_def min_def
      split: prod.splits)

lemma prune_flushes_ceil:
  assumes "prune_seconds e + flush_seconds e \<le> 2 ^ 63"
  shows "uint (pruneAfterFlushesFromEnv e) =
           min ((prune_seconds e + flush_seconds e - 1) div flush_seconds e) MaxUint32"
proof (cases "prune_seconds e = 0")
  case True
  then show ?thesis using seconds_range [of e]
    by (simp add: prune_flushes_eq MaxUint32_def)
next
  case False
  let ?p = "prune_seconds e" and ?f = "flush_seconds e"
  note r = seconds_range [of e]
  have w: "wrap_int64 (wrap_int64 (?p + ?f) - 1) = ?p + ?f - 1"
  proof (cases "?p + ?f = 2 ^ 63")
    case True
    then show ?thesis by (simp add: wrap_int64_def)
  next
    case False
    then show ?thesis using r assms by (simp add: wrap_int64_id)
  qed
  have d: "go_div (?p + ?f - 1) ?f = (?p + ?f - 1) div ?f" using r assms by (intro go_div_pos) auto
  have "0 \<le> (?p + ?f - 1) div ?f" using r by (simp add: pos_imp_zdiv_nonneg_iff)
  then show ?thesis using False
    by (simp add: prune_flushes_eq Let_def w d uint_word_of_int MaxUint32_def min_def)
qed

end
