(* ===== verification/NetSink.thy ===== *)
theory NetSink
  imports Wire Settings
begin

text \<open>
  The network sink of \<open>net_sink.go\<close>: lines are collected in a \<open>bufio.Writer\<close>, whose flushes put
  whole buffers into the channel \<open>outc\<close>; the goroutine \<open>run\<close> takes them out, writes them to the
  connection, and keeps one buffer for a second attempt when a write fails.

  The record holds, beside the state of the sink, what can be observed of it: the offers made to the
  channel, the events on the connection, the log and the requests that were answered.
\<close>

section \<open>State\<close>

datatype sink_error = Channel_full nat | Short_write | Conn_error

text \<open>
  What became of a part of the stream: it entered the channel, it was refused because the channel was
  full, or it was still in the \<open>bufio.Writer\<close> when that was reset.
\<close>

datatype offer = Accepted string | Refused string | Discarded string

datatype net_event = Connected string string | Closed | Sent string | Dropped string

datatype log_entry = Log_dropped u64 sink_error | Log_connection

text \<open>Where the goroutine \<open>run\<close> is: \<open>R_drop\<close> holds the rest of a buffer whose second attempt failed.\<close>

datatype run_pc =
    R_top | R_drain nat | R_retry | R_drop string | R_select | R_count nat | R_flush nat nat

text \<open>
  A request to flush stands for its channel.  It is the number of buffers that had entered \<open>outc\<close> when
  it was made; \<open>answered\<close> lists the requests whose channel was closed, with the state of the
  connection then.  \<open>mu\<close> is the line of the goroutine that holds the mutex between the two parts of
  \<open>writeBuffer\<close>.
\<close>

record netSink =
  conn :: bool
  outc :: "string list"
  outc_cap :: nat
  retryc :: "string list"
  mu :: "string option"
  wbuf :: string
  wsize :: nat
  werr :: "sink_error option"
  doFlush :: "nat list"
  droppedBytes :: u64
  logger :: "nat option"
  conf :: Settings
  run_at :: run_pc
  reconnectFailed :: bool
  offers :: "offer list"
  events :: "net_event list"
  logged :: "log_entry list"
  answered :: "(nat \<times> bool) list"

definition doFlush_cap :: nat where "doFlush_cap = 8"
definition retryc_cap :: nat where "retryc_cap = 1"
definition logOnEveryNDroppedBytes :: u64 where "logOnEveryNDroppedBytes = 2 ^ 15"
definition defaultBufferSizeTCP :: nat where "defaultBufferSizeTCP = 2 ^ 16"
definition defaultBufferSizeUDP :: nat where "defaultBufferSizeUDP = 1432"
definition approxMaxMemBytes :: nat where "approxMaxMemBytes = 2 ^ 22"

section \<open>Construction\<close>

datatype SinkOption =
  WithStatsdHost string | WithStatsdProtocol string | WithStatsdPort int | WithLogger nat

definition apply_option :: "SinkOption \<Rightarrow> netSink \<Rightarrow> netSink" where
  "apply_option opt sink =
     (case opt of
        WithStatsdHost host \<Rightarrow> sink\<lparr>conf := (conf sink)\<lparr>StatsdHost := host\<rparr>\<rparr>
      | WithStatsdProtocol protocol \<Rightarrow> sink\<lparr>conf := (conf sink)\<lparr>StatsdProtocol := protocol\<rparr>\<rparr>
      | WithStatsdPort port \<Rightarrow> sink\<lparr>conf := (conf sink)\<lparr>StatsdPort := port\<rparr>\<rparr>
      | WithLogger l \<Rightarrow> sink\<lparr>logger := Some l\<rparr>)"

definition buffer_size :: "string \<Rightarrow> nat" where
  "buffer_size protocol =
     (if protocol \<in> {''udp'', ''udp4'', ''udp6''} then defaultBufferSizeUDP else defaultBufferSizeTCP)"

definition new_sink :: "Settings \<Rightarrow> netSink" where
  "new_sink settings =
     \<lparr>conn = False, outc = [], outc_cap = 0, retryc = [], mu = None, wbuf = [], wsize = 0, werr = None,
      doFlush = [], droppedBytes = 0, logger = None, conf = settings, run_at = R_top,
      reconnectFailed = False, offers = [], events = [], logged = [], answered = []\<rparr>"

definition NewNetSink :: "env \<Rightarrow> SinkOption list \<Rightarrow> panic + netSink" where
  "NewNetSink e opts =
     (case GetSettings e of
        Inl p \<Rightarrow> Inl p
      | Inr settings \<Rightarrow>
          let s = fold apply_option opts (new_sink settings);
              bufSize = buffer_size (StatsdProtocol (conf s))
          in Inr (s\<lparr>outc_cap := approxMaxMemBytes div bufSize, wsize := bufSize\<rparr>))"

definition NewTCPStatsdSink :: "env \<Rightarrow> SinkOption list \<Rightarrow> panic + netSink" where
  "NewTCPStatsdSink e opts = NewNetSink e opts"

section \<open>The buffered writer\<close>

text \<open>A Go result of a write: the number of bytes taken, and the error or none.\<close>

definition sinkWriter_Write :: "string \<Rightarrow> netSink \<Rightarrow> nat \<times> sink_error option \<times> netSink" where
  "sinkWriter_Write p s =
     (if length (outc s) < outc_cap s
      then (length p, None, s\<lparr>outc := outc s @ [p], offers := offers s @ [Accepted p]\<rparr>)
      else (0, Some (Channel_full (length p)), s\<lparr>offers := offers s @ [Refused p]\<rparr>))"

definition wavail :: "netSink \<Rightarrow> nat" where
  "wavail s = wsize s - length (wbuf s)"

text \<open>\<open>Flush\<close>, \<open>Write\<close> and \<open>Reset\<close> of \<open>bufio.Writer\<close>; an error stays until the writer is reset.\<close>

definition bufio_Flush :: "netSink \<Rightarrow> sink_error option \<times> netSink" where
  "bufio_Flush s =
     (case werr s of
        Some err \<Rightarrow> (Some err, s)
      | None \<Rightarrow>
          if wbuf s = [] then (None, s)
          else
            let (n, err, s') = sinkWriter_Write (wbuf s) s;
                err = (if n < length (wbuf s) \<and> err = None then Some Short_write else err)
            in case err of
                 Some err \<Rightarrow> (Some err, s'\<lparr>wbuf := drop n (wbuf s), werr := Some err\<rparr>)
               | None \<Rightarrow> (None, s'\<lparr>wbuf := []\<rparr>))"

lemma bufio_Flush_clears: "werr (snd (bufio_Flush s)) = None \<Longrightarrow> wbuf (snd (bufio_Flush s)) = []"
  by (auto simp: bufio_Flush_def sinkWriter_Write_def Let_def split: option.splits if_splits)

lemma bufio_Flush_werr: "werr s = None \<Longrightarrow> werr (snd (bufio_Flush s)) = fst (bufio_Flush s)"
  by (auto simp: bufio_Flush_def sinkWriter_Write_def Let_def)

function bufio_Write_loop :: "string \<Rightarrow> nat \<Rightarrow> netSink \<Rightarrow> string \<times> nat \<times> netSink" where
  "bufio_Write_loop p nn s =
     (if length p > wavail s \<and> werr s = None
      then if wbuf s = []
           then let (n, err, s') = sinkWriter_Write p s
                in bufio_Write_loop (drop n p) (nn + n) (s'\<lparr>werr := err\<rparr>)
           else let n = wavail s;
                    s' = snd (bufio_Flush (s\<lparr>wbuf := wbuf s @ take n p\<rparr>))
                in bufio_Write_loop (drop n p) (nn + n) s'
      else (p, nn, s))"
  by pat_completeness auto
termination
proof (relation "measures [\<lambda>(p, nn, s). if werr s = None then 1 else 0, \<lambda>(p, nn, s). length p,
    \<lambda>(p, nn, s). if wbuf s = [] then 0 else 1]")
  fix p nn s n s'
  assume "length p > wavail s \<and> werr s = None" and "wbuf s \<noteq> []"
    and "s' = snd (bufio_Flush (s\<lparr>wbuf := wbuf s @ take n p\<rparr>))"
  then show "((drop n p, nn + n, s'), p, nn, s) \<in> measures [\<lambda>(p, nn, s). if werr s = None then 1 else 0,
      \<lambda>(p, nn, s). length p, \<lambda>(p, nn, s). if wbuf s = [] then 0 else 1]"
    using bufio_Flush_clears [of "s\<lparr>wbuf := wbuf s @ take n p\<rparr>"] by auto
qed (auto simp: sinkWriter_Write_def split: if_splits)

declare bufio_Write_loop.simps [simp del]

definition bufio_Write :: "string \<Rightarrow> netSink \<Rightarrow> nat \<times> sink_error option \<times> netSink" where
  "bufio_Write p s =
     (let (p, nn, s) = bufio_Write_loop p 0 s in
      case werr s of
        Some err \<Rightarrow> (nn, Some err, s)
      | None \<Rightarrow> (nn + length p, None, s\<lparr>wbuf := wbuf s @ p\<rparr>))"

definition bufio_Reset :: "netSink \<Rightarrow> netSink" where
  "bufio_Reset s =
     s\<lparr>wbuf := [], werr := None,
       offers := (if werr s = None \<and> wbuf s \<noteq> [] then offers s @ [Discarded (wbuf s)] else offers s)\<rparr>"

section \<open>Writing lines\<close>

definition handleFlushErrorSize :: "sink_error \<Rightarrow> nat \<Rightarrow> netSink \<Rightarrow> netSink" where
  "handleFlushErrorSize err dropped s =
     (let d = of_nat dropped;
          s = (if (droppedBytes s + d) mod logOnEveryNDroppedBytes > droppedBytes s mod logOnEveryNDroppedBytes
               then s\<lparr>logged := logged s @ [Log_dropped (droppedBytes s + d) err]\<rparr> else s);
          s = s\<lparr>droppedBytes := droppedBytes s + d\<rparr>
      in bufio_Reset s)"

definition handleFlushError :: "sink_error \<Rightarrow> netSink \<Rightarrow> netSink" where
  "handleFlushError err s = handleFlushErrorSize err (length (wbuf s)) s"

text \<open>The two parts of \<open>writeBuffer\<close>: between them \<open>run\<close> may take a buffer out of the channel.\<close>

definition writeBuffer_flush :: "buffer \<Rightarrow> netSink \<Rightarrow> netSink" where
  "writeBuffer_flush b s =
     (if wavail s < buffer_Len b
      then case bufio_Flush s of
             (Some err, s') \<Rightarrow> handleFlushError err s'
           | (None, s') \<Rightarrow> s'
      else s)"

definition writeBuffer_write :: "buffer \<Rightarrow> netSink \<Rightarrow> netSink" where
  "writeBuffer_write b s =
     (case bufio_Write b s of
        (n, Some err, s') \<Rightarrow> handleFlushError err s'
      | (n, None, s') \<Rightarrow> s')"

definition writeBuffer :: "buffer \<Rightarrow> netSink \<Rightarrow> netSink" where
  "writeBuffer b s = writeBuffer_write b (writeBuffer_flush b s)"

definition flushUint64 :: "string \<Rightarrow> string \<Rightarrow> u64 \<Rightarrow> netSink \<Rightarrow> netSink" where
  "flushUint64 name suffix u s = writeBuffer (uint_line name suffix u) s"

definition flushFloat64 :: "string \<Rightarrow> string \<Rightarrow> float64 \<Rightarrow> netSink \<Rightarrow> netSink" where
  "flushFloat64 name suffix f s = writeBuffer (float_line name suffix f) s"

definition net_FlushCounter :: "string \<Rightarrow> u64 \<Rightarrow> netSink \<Rightarrow> netSink" where
  "net_FlushCounter name value s = flushUint64 name (''|c'' @ [newline]) value s"

definition net_FlushGauge :: "string \<Rightarrow> u64 \<Rightarrow> netSink \<Rightarrow> netSink" where
  "net_FlushGauge name value s = flushUint64 name (''|g'' @ [newline]) value s"

definition net_FlushTimer :: "string \<Rightarrow> float64 \<Rightarrow> netSink \<Rightarrow> netSink" where
  "net_FlushTimer name value s =
     (if f64_le 0 value \<and> f64_lt value (f64_of_int (2 ^ 64 - 1)) \<and> f64_eq (f64_trunc value) value
      then flushUint64 name (''|ms'' @ [newline]) (f64_to_uint64 value) s
      else flushFloat64 name (''|ms'' @ [newline]) value s)"

text \<open>\<open>flush\<close>, which holds the mutex throughout.\<close>

definition net_flush :: "netSink \<Rightarrow> sink_error option \<times> netSink" where
  "net_flush s =
     (case bufio_Flush s of
        (Some err, s') \<Rightarrow> (Some err, handleFlushError err s')
      | (None, s') \<Rightarrow> (None, s'))"

section \<open>The connection\<close>

text \<open>
  What the network does with one \<open>Write\<close>: it takes all of it, or some bytes and fails.
\<close>

datatype write_result = Write_all | Write_partial nat

text \<open>
  \<open>buf.WriteTo(s.conn)\<close> makes no call for an empty buffer and drops from the buffer what was written.
  The result is the buffer afterwards, the error and the sink.
\<close>

definition writeToConn :: "write_result \<Rightarrow> string \<Rightarrow> netSink \<Rightarrow> string \<times> sink_error option \<times> netSink" where
  "writeToConn r b s =
     (if b = [] then ([], None, s)
      else case r of
             Write_all \<Rightarrow> ([], None, s\<lparr>events := events s @ [Sent b]\<rparr>)
           | Write_partial n \<Rightarrow>
               let m = min n (length b)
               in (drop m b, Some Conn_error, s\<lparr>events := events s @ [Sent (take m b), Closed], conn := False\<rparr>))"

definition net_addr :: "netSink \<Rightarrow> string" where
  "net_addr s =
     (let host = StatsdHost (conf s); port = go_Itoa (StatsdPort (conf s)) in
      if CHR '':'' \<in> set host then ''['' @ host @ '']:'' @ port else host @ '':'' @ port)"

text \<open>\<open>connect\<close>, when the dialling succeeds or fails.\<close>

definition net_connect :: "bool \<Rightarrow> netSink \<Rightarrow> sink_error option \<times> netSink" where
  "net_connect ok s =
     (if ok then (None, s\<lparr>conn := True, events := events s @ [Connected (StatsdProtocol (conf s)) (net_addr s)]\<rparr>)
      else (Some Conn_error, s))"

section \<open>The goroutine \<open>run\<close>\<close>

text \<open>
  One step takes the answers of the environment: whether dialling succeeds, what a write does, and
  which ready case \<open>select\<close> takes.  \<open>None\<close> means that the goroutine cannot go on in this way: the case
  is not ready, the mutex is held, or a channel operation blocks.  Receiving a buffer and writing it
  are one step, since only \<open>run\<close> touches the connection.
\<close>

datatype select_case = On_tick | On_flush | On_out

record answer =
  dial_ok :: bool
  write_res :: write_result
  select :: select_case

definition send_retry :: "string \<Rightarrow> netSink \<Rightarrow> netSink option" where
  "send_retry b s = (if length (retryc s) < retryc_cap then Some (s\<lparr>retryc := retryc s @ [b]\<rparr>) else None)"

text \<open>Take a buffer from \<open>outc\<close>, write it, keep it for another attempt when that fails.\<close>

definition take_out :: "write_result \<Rightarrow> netSink \<Rightarrow> netSink option" where
  "take_out r s =
     (case outc s of
        [] \<Rightarrow> None
      | b # bs \<Rightarrow>
          (case writeToConn r b (s\<lparr>outc := bs\<rparr>) of
             (b', None, s') \<Rightarrow> Some s'
           | (b', Some err, s') \<Rightarrow> send_retry b' s'))"

definition net_answer :: "nat \<Rightarrow> netSink \<Rightarrow> netSink" where
  "net_answer r s = s\<lparr>answered := answered s @ [(r, conn s)]\<rparr>"

definition run_step :: "answer \<Rightarrow> netSink \<Rightarrow> netSink option" where
  "run_step a s =
     (case run_at s of
        R_top \<Rightarrow>
          if conn s then Some (s\<lparr>run_at := R_retry\<rparr>)
          else (case net_connect (dial_ok a) s of
                  (Some err, s') \<Rightarrow>
                    let s' = s'\<lparr>logged := logged s' @ [Log_connection]\<rparr>
                    in Some (if reconnectFailed s' then s'\<lparr>run_at := R_drain (doFlush_cap * 8)\<rparr>
                             else s'\<lparr>reconnectFailed := True, run_at := R_top\<rparr>)
                | (None, s') \<Rightarrow> Some (s'\<lparr>reconnectFailed := False, run_at := R_retry\<rparr>))
      | R_drain n \<Rightarrow>
          (case doFlush s of
             r # rs \<Rightarrow> if n > 0 then Some ((net_answer r (s\<lparr>doFlush := rs\<rparr>))\<lparr>run_at := R_drain (n - 1)\<rparr>)
                       else Some (s\<lparr>reconnectFailed := True, run_at := R_top\<rparr>)
           | [] \<Rightarrow> Some (s\<lparr>reconnectFailed := True, run_at := R_top\<rparr>))
      | R_retry \<Rightarrow>
          (case retryc s of
             [] \<Rightarrow> Some (s\<lparr>run_at := R_select\<rparr>)
           | b # bs \<Rightarrow>
               (case writeToConn (write_res a) b (s\<lparr>retryc := bs\<rparr>) of
                  (b', None, s') \<Rightarrow> Some (s'\<lparr>run_at := R_top\<rparr>)
                | (b', Some err, s') \<Rightarrow> Some (s'\<lparr>run_at := R_drop b'\<rparr>)))
      | R_drop b \<Rightarrow>
          if mu s = None
          then Some ((handleFlushErrorSize Conn_error (length b) (s\<lparr>events := events s @ [Dropped b]\<rparr>))
                       \<lparr>run_at := R_top\<rparr>)
          else None
      | R_select \<Rightarrow>
          (case select a of
             On_tick \<Rightarrow> if mu s = None then Some ((snd (net_flush s))\<lparr>run_at := R_top\<rparr>) else None
           | On_flush \<Rightarrow>
               (case doFlush s of
                  [] \<Rightarrow> None
                | r # rs \<Rightarrow> Some (s\<lparr>doFlush := rs, run_at := R_count r\<rparr>))
           | On_out \<Rightarrow> map_option (\<lambda>s. s\<lparr>run_at := R_top\<rparr>) (take_out (write_res a) s))
      | R_count r \<Rightarrow> Some (s\<lparr>run_at := R_flush r (length (outc s))\<rparr>)
      | R_flush r n \<Rightarrow>
          if n > 0 \<and> conn s
          then map_option (\<lambda>s. s\<lparr>run_at := R_flush r (n - 1)\<rparr>) (take_out (write_res a) s)
          else Some ((net_answer r s)\<lparr>run_at := R_top\<rparr>))"

section \<open>The sink and the goroutines that use it\<close>

text \<open>
  The goroutines that use the sink: the lines they have handed to it, and the requests of those that
  wait to enter \<open>doFlush\<close>.
\<close>

record net_users =
  lines :: "string list"
  requests :: "nat list"

definition accepted :: "offer list \<Rightarrow> string list" where
  "accepted os = concat (map (\<lambda>x. case x of Accepted p \<Rightarrow> [p] | _ \<Rightarrow> []) os)"

inductive net_run :: "netSink \<Rightarrow> net_users \<Rightarrow> netSink \<Rightarrow> bool" for s0 where
  start: "net_run s0 \<lparr>lines = [], requests = []\<rparr> s0"
| write_begin: "net_run s0 u s \<Longrightarrow> mu s = None \<Longrightarrow> c \<noteq> FlushSink \<Longrightarrow>
    net_run s0 u ((writeBuffer_flush (call_line c) s)\<lparr>mu := Some (call_line c)\<rparr>)"
| write_end: "net_run s0 u s \<Longrightarrow> mu s = Some b \<Longrightarrow>
    net_run s0 (u\<lparr>lines := lines u @ [b]\<rparr>) ((writeBuffer_write b s)\<lparr>mu := None\<rparr>)"
| flush_ok: "net_run s0 u s \<Longrightarrow> mu s = None \<Longrightarrow> net_flush s = (None, s') \<Longrightarrow>
    net_run s0 (u\<lparr>requests := length (accepted (offers s')) # requests u\<rparr>) s'"
| flush_fails: "net_run s0 u s \<Longrightarrow> mu s = None \<Longrightarrow> net_flush s = (Some err, s') \<Longrightarrow> net_run s0 u s'"
| request: "net_run s0 u s \<Longrightarrow> r \<in> set (requests u) \<Longrightarrow> length (doFlush s) < doFlush_cap \<Longrightarrow>
    net_run s0 (u\<lparr>requests := remove1 r (requests u)\<rparr>) (s\<lparr>doFlush := doFlush s @ [r]\<rparr>)"
| run: "net_run s0 u s \<Longrightarrow> run_step a s = Some s' \<Longrightarrow> net_run s0 u s'"

end
