(* ===== verification/Buffer_Pool.thy ===== *)
theory Buffer_Pool
  imports NetSink
begin

text \<open>
  The buffers of the network sink as they are: objects behind pointers, which \<open>sinkWriter.Write\<close> takes
  from a pool, hands over through the channels, and \<open>run\<close> gives back.  \<open>NetSink\<close> has lists of their
  contents instead.  Here the two are compared: the machine with pointers (\<open>pool_step\<close>) and the one with
  contents (\<open>value_step\<close>) take the same steps, so that no buffer is ever changed by anyone but the
  goroutine that holds it.
\<close>

section \<open>The way of a buffer\<close>

text \<open>
  Where the goroutine that holds the mutex is in \<open>sinkWriter.Write\<close>, and where \<open>run\<close> is with the buffer
  it has in hand: before it writes a buffer of \<open>outc\<close>, or of \<open>retryc\<close>, before it keeps it for another
  attempt, before it counts what is left of it, before it puts it back.  A buffer is a pointer or,
  where the pool is left out, its contents.
\<close>

datatype 'b writer_at = W_idle | W_get string | W_fill string 'b | W_send string 'b

datatype 'b runner_at = N_idle | N_write 'b | N_rewrite 'b | N_keep 'b | N_count 'b | N_put 'b

record 'b pipe =
  p_outc :: "'b list"
  p_cap :: nat
  p_retryc :: "'b list"
  p_writer :: "'b writer_at"
  p_runner :: "'b runner_at"
  p_sent :: "string list"  \<comment> \<open>what the connection has taken\<close>
  p_counted :: "nat list"  \<comment> \<open>the lengths of the buffers given up\<close>

text \<open>
  A step, of the writer, of \<open>run\<close>, of other goroutines that use the same pool, such as those of another
  sink, or of the garbage collector, which may empty a pool.  The number of \<open>A_getBuffer\<close> is the choice of
  the pool; when it is out of range the pool has nothing to give.
\<close>

datatype action =
    A_Write string | A_getBuffer nat | A_fill | A_send
  | A_receive | A_receive_retry | A_WriteTo write_result | A_retry | A_count | A_putBuffer
  | A_other_get nat | A_other_write nat string | A_other_put nat | A_collect nat

text \<open>The steps that hand a buffer on and do not look into it.\<close>

definition writer_hand_over :: "action \<Rightarrow> 'b pipe \<Rightarrow> 'b pipe option" where
  "writer_hand_over act P =
     (case act of
        A_Write p \<Rightarrow>
          (case p_writer P of W_idle \<Rightarrow> Some (P\<lparr>p_writer := W_get p\<rparr>) | _ \<Rightarrow> None)
      | A_send \<Rightarrow>
          (case p_writer P of
             W_send p b \<Rightarrow>
               Some (P\<lparr>p_outc := (if length (p_outc P) < p_cap P then p_outc P @ [b] else p_outc P), p_writer := W_idle\<rparr>)
           | _ \<Rightarrow> None)
      | _ \<Rightarrow> None)"

definition run_hand_over :: "action \<Rightarrow> 'b pipe \<Rightarrow> 'b pipe option" where
  "run_hand_over act P =
     (case act of
        A_receive \<Rightarrow>
          (case (p_runner P, p_outc P) of
             (N_idle, b # bs) \<Rightarrow> Some (P\<lparr>p_outc := bs, p_runner := N_write b\<rparr>)
           | _ \<Rightarrow> None)
      | A_receive_retry \<Rightarrow>
          (case (p_runner P, p_retryc P) of
             (N_idle, b # bs) \<Rightarrow> Some (P\<lparr>p_retryc := bs, p_runner := N_rewrite b\<rparr>)
           | _ \<Rightarrow> None)
      | A_retry \<Rightarrow>
          (case p_runner P of
             N_keep b \<Rightarrow>
               if length (p_retryc P) < retryc_cap then Some (P\<lparr>p_retryc := p_retryc P @ [b], p_runner := N_idle\<rparr>) else None
           | _ \<Rightarrow> None)
      | _ \<Rightarrow> None)"

definition hand_over :: "action \<Rightarrow> 'b pipe \<Rightarrow> 'b pipe option" where
  "hand_over act P = (case act of A_Write p \<Rightarrow> writer_hand_over act P | A_send \<Rightarrow> writer_hand_over act P | _ \<Rightarrow> run_hand_over act P)"

lemmas hand_over_defs = hand_over_def writer_hand_over_def run_hand_over_def

text \<open>\<open>WriteTo\<close>: what is left in the buffer, whether there was an error, and what the connection took.\<close>

definition drained :: "write_result \<Rightarrow> string \<Rightarrow> string \<times> bool \<times> string list" where
  "drained r b =
     (if b = [] then ([], False, [])
      else case r of
             Write_all \<Rightarrow> ([], False, [b])
           | Write_partial n \<Rightarrow> (drop n b, True, [take n b]))"

fun after_write :: "bool \<Rightarrow> 'b runner_at \<Rightarrow> 'b runner_at" where
  "after_write failed (N_write b) = (if failed then N_keep b else N_put b)"
| "after_write failed (N_rewrite b) = (if failed then N_count b else N_put b)"
| "after_write failed r = r"

fun to_write :: "'b runner_at \<Rightarrow> 'b option" where
  "to_write (N_write b) = Some b"
| "to_write (N_rewrite b) = Some b"
| "to_write r = None"

section \<open>With the contents\<close>

definition value_step :: "action \<Rightarrow> string pipe \<Rightarrow> string pipe option" where
  "value_step act P =
     (case act of
        A_getBuffer j \<Rightarrow> (case p_writer P of W_get p \<Rightarrow> Some (P\<lparr>p_writer := W_fill p []\<rparr>) | _ \<Rightarrow> None)
      | A_fill \<Rightarrow> (case p_writer P of W_fill p b \<Rightarrow> Some (P\<lparr>p_writer := W_send p (b @ p)\<rparr>) | _ \<Rightarrow> None)
      | A_WriteTo r \<Rightarrow>
          (case to_write (p_runner P) of
             Some b \<Rightarrow>
               (case drained r b of (rest, failed, sent) \<Rightarrow>
                  Some (P\<lparr>p_sent := p_sent P @ sent, p_runner := map_runner_at (\<lambda>_. rest) (after_write failed (p_runner P))\<rparr>))
           | None \<Rightarrow> None)
      | A_count \<Rightarrow>
          (case p_runner P of
             N_count b \<Rightarrow> Some (P\<lparr>p_counted := p_counted P @ [length b], p_runner := N_put b\<rparr>) | _ \<Rightarrow> None)
      | A_putBuffer \<Rightarrow> (case p_runner P of N_put b \<Rightarrow> Some (P\<lparr>p_runner := N_idle\<rparr>) | _ \<Rightarrow> None)
      | A_other_get j \<Rightarrow> Some P
      | A_other_write i b \<Rightarrow> Some P
      | A_other_put i \<Rightarrow> Some P
      | A_collect j \<Rightarrow> Some P
      | _ \<Rightarrow> hand_over act P)"

section \<open>With pointers and the pool\<close>

record pool_state =
  pipe :: "nat pipe"
  bytes_heap :: "string list"  \<comment> \<open>the unread part of each \<open>bytes.Buffer\<close>\<close>
  bufferPool :: "nat list"
  elsewhere :: "nat list"  \<comment> \<open>buffers the other goroutines hold\<close>

definition without :: "nat \<Rightarrow> 'a list \<Rightarrow> 'a list" where
  "without i xs = take i xs @ drop (Suc i) xs"

definition getBuffer :: "nat \<Rightarrow> pool_state \<Rightarrow> nat \<times> pool_state" where
  "getBuffer j S =
     (if j < length (bufferPool S)
      then let b = bufferPool S ! j
           in (b, S\<lparr>bufferPool := without j (bufferPool S), bytes_heap := (bytes_heap S)[b := []]\<rparr>)
      else (length (bytes_heap S), S\<lparr>bytes_heap := bytes_heap S @ [[]]\<rparr>))"

definition putBuffer :: "nat \<Rightarrow> pool_state \<Rightarrow> pool_state" where
  "putBuffer b S = S\<lparr>bufferPool := bufferPool S @ [b]\<rparr>"

definition pool_step :: "action \<Rightarrow> pool_state \<Rightarrow> pool_state option" where
  "pool_step act S =
     (let P = pipe S; h = bytes_heap S in
      case act of
        A_getBuffer j \<Rightarrow>
          (case p_writer P of
             W_get p \<Rightarrow> (case getBuffer j S of (b, S) \<Rightarrow> Some (S\<lparr>pipe := P\<lparr>p_writer := W_fill p b\<rparr>\<rparr>))
           | _ \<Rightarrow> None)
      | A_fill \<Rightarrow>
          (case p_writer P of
             W_fill p b \<Rightarrow> Some (S\<lparr>bytes_heap := h[b := h ! b @ p], pipe := P\<lparr>p_writer := W_send p b\<rparr>\<rparr>)
           | _ \<Rightarrow> None)
      | A_WriteTo r \<Rightarrow>
          (case to_write (p_runner P) of
             Some b \<Rightarrow>
               (case drained r (h ! b) of (rest, failed, sent) \<Rightarrow>
                  Some (S\<lparr>bytes_heap := h[b := rest],
                    pipe := P\<lparr>p_sent := p_sent P @ sent, p_runner := after_write failed (p_runner P)\<rparr>\<rparr>))
           | None \<Rightarrow> None)
      | A_count \<Rightarrow>
          (case p_runner P of
             N_count b \<Rightarrow> Some (S\<lparr>pipe := P\<lparr>p_counted := p_counted P @ [length (h ! b)], p_runner := N_put b\<rparr>\<rparr>)
           | _ \<Rightarrow> None)
      | A_putBuffer \<Rightarrow>
          (case p_runner P of N_put b \<Rightarrow> Some (putBuffer b (S\<lparr>pipe := P\<lparr>p_runner := N_idle\<rparr>\<rparr>)) | _ \<Rightarrow> None)
      | A_other_get j \<Rightarrow> (case getBuffer j S of (b, S) \<Rightarrow> Some (S\<lparr>elsewhere := b # elsewhere S\<rparr>))
      | A_other_write i b \<Rightarrow>
          Some (if i < length (elsewhere S) then S\<lparr>bytes_heap := h[elsewhere S ! i := b]\<rparr> else S)
      | A_other_put i \<Rightarrow>
          Some (if i < length (elsewhere S)
                then putBuffer (elsewhere S ! i) (S\<lparr>elsewhere := without i (elsewhere S)\<rparr>) else S)
      | A_collect j \<Rightarrow> Some (S\<lparr>bufferPool := without j (bufferPool S)\<rparr>)
      | _ \<Rightarrow> map_option (\<lambda>P. S\<lparr>pipe := P\<rparr>) (hand_over act P))"

fun steps :: "(action \<Rightarrow> 's \<Rightarrow> 's option) \<Rightarrow> action list \<Rightarrow> 's \<Rightarrow> 's option" where
  "steps step [] s = Some s"
| "steps step (act # acts) s = Option.bind (step act s) (steps step acts)"

lemma steps_append: "steps f (as @ bs) s = Option.bind (steps f as s) (steps f bs)"
  by (induction "as" arbitrary: s) (simp_all add: bind_assoc split: bind_split)

definition pipe_start :: "nat \<Rightarrow> 'b pipe" where
  "pipe_start cap =
     \<lparr>p_outc = [], p_cap = cap, p_retryc = [], p_writer = W_idle, p_runner = N_idle, p_sent = [], p_counted = []\<rparr>"

definition pool_start :: "nat \<Rightarrow> pool_state" where
  "pool_start cap = \<lparr>pipe = pipe_start cap, bytes_heap = [], bufferPool = [], elsewhere = []\<rparr>"

section \<open>Who holds a buffer\<close>

definition map_pipe :: "('a \<Rightarrow> 'b) \<Rightarrow> 'a pipe \<Rightarrow> 'b pipe" where
  "map_pipe f P =
     \<lparr>p_outc = map f (p_outc P), p_cap = p_cap P, p_retryc = map f (p_retryc P),
      p_writer = map_writer_at f (p_writer P), p_runner = map_runner_at f (p_runner P),
      p_sent = p_sent P, p_counted = p_counted P\<rparr>"

text \<open>The pointers replaced by what they point to.\<close>

definition contents :: "pool_state \<Rightarrow> string pipe" where
  "contents S = map_pipe (\<lambda>b. bytes_heap S ! b) (pipe S)"

fun writer_holds :: "'b writer_at \<Rightarrow> 'b list" where
  "writer_holds (W_fill p b) = [b]"
| "writer_holds (W_send p b) = [b]"
| "writer_holds w = []"

fun runner_holds :: "'b runner_at \<Rightarrow> 'b list" where
  "runner_holds N_idle = []"
| "runner_holds (N_write b) = [b]"
| "runner_holds (N_rewrite b) = [b]"
| "runner_holds (N_keep b) = [b]"
| "runner_holds (N_count b) = [b]"
| "runner_holds (N_put b) = [b]"

definition held :: "'b pipe \<Rightarrow> 'b list" where
  "held P = p_outc P @ p_retryc P @ writer_holds (p_writer P) @ runner_holds (p_runner P)"

definition places :: "pool_state \<Rightarrow> nat list" where
  "places S = bufferPool S @ elsewhere S @ held (pipe S)"

definition owned :: "pool_state \<Rightarrow> bool" where
  "owned S \<longleftrightarrow> distinct (places S) \<and> set (places S) \<subseteq> {..<length (bytes_heap S)}"

lemma set_writer_holds: "set (writer_holds w) = set_writer_at w"
  by (cases w) simp_all

lemma set_runner_holds: "set (runner_holds r) = set_runner_at r"
  by (cases r) simp_all

text \<open>A change of a buffer that is held elsewhere does not show.\<close>

lemma map_pipe_cong: "(\<And>b. b \<in> set (held P) \<Longrightarrow> f b = g b) \<Longrightarrow> map_pipe f P = map_pipe g P"
  by (auto simp: map_pipe_def held_def set_writer_holds set_runner_holds
      intro!: writer_at.map_cong0 runner_at.map_cong0)

lemma contents_upd [simp]: "b \<notin> set (held P) \<Longrightarrow> map_pipe ((!) (h[b := x])) P = map_pipe ((!) h) P"
  by (rule map_pipe_cong) (metis nth_list_update_neq)

lemma contents_append [simp]:
  "set (held P) \<subseteq> {..<length h} \<Longrightarrow> map_pipe ((!) (h @ x)) P = map_pipe ((!) h) P"
  by (rule map_pipe_cong) (auto simp: nth_append)

section \<open>No buffer is held twice\<close>

lemma distinct_submset:
  assumes "mset xs \<subseteq># mset ys" and "distinct ys"
  shows "distinct xs"
proof -
  obtain M where "mset ys = mset xs + M" using assms(1) by (auto simp: mset_subset_eq_exists_conv)
  moreover obtain zs where "M = mset zs" using ex_mset by metis
  ultimately have "mset ys = mset (xs @ zs)" by simp
  then show ?thesis using assms(2) mset_eq_imp_distinct_iff distinct_append by metis
qed

lemma owned_submset:
  assumes "owned S" and "mset (places S') \<subseteq># mset (places S)" and "length (bytes_heap S') = length (bytes_heap S)"
  shows "owned S'"
  using assms distinct_submset [OF assms(2)] set_mset_mono [OF assms(2)] by (auto simp: owned_def)

lemma owned_new:
  assumes "owned S" and "mset (places S') = add_mset (length (bytes_heap S)) (mset (places S))"
    and "length (bytes_heap S') = Suc (length (bytes_heap S))"
  shows "owned S'"
proof -
  have "distinct (length (bytes_heap S) # places S)" using assms(1) by (auto simp: owned_def)
  then have "distinct (places S')" by (rule distinct_submset [rotated]) (simp add: assms(2))
  moreover have "set (places S') = insert (length (bytes_heap S)) (set (places S))"
    using arg_cong [OF assms(2), of set_mset] by simp
  ultimately show ?thesis using assms(1,3) by (auto simp: owned_def)
qed

lemma mset_without: "i < length xs \<Longrightarrow> mset xs = add_mset (xs ! i) (mset (without i xs))"
  by (simp add: without_def id_take_nth_drop [of i xs, THEN arg_cong, of mset])

lemma mset_without_le: "mset (without i xs) \<subseteq># mset xs"
  by (cases "i < length xs") (simp_all add: mset_without, simp add: without_def)

lemma hand_over_held: "hand_over act P = Some P' \<Longrightarrow> mset (held P') \<subseteq># mset (held P)"
  by (auto simp: hand_over_defs held_def split: action.splits writer_at.splits runner_at.splits list.splits if_splits)

lemma hand_over_map: "hand_over act (map_pipe f P) = map_option (map_pipe f) (hand_over act P)"
  by (auto simp: hand_over_defs map_pipe_def split: action.splits writer_at.splits runner_at.splits list.splits)

text \<open>What \<open>getBuffer\<close> gives is empty, and nobody else's.\<close>

lemma getBuffer_owned:
  assumes "owned S" and "getBuffer j S = (b, S')"
  shows "pipe S' = pipe S" and "elsewhere S' = elsewhere S" and "bytes_heap S' ! b = []"
    and "contents S' = contents S"
    and "\<And>x. mset (places x) = add_mset b (mset (places S')) \<Longrightarrow> length (bytes_heap x) = length (bytes_heap S') \<Longrightarrow> owned x"
proof -
  have len: "set (held (pipe S)) \<subseteq> {..<length (bytes_heap S)}" using assms(1) by (auto simp: owned_def places_def)
  show "pipe S' = pipe S" "elsewhere S' = elsewhere S" using assms(2) by (auto simp: getBuffer_def Let_def split: if_splits)
  have "bytes_heap S' ! b = [] \<and> contents S' = contents S \<and>
      (\<forall>x. mset (places x) = add_mset b (mset (places S')) \<longrightarrow> length (bytes_heap x) = length (bytes_heap S') \<longrightarrow> owned x)"
  proof (cases "j < length (bufferPool S)")
    case True
    then have e: "b = bufferPool S ! j" "S' = S\<lparr>bufferPool := without j (bufferPool S), bytes_heap := (bytes_heap S)[b := []]\<rparr>"
      using assms(2) by (auto simp: getBuffer_def Let_def)
    have "b \<in> set (bufferPool S)" using True e(1) by simp
    then have b: "b < length (bytes_heap S)" "b \<notin> set (held (pipe S))" using assms(1) by (auto simp: owned_def places_def)
    have "owned x" if "mset (places x) = add_mset b (mset (places S'))" "length (bytes_heap x) = length (bytes_heap S')" for x
    proof (rule owned_submset [OF assms(1)])
      show "mset (places x) \<subseteq># mset (places S)"
        unfolding that(1) by (simp add: e places_def mset_without [OF True])
    qed (simp add: that(2) e(2))
    then show ?thesis using b by (simp add: e(2) contents_def)
  next
    case False
    then have e: "b = length (bytes_heap S)" "S' = S\<lparr>bytes_heap := bytes_heap S @ [[]]\<rparr>"
      using assms(2) by (auto simp: getBuffer_def)
    have "owned x" if "mset (places x) = add_mset b (mset (places S'))" "length (bytes_heap x) = length (bytes_heap S')" for x
    proof (rule owned_new [OF assms(1)])
      show "mset (places x) = add_mset (length (bytes_heap S)) (mset (places S))"
        unfolding that(1) by (simp add: e places_def)
    qed (simp add: that(2) e(2))
    then show ?thesis using len by (simp add: e contents_def)
  qed
  then show "bytes_heap S' ! b = []" "contents S' = contents S"
    and "\<And>x. mset (places x) = add_mset b (mset (places S')) \<Longrightarrow> length (bytes_heap x) = length (bytes_heap S') \<Longrightarrow> owned x"
    by blast+
qed

text \<open>A step of the machine with pointers is a step of the machine with contents.\<close>

definition simulates :: "action \<Rightarrow> pool_state \<Rightarrow> bool" where
  "simulates act S \<longleftrightarrow>
     map_option contents (pool_step act S) = value_step act (contents S) \<and>
     (\<forall>S'. pool_step act S = Some S' \<longrightarrow> owned S')"

lemma simulates_hand_over:
  assumes "owned S" and "\<And>T. pool_step act T = map_option (\<lambda>P. T\<lparr>pipe := P\<rparr>) (hand_over act (pipe T))"
    and "\<And>P. value_step act P = hand_over act P"
  shows "simulates act S"
proof -
  have "owned (S\<lparr>pipe := P\<rparr>)" if "hand_over act (pipe S) = Some P" for P
    using hand_over_held [OF that] by (intro owned_submset [OF assms(1)]) (simp_all add: places_def)
  then show ?thesis
    by (auto simp: simulates_def assms(2,3) contents_def hand_over_map option.map_comp comp_def)
qed

lemma simulates_getBuffer:
  assumes "owned S"
  shows "simulates (A_getBuffer j) S" and "simulates (A_other_get j) S"
proof -
  obtain b S' where g: "getBuffer j S = (b, S')" by (cases "getBuffer j S")
  note new = getBuffer_owned [OF assms g]
  show "simulates (A_other_get j) S"
    using new(4) new(5) [of "S'\<lparr>elsewhere := b # elsewhere S'\<rparr>"]
    by (simp add: simulates_def pool_step_def value_step_def g places_def contents_def)
  show "simulates (A_getBuffer j) S"
  proof (cases "p_writer (pipe S)")
    case (W_get p)
    let ?S = "S'\<lparr>pipe := (pipe S)\<lparr>p_writer := W_fill p b\<rparr>\<rparr>"
    have "owned ?S" using W_get by (intro new(5)) (simp_all add: places_def held_def new(1))
    moreover have "contents ?S = (contents S)\<lparr>p_writer := W_fill p []\<rparr>"
      using new(3,4) unfolding new(4) [symmetric] by (simp add: contents_def map_pipe_def new(1))
    ultimately show ?thesis using W_get g
      by (simp add: simulates_def pool_step_def value_step_def) (simp add: contents_def map_pipe_def)
  qed (simp_all add: simulates_def pool_step_def value_step_def contents_def map_pipe_def)
qed

lemma map_unheld [simp]:
  "b \<notin> set bs \<Longrightarrow> map ((!) (h[b := x])) bs = map ((!) h) bs"
  "b \<notin> set (writer_holds w) \<Longrightarrow> map_writer_at ((!) (h[b := x])) w = map_writer_at ((!) h) w"
  "b \<notin> set (runner_holds r) \<Longrightarrow> map_runner_at ((!) (h[b := x])) r = map_runner_at ((!) h) r"
  by (induction bs) (auto, (cases w; auto), (cases r; auto))

lemma owned_bytes: "owned (S\<lparr>bytes_heap := (bytes_heap S)[b := x]\<rparr>) \<longleftrightarrow> owned S"
  by (simp add: owned_def places_def)

lemma simulatesI:
  "pool_step act S = Some S' \<Longrightarrow> value_step act (contents S) = Some (contents S') \<Longrightarrow> owned S' \<Longrightarrow> simulates act S"
  by (simp add: simulates_def)

lemma simulates_fill:
  assumes "owned S"
  shows "simulates A_fill S"
proof (cases "p_writer (pipe S)")
  case (W_fill p b)
  let ?S = "S\<lparr>bytes_heap := (bytes_heap S)[b := bytes_heap S ! b @ p], pipe := (pipe S)\<lparr>p_writer := W_send p b\<rparr>\<rparr>"
  have b: "b < length (bytes_heap S)" "b \<notin> set (p_outc (pipe S))" "b \<notin> set (p_retryc (pipe S))"
    "b \<notin> set (runner_holds (p_runner (pipe S)))"
    using assms W_fill by (auto simp: owned_def places_def held_def)
  then have "contents ?S = (contents S)\<lparr>p_writer := W_send p (bytes_heap S ! b @ p)\<rparr>"
    by (simp add: contents_def map_pipe_def)
  moreover have "owned ?S" using W_fill by (intro owned_submset [OF assms]) (simp_all add: places_def held_def)
  moreover have "pool_step A_fill S = Some ?S" using W_fill by (simp add: pool_step_def Let_def)
  moreover have "p_writer (contents S) = W_fill p (bytes_heap S ! b)" using W_fill by (simp add: contents_def map_pipe_def)
  ultimately show ?thesis by (intro simulatesI) (simp_all only:, simp add: value_step_def)
qed (simp_all add: simulates_def pool_step_def value_step_def contents_def map_pipe_def)

lemma simulates_WriteTo:
  assumes "owned S"
  shows "simulates (A_WriteTo r) S"
proof (cases "to_write (p_runner (pipe S))")
  case (Some b)
  obtain rest failed sent where d: "drained r (bytes_heap S ! b) = (rest, failed, sent)"
    by (cases "drained r (bytes_heap S ! b)")
  let ?r = "p_runner (pipe S)"
  let ?S = "S\<lparr>bytes_heap := (bytes_heap S)[b := rest],
    pipe := (pipe S)\<lparr>p_sent := p_sent (pipe S) @ sent, p_runner := after_write failed ?r\<rparr>\<rparr>"
  have r: "?r = N_write b \<or> ?r = N_rewrite b" using Some by (cases ?r) simp_all
  have b: "b < length (bytes_heap S)" "b \<notin> set (p_outc (pipe S))" "b \<notin> set (p_retryc (pipe S))"
    "b \<notin> set (writer_holds (p_writer (pipe S)))"
    using assms r by (auto simp: owned_def places_def held_def)
  then have "contents ?S = (contents S)\<lparr>p_sent := p_sent (pipe S) @ sent,
      p_runner := map_runner_at (\<lambda>_. rest) (after_write failed (p_runner (contents S)))\<rparr>"
    using r by (auto simp: contents_def map_pipe_def)
  moreover have "owned ?S" using r by (intro owned_submset [OF assms]) (auto simp: places_def held_def)
  moreover have "to_write (p_runner (contents S)) = Some (bytes_heap S ! b)" using r by (auto simp: contents_def map_pipe_def)
  moreover have "pool_step (A_WriteTo r) S = Some ?S" using Some d by (simp add: pool_step_def Let_def)
  moreover have "p_sent (contents S) = p_sent (pipe S)" by (simp add: contents_def map_pipe_def)
  ultimately show ?thesis using d by (intro simulatesI) (simp_all only:, simp add: value_step_def)
next
  case None
  then have "to_write (p_runner (contents S)) = None"
    by (cases "p_runner (pipe S)") (simp_all add: contents_def map_pipe_def)
  then show ?thesis using None by (simp add: simulates_def pool_step_def value_step_def)
qed

lemma simulates_run:
  assumes "owned S"
  shows "simulates A_count S" and "simulates A_putBuffer S"
proof -
  have "owned (S\<lparr>pipe := (pipe S)\<lparr>p_counted := c, p_runner := N_put b\<rparr>\<rparr>)" if "p_runner (pipe S) = N_count b" for b c
    using that by (intro owned_submset [OF assms]) (simp_all add: places_def held_def)
  then show "simulates A_count S"
    by (cases "p_runner (pipe S)")
      (simp_all add: simulates_def pool_step_def value_step_def contents_def map_pipe_def Let_def)
  have "owned (putBuffer b (S\<lparr>pipe := (pipe S)\<lparr>p_runner := N_idle\<rparr>\<rparr>))" if "p_runner (pipe S) = N_put b" for b
    using that by (intro owned_submset [OF assms]) (simp_all add: places_def held_def putBuffer_def)
  then show "simulates A_putBuffer S"
    by (cases "p_runner (pipe S)")
      (simp_all add: simulates_def pool_step_def value_step_def contents_def map_pipe_def putBuffer_def)
qed

lemma simulates_others:
  assumes "owned S"
  shows "simulates (A_other_write i x) S" and "simulates (A_other_put i) S" and "simulates (A_collect j) S"
proof -
  have "elsewhere S ! i \<notin> set (held (pipe S))" if "i < length (elsewhere S)"
    using assms nth_mem [OF that] by (auto simp: owned_def places_def)
  then show "simulates (A_other_write i x) S" using assms
    by (simp add: simulates_def pool_step_def value_step_def contents_def owned_bytes)
  have "owned (putBuffer (elsewhere S ! i) (S\<lparr>elsewhere := without i (elsewhere S)\<rparr>))" if "i < length (elsewhere S)"
    using mset_without [OF that] by (intro owned_submset [OF assms]) (simp_all add: places_def putBuffer_def)
  then show "simulates (A_other_put i) S" using assms
    by (simp add: simulates_def pool_step_def value_step_def contents_def putBuffer_def)
  have "owned (S\<lparr>bufferPool := without j (bufferPool S)\<rparr>)"
    using mset_without_le [of j "bufferPool S"] by (intro owned_submset [OF assms]) (simp_all add: places_def)
  then show "simulates (A_collect j) S"
    by (simp add: simulates_def pool_step_def value_step_def contents_def)
qed

lemma simulates_all: "owned S \<Longrightarrow> simulates act S"
proof (cases act)
  case (A_getBuffer j)
  then show "owned S \<Longrightarrow> ?thesis" by (simp add: simulates_getBuffer)
next
  case (A_other_get j)
  then show "owned S \<Longrightarrow> ?thesis" by (simp add: simulates_getBuffer)
qed (simp_all add: simulates_fill simulates_WriteTo simulates_run simulates_others simulates_hand_over
    pool_step_def value_step_def Let_def)

theorem pool_invisible: "owned S \<Longrightarrow> map_option contents (steps pool_step acts S) = steps value_step acts (contents S)"
proof (induction acts arbitrary: S)
  case (Cons act acts)
  have s: "value_step act (contents S) = map_option contents (pool_step act S)"
    "\<And>S'. pool_step act S = Some S' \<Longrightarrow> owned S'"
    using simulates_all [OF Cons.prems, of act] by (simp_all add: simulates_def)
  show ?case using Cons.IH s(2) by (cases "pool_step act S") (simp_all add: s(1))
qed simp

lemma steps_owned: "owned S \<Longrightarrow> steps pool_step acts S = Some S' \<Longrightarrow> owned S'"
proof (induction acts arbitrary: S)
  case (Cons act acts)
  obtain S1 where S1: "pool_step act S = Some S1" "steps pool_step acts S1 = Some S'"
    using Cons.prems(2) by (auto split: bind_splits)
  then have "owned S1" using simulates_all [OF Cons.prems(1), of act] by (simp add: simulates_def)
  then show ?case using S1(2) by (rule Cons.IH)
qed simp

lemma pool_start: "owned (pool_start cap)" "contents (pool_start cap) = pipe_start cap"
  by (simp_all add: owned_def places_def held_def pool_start_def pipe_start_def contents_def map_pipe_def)

text \<open>
  The steps of the sink itself, whatever the other goroutines, the collector and the choices of the
  pool were.
\<close>

fun erase :: "action list \<Rightarrow> action list" where
  "erase [] = []"
| "erase (act # acts) =
     (case act of
        A_getBuffer j \<Rightarrow> A_getBuffer 0 # erase acts
      | A_other_get j \<Rightarrow> erase acts
      | A_other_write i b \<Rightarrow> erase acts
      | A_other_put i \<Rightarrow> erase acts
      | A_collect j \<Rightarrow> erase acts
      | act \<Rightarrow> act # erase acts)"

lemma value_step_getBuffer: "value_step (A_getBuffer j) P = value_step (A_getBuffer 0) P"
  by (simp add: value_step_def)

lemma value_step_others [simp]:
  "value_step (A_other_get j) P = Some P" "value_step (A_other_write i b) P = Some P"
  "value_step (A_other_put i) P = Some P" "value_step (A_collect j) P = Some P"
  by (simp_all add: value_step_def)

lemma steps_erase: "steps value_step (erase acts) P = steps value_step acts P"
proof (induction acts arbitrary: P)
  case (Cons act acts)
  have IH: "steps value_step (erase acts) = steps value_step acts" using Cons.IH by (rule ext)
  show ?case
  proof (cases act)
    case (A_getBuffer j)
    then show ?thesis by (simp only: erase.simps action.case steps.simps IH value_step_getBuffer [of j])
  qed (simp_all only: erase.simps action.case steps.simps IH value_step_others bind.bind_lunit)
qed simp

lemma erase_append: "erase (as @ bs) = erase as @ erase bs"
  by (induction "as") (simp_all split: action.split)

section \<open>The network sink\<close>

definition pipe_of :: "netSink \<Rightarrow> string pipe" where
  "pipe_of s =
     \<lparr>p_outc = outc s, p_cap = outc_cap s, p_retryc = retryc s, p_writer = W_idle,
      p_runner = (case run_at s of R_drop b \<Rightarrow> N_count b | _ \<Rightarrow> N_idle),
      p_sent = concat (map (\<lambda>e. case e of Sent b \<Rightarrow> [b] | _ \<Rightarrow> []) (events s)),
      p_counted = concat (map (\<lambda>e. case e of Dropped b \<Rightarrow> [length b] | _ \<Rightarrow> []) (events s))\<rparr>"

definition matched :: "netSink \<Rightarrow> netSink \<Rightarrow> bool" where
  "matched s s' \<longleftrightarrow> (\<exists>acts. erase acts = acts \<and> steps value_step acts (pipe_of s) = Some (pipe_of s'))"

lemma matched_same: "pipe_of s' = pipe_of s \<Longrightarrow> matched s s'"
  by (auto simp: matched_def intro!: exI [of _ "[]"])

lemma matched_trans [trans]: "matched s s' \<Longrightarrow> matched s' s'' \<Longrightarrow> matched s s''"
  unfolding matched_def by (metis bind.bind_lunit erase_append steps_append)

lemma matchedI: "erase acts = acts \<Longrightarrow> steps value_step acts (pipe_of s) = Some (pipe_of s') \<Longrightarrow> matched s s'"
  by (auto simp: matched_def)

text \<open>\<open>sinkWriter_Write\<close> is \<open>getBuffer\<close>, \<open>Write\<close> and the attempt to send.\<close>

lemma matched_sinkWriter: "matched s (snd (snd (sinkWriter_Write p s)))"
  by (rule matchedI [where acts = "[A_Write p, A_getBuffer 0, A_fill, A_send]"])
    (simp_all add: sinkWriter_Write_def value_step_def hand_over_defs pipe_of_def)

lemma pipe_of_simps [simp]:
  "pipe_of (s\<lparr>wbuf := w\<rparr>) = pipe_of s" "pipe_of (s\<lparr>werr := e\<rparr>) = pipe_of s" "pipe_of (s\<lparr>mu := m\<rparr>) = pipe_of s"
  "pipe_of (s\<lparr>offers := os\<rparr>) = pipe_of s" "pipe_of (s\<lparr>logged := l\<rparr>) = pipe_of s" "pipe_of (s\<lparr>doFlush := d\<rparr>) = pipe_of s"
  "pipe_of (s\<lparr>droppedBytes := n\<rparr>) = pipe_of s" "pipe_of (s\<lparr>answered := a\<rparr>) = pipe_of s"
  "pipe_of (s\<lparr>conn := c\<rparr>) = pipe_of s" "pipe_of (s\<lparr>reconnectFailed := r\<rparr>) = pipe_of s"
  by (simp_all add: pipe_of_def)

lemma matched_bufio_Flush: "matched s (snd (bufio_Flush s))"
proof (cases "werr s = None \<and> wbuf s \<noteq> []")
  case True
  then have "pipe_of (snd (bufio_Flush s)) = pipe_of (snd (snd (sinkWriter_Write (wbuf s) s)))"
    by (auto simp: bufio_Flush_def sinkWriter_Write_def Let_def)
  then show ?thesis using matched_sinkWriter [of s "wbuf s"] by (simp add: matched_def)
qed (auto simp: bufio_Flush_def intro: matched_same split: option.splits)

lemma matched_bufio_Write_loop: "matched s (snd (snd (bufio_Write_loop p nn s)))"
proof (induction p nn s rule: bufio_Write_loop.induct)
  case (1 p nn s)
  show ?case
  proof (cases "length p > wavail s \<and> werr s = None")
    case True
    show ?thesis
    proof (cases "wbuf s = []")
      case empty: True
      obtain n err s' where w: "sinkWriter_Write p s = (n, err, s')" by (cases "sinkWriter_Write p s")
      have "matched s (s'\<lparr>werr := err\<rparr>)" using matched_sinkWriter [of s p] w by (simp add: matched_def)
      also have "matched (s'\<lparr>werr := err\<rparr>) (snd (snd (bufio_Write_loop (drop n p) (nn + n) (s'\<lparr>werr := err\<rparr>))))"
        using "1.IH"(1) [OF True empty w [symmetric] refl refl] .
      finally show ?thesis using True empty w by (simp add: bufio_Write_loop.simps [of p nn s])
    next
      case nonempty: False
      let ?s = "snd (bufio_Flush (s\<lparr>wbuf := wbuf s @ take (wavail s) p\<rparr>))"
      have "matched s ?s"
        using matched_bufio_Flush [of "s\<lparr>wbuf := wbuf s @ take (wavail s) p\<rparr>"] by (simp add: matched_def)
      also have "matched ?s (snd (snd (bufio_Write_loop (drop (wavail s) p) (nn + wavail s) ?s)))"
        using "1.IH"(2) [OF True nonempty refl refl] .
      finally show ?thesis using True nonempty by (simp add: bufio_Write_loop.simps [of p nn s] Let_def)
    qed
  qed (auto simp: bufio_Write_loop.simps [of p nn s] intro: matched_same)
qed

lemma pipe_of_handleFlushErrorSize [simp]: "pipe_of (handleFlushErrorSize err n s) = pipe_of s"
  by (simp add: handleFlushErrorSize_def bufio_Reset_def Let_def)

lemma matched_writeBuffer_flush: "matched s (writeBuffer_flush b s)"
  using matched_bufio_Flush [of s]
  by (auto simp: writeBuffer_flush_def handleFlushError_def matched_def intro: matched_same [unfolded matched_def]
      split: prod.splits option.splits)

lemma matched_writeBuffer_write: "matched s (writeBuffer_write b s)"
  using matched_bufio_Write_loop [of s b 0]
  by (auto simp: writeBuffer_write_def bufio_Write_def handleFlushError_def matched_def split: prod.splits option.splits)

lemma matched_net_flush: "matched s (snd (net_flush s))"
  using matched_bufio_Flush [of s]
  by (auto simp: net_flush_def handleFlushError_def matched_def split: prod.splits option.splits)

end
