(* ===== verification/NetSink_Inv.thy ===== *)
theory NetSink_Inv
  imports NetSink
begin

text \<open>
  The operations of the network sink in closed form, and what holds in every run of it: where each
  byte of the stream is, what is counted as dropped, and what an answered request means.
\<close>

section \<open>The writer in closed form\<close>

definition count_drop :: "sink_error \<Rightarrow> nat \<Rightarrow> netSink \<Rightarrow> netSink" where
  "count_drop err dropped s =
     (let d = of_nat dropped in
      s\<lparr>logged := (if (droppedBytes s + d) mod logOnEveryNDroppedBytes > droppedBytes s mod logOnEveryNDroppedBytes
                   then logged s @ [Log_dropped (droppedBytes s + d) err] else logged s),
        droppedBytes := droppedBytes s + d\<rparr>)"

lemma count_drop_sel [simp]:
  "conn (count_drop err d s) = conn s" "outc (count_drop err d s) = outc s"
  "outc_cap (count_drop err d s) = outc_cap s" "retryc (count_drop err d s) = retryc s"
  "mu (count_drop err d s) = mu s" "wbuf (count_drop err d s) = wbuf s"
  "wsize (count_drop err d s) = wsize s" "werr (count_drop err d s) = werr s"
  "doFlush (count_drop err d s) = doFlush s" "run_at (count_drop err d s) = run_at s"
  "offers (count_drop err d s) = offers s" "events (count_drop err d s) = events s"
  "answered (count_drop err d s) = answered s"
  "droppedBytes (count_drop err d s) = droppedBytes s + of_nat d"
  by (simp_all add: count_drop_def Let_def)

lemma handleFlushErrorSize_eq: "handleFlushErrorSize err d s = bufio_Reset (count_drop err d s)"
  by (simp add: handleFlushErrorSize_def count_drop_def Let_def)

lemma bufio_Reset_sel [simp]:
  "conn (bufio_Reset s) = conn s" "outc (bufio_Reset s) = outc s"
  "outc_cap (bufio_Reset s) = outc_cap s" "retryc (bufio_Reset s) = retryc s"
  "mu (bufio_Reset s) = mu s" "wbuf (bufio_Reset s) = []"
  "wsize (bufio_Reset s) = wsize s" "werr (bufio_Reset s) = None"
  "doFlush (bufio_Reset s) = doFlush s" "run_at (bufio_Reset s) = run_at s"
  "events (bufio_Reset s) = events s" "answered (bufio_Reset s) = answered s"
  "droppedBytes (bufio_Reset s) = droppedBytes s" "logged (bufio_Reset s) = logged s"
  "offers (bufio_Reset s) =
     (if werr s = None \<and> wbuf s \<noteq> [] then offers s @ [Discarded (wbuf s)] else offers s)"
  by (simp_all add: bufio_Reset_def)

text \<open>A buffer offered to the channel: it enters, or it is refused and counted.\<close>

definition offer_chunk :: "string \<Rightarrow> nat \<Rightarrow> netSink \<Rightarrow> netSink" where
  "offer_chunk p d s =
     (if length (outc s) < outc_cap s then s\<lparr>outc := outc s @ [p], offers := offers s @ [Accepted p], wbuf := []\<rparr>
      else count_drop (Channel_full (length p)) d (s\<lparr>offers := offers s @ [Refused p], wbuf := []\<rparr>))"

lemma net_flush_eq:
  assumes "werr s = None"
  shows "net_flush s =
    (if wbuf s = [] then (None, s)
     else (if length (outc s) < outc_cap s then None else Some (Channel_full (length (wbuf s))),
           offer_chunk (wbuf s) (length (wbuf s)) s))"
  using assms
  by (auto simp: net_flush_def bufio_Flush_def sinkWriter_Write_def handleFlushError_def
      handleFlushErrorSize_eq offer_chunk_def Let_def bufio_Reset_def count_drop_def)

lemma writeBuffer_flush_eq:
  "writeBuffer_flush b s = (if wavail s < length b then snd (net_flush s) else s)"
  by (simp add: writeBuffer_flush_def net_flush_def buffer_Len_def split: prod.split option.split)

lemma writeBuffer_write_fits:
  assumes "werr s = None" and "length b \<le> wavail s"
  shows "writeBuffer_write b s = s\<lparr>wbuf := wbuf s @ b\<rparr>"
  using assms by (simp add: writeBuffer_write_def bufio_Write_def bufio_Write_loop.simps [of b])

lemma writeBuffer_write_large:
  assumes "werr s = None" and "wbuf s = []" and "wavail s < length b"
  shows "writeBuffer_write b s = offer_chunk b 0 s"
proof (cases "length (outc s) < outc_cap s")
  case True
  then show ?thesis using assms
    by (simp add: writeBuffer_write_def bufio_Write_def bufio_Write_loop.simps [of b]
        bufio_Write_loop.simps [of "[]"] sinkWriter_Write_def offer_chunk_def)
next
  case False
  then show ?thesis using assms
    by (simp add: writeBuffer_write_def bufio_Write_def bufio_Write_loop.simps [of b]
        bufio_Write_loop.simps [of b _ "s\<lparr>offers := _, werr := _\<rparr>"] sinkWriter_Write_def
        offer_chunk_def handleFlushError_def handleFlushErrorSize_eq bufio_Reset_def count_drop_def Let_def)
qed

lemma offer_chunk_sel [simp]:
  "conn (offer_chunk p d s) = conn s" "outc_cap (offer_chunk p d s) = outc_cap s"
  "retryc (offer_chunk p d s) = retryc s" "mu (offer_chunk p d s) = mu s"
  "wbuf (offer_chunk p d s) = []" "wsize (offer_chunk p d s) = wsize s"
  "werr (offer_chunk p d s) = werr s" "doFlush (offer_chunk p d s) = doFlush s"
  "run_at (offer_chunk p d s) = run_at s" "events (offer_chunk p d s) = events s"
  "answered (offer_chunk p d s) = answered s"
  by (simp_all add: offer_chunk_def)

section \<open>The stream\<close>

fun chunk :: "offer \<Rightarrow> string" where
  "chunk (Accepted p) = p"
| "chunk (Refused p) = p"
| "chunk (Discarded p) = p"

text \<open>
  The lines, in order, are cut into the chunks offered and the rest that is still in the writer; a
  chunk has at most the size of the writer, or is one line.
\<close>

definition grouped :: "nat \<Rightarrow> string list \<Rightarrow> offer list \<Rightarrow> string \<Rightarrow> bool" where
  "grouped w ls os rest \<longleftrightarrow>
     (\<exists>gs r. ls = concat gs @ r \<and> map chunk os = map concat gs \<and> rest = concat r \<and>
        (\<forall>g \<in> set gs. length (concat g) \<le> w \<or> (\<exists>l. g = [l])))"

lemma grouped_Nil: "grouped w [] [] []"
  by (auto simp: grouped_def)

lemma grouped_line: "grouped w ls os rest \<Longrightarrow> grouped w (ls @ [l]) os (rest @ l)"
  unfolding grouped_def by (metis append.assoc concat.simps(1) concat.simps(2) concat_append append_Nil2)

lemma grouped_chunk:
  assumes "grouped w ls os rest" and "length rest \<le> w" and "chunk x = rest"
  shows "grouped w ls (os @ [x]) []"
proof -
  obtain gs r where "ls = concat gs @ r" "map chunk os = map concat gs" "rest = concat r"
    "\<forall>g \<in> set gs. length (concat g) \<le> w \<or> (\<exists>l. g = [l])"
    using assms(1) by (auto simp: grouped_def)
  then show ?thesis using assms(2,3) unfolding grouped_def
    by (intro exI [of _ "gs @ [r]"] exI [of _ "[]"]) auto
qed

lemma grouped_large:
  assumes "grouped w ls os []" and "[] \<notin> set ls" and "chunk x = l"
  shows "grouped w (ls @ [l]) (os @ [x]) []"
proof -
  obtain gs r where g: "ls = concat gs @ r" "map chunk os = map concat gs" "concat r = []"
    "\<forall>g \<in> set gs. length (concat g) \<le> w \<or> (\<exists>l. g = [l])"
    using assms(1) by (auto simp: grouped_def)
  then have "r = []" using assms(2) by (cases r) auto
  then show ?thesis using g assms(3) unfolding grouped_def
    by (intro exI [of _ "gs @ [[l]]"] exI [of _ "[]"]) auto
qed

text \<open>What is counted in \<open>droppedBytes\<close>: refused chunks that fit the writer, and failed retries.\<close>

definition refused_bytes :: "nat \<Rightarrow> offer list \<Rightarrow> nat" where
  "refused_bytes w os = (\<Sum>x\<leftarrow>os. case x of Refused p \<Rightarrow> if length p \<le> w then length p else 0 | _ \<Rightarrow> 0)"

definition dropped_bytes :: "net_event list \<Rightarrow> nat" where
  "dropped_bytes es = (\<Sum>x\<leftarrow>es. case x of Dropped p \<Rightarrow> length p | _ \<Rightarrow> 0)"

lemma bytes_simps [simp]:
  "refused_bytes w [] = 0" "dropped_bytes [] = 0"
  "refused_bytes w (os @ [Accepted p]) = refused_bytes w os"
  "refused_bytes w (os @ [Discarded p]) = refused_bytes w os"
  "refused_bytes w (os @ [Refused p]) = refused_bytes w os + (if length p \<le> w then length p else 0)"
  "dropped_bytes (es @ es') = dropped_bytes es + dropped_bytes es'"
  "dropped_bytes (Sent p # es) = dropped_bytes es" "dropped_bytes (Closed # es) = dropped_bytes es"
  "dropped_bytes (Connected a b # es) = dropped_bytes es"
  "dropped_bytes (Dropped p # es) = length p + dropped_bytes es"
  by (simp_all add: refused_bytes_def dropped_bytes_def)

definition writer_inv :: "string list \<Rightarrow> netSink \<Rightarrow> bool" where
  "writer_inv ls s \<longleftrightarrow>
     werr s = None \<and> length (wbuf s) \<le> wsize s \<and> [] \<notin> set ls \<and>
     grouped (wsize s) ls (offers s) (wbuf s) \<and>
     droppedBytes s = of_nat (refused_bytes (wsize s) (offers s) + dropped_bytes (events s)) \<and>
     (\<forall>b. mu s = Some b \<longrightarrow> b \<noteq> [] \<and> (length b \<le> wavail s \<or> wbuf s = []))"

lemma writer_inv_offer:
  assumes "writer_inv ls s"
  shows "writer_inv ls (offer_chunk (wbuf s) (length (wbuf s)) s)"
proof -
  have "grouped (wsize s) ls (offers s @ [Accepted (wbuf s)]) []"
    "grouped (wsize s) ls (offers s @ [Refused (wbuf s)]) []"
    using assms by (auto simp: writer_inv_def intro: grouped_chunk)
  then show ?thesis using assms by (simp add: writer_inv_def offer_chunk_def)
qed

lemma writer_inv_net_flush: "writer_inv ls s \<Longrightarrow> writer_inv ls (snd (net_flush s))"
  by (cases "wbuf s = []") (auto simp: net_flush_eq writer_inv_offer writer_inv_def [of ls s])

lemma writer_inv_begin:
  assumes "writer_inv ls s" and "mu s = None" and "b \<noteq> []"
  shows "writer_inv ls ((writeBuffer_flush b s)\<lparr>mu := Some b\<rparr>)"
proof -
  have "werr s = None" using assms(1) by (simp add: writer_inv_def)
  then have "wavail s < length b \<Longrightarrow> wbuf (snd (net_flush s)) = []"
    by (simp add: net_flush_eq)
  moreover have "writer_inv ls (writeBuffer_flush b s)"
    using writer_inv_net_flush [OF assms(1)] assms(1) by (simp add: writeBuffer_flush_eq)
  moreover have "mu (writeBuffer_flush b s) = None"
    using assms(1,2) by (simp add: writeBuffer_flush_eq net_flush_eq writer_inv_def)
  ultimately show ?thesis using assms(3)
    by (auto simp: writer_inv_def wavail_def writeBuffer_flush_eq not_less)
qed

lemma writer_inv_end:
  assumes "writer_inv ls s" and "mu s = Some b"
  shows "writer_inv (ls @ [b]) ((writeBuffer_write b s)\<lparr>mu := None\<rparr>)"
proof (cases "length b \<le> wavail s")
  case True
  then show ?thesis using assms grouped_line [of "wsize s" ls "offers s" "wbuf s" b]
    by (auto simp: writer_inv_def writeBuffer_write_fits wavail_def)
next
  case False
  then have w: "wbuf s = []" "[] \<noteq> b" "wavail s < length b" "werr s = None" "wsize s < length b"
    using assms by (auto simp: writer_inv_def wavail_def)
  have "grouped (wsize s) (ls @ [b]) (offers s @ [Accepted b]) []"
    "grouped (wsize s) (ls @ [b]) (offers s @ [Refused b]) []"
    using assms w(1) by (auto simp: writer_inv_def intro: grouped_large)
  then show ?thesis using assms w
    by (simp add: writer_inv_def writeBuffer_write_large offer_chunk_def)
qed

lemma writer_inv_cong:
  assumes "writer_inv ls s" and "werr t = werr s" and "wbuf t = wbuf s" and "wsize t = wsize s"
    and "offers t = offers s" and "droppedBytes t = droppedBytes s" and "mu t = mu s"
    and "dropped_bytes (events t) = dropped_bytes (events s)"
  shows "writer_inv ls t"
  using assms by (simp add: writer_inv_def wavail_def)

lemma writer_inv_drop:
  assumes "writer_inv ls s" and "mu s = None"
  shows "writer_inv ls (handleFlushErrorSize err (length b) (s\<lparr>events := events s @ [Dropped b]\<rparr>))"
proof -
  have "wbuf s \<noteq> [] \<Longrightarrow> grouped (wsize s) ls (offers s @ [Discarded (wbuf s)]) []"
    using assms(1) by (auto simp: writer_inv_def intro: grouped_chunk)
  then show ?thesis using assms
    by (auto simp: writer_inv_def handleFlushErrorSize_eq)
qed

end
