(* ===== verification/NetSink_Run.thy ===== *)
theory NetSink_Run
  imports NetSink_Inv "HOL-Library.Sublist"
begin

text \<open>The invariants of the whole sink: the goroutine \<open>run\<close> and the goroutines that use the sink.\<close>

section \<open>What has left the channel\<close>

text \<open>The bytes that were sent or given up after a failed second attempt, in order.\<close>

definition departed :: "net_event list \<Rightarrow> string" where
  "departed es = concat (map (\<lambda>x. case x of Sent p \<Rightarrow> p | Dropped p \<Rightarrow> p | _ \<Rightarrow> []) es)"

lemma departed_simps [simp]:
  "departed [] = []" "departed (es @ es') = departed es @ departed es'"
  "departed (Sent p # es) = p @ departed es" "departed (Dropped p # es) = p @ departed es"
  "departed (Closed # es) = departed es" "departed (Connected a b # es) = departed es"
  by (simp_all add: departed_def)

lemma accepted_simps [simp]:
  "accepted [] = []" "accepted (os @ os') = accepted os @ accepted os'"
  "accepted [Accepted p] = [p]" "accepted [Refused p] = []" "accepted [Discarded p] = []"
  by (simp_all add: accepted_def)

definition in_hand :: "run_pc \<Rightarrow> string" where
  "in_hand c = (case c of R_drop b \<Rightarrow> b | _ \<Rightarrow> [])"

definition passage_inv :: "netSink \<Rightarrow> bool" where
  "passage_inv s \<longleftrightarrow>
     length (outc s) \<le> outc_cap s \<and>
     (\<exists>pre. accepted (offers s) = pre @ outc s \<and>
        departed (events s) @ in_hand (run_at s) @ concat (retryc s) = concat pre)"

text \<open>Where the retried buffer may be, and that \<open>run\<close> finds what it counted.\<close>

definition control_inv :: "netSink \<Rightarrow> bool" where
  "control_inv s \<longleftrightarrow>
     length (retryc s) \<le> 1 \<and>
     (case run_at s of
        R_top \<Rightarrow> True
      | R_drain n \<Rightarrow> \<not> conn s
      | R_retry \<Rightarrow> conn s
      | R_drop b \<Rightarrow> \<not> conn s \<and> retryc s = []
      | R_select \<Rightarrow> conn s \<and> retryc s = []
      | R_count r \<Rightarrow> conn s \<and> retryc s = []
      | R_flush r n \<Rightarrow> conn s \<longrightarrow> retryc s = [] \<and> n \<le> length (outc s))"

text \<open>
  A request is at most the number of accepted buffers; the one being handled reaches no further than
  the buffers still to be taken.
\<close>

definition waiting_ok :: "net_users \<Rightarrow> netSink \<Rightarrow> bool" where
  "waiting_ok u s \<longleftrightarrow>
     (\<forall>r \<in> set (requests u) \<union> set (doFlush s). r \<le> length (accepted (offers s))) \<and>
     length (doFlush s) \<le> doFlush_cap"

definition handled_ok :: "netSink \<Rightarrow> bool" where
  "handled_ok s \<longleftrightarrow>
     (case run_at s of
        R_count r \<Rightarrow> r \<le> length (accepted (offers s))
      | R_flush r n \<Rightarrow> r \<le> length (accepted (offers s)) \<and>
          (conn s \<longrightarrow> r + length (outc s) \<le> length (accepted (offers s)) + n)
      | _ \<Rightarrow> True)"

definition answered_ok :: "netSink \<Rightarrow> bool" where
  "answered_ok s \<longleftrightarrow>
     (\<forall>r. (r, True) \<in> set (answered s) \<longrightarrow> r \<le> length (accepted (offers s)) \<and>
        prefix (concat (take r (accepted (offers s)))) (departed (events s)))"

definition request_inv :: "net_users \<Rightarrow> netSink \<Rightarrow> bool" where
  "request_inv u s \<longleftrightarrow> waiting_ok u s \<and> handled_ok s \<and> answered_ok s"

lemmas request_defs = request_inv_def waiting_ok_def handled_ok_def answered_ok_def

section \<open>Taking a buffer\<close>

lemma writeToConn_eqs:
  "writeToConn r [] s = ([], None, s)"
  "b \<noteq> [] \<Longrightarrow> writeToConn Write_all b s = ([], None, s\<lparr>events := events s @ [Sent b]\<rparr>)"
  "b \<noteq> [] \<Longrightarrow> writeToConn (Write_partial n) b s =
     (drop (min n (length b)) b, Some Conn_error,
      s\<lparr>events := events s @ [Sent (take (min n (length b)) b), Closed], conn := False\<rparr>)"
  by (simp_all add: writeToConn_def Let_def)

lemma writeToConn_cases:
  obtains (none) "b = []" "writeToConn r b s = ([], None, s)"
  | (sent) "writeToConn r b s = ([], None, s\<lparr>events := events s @ [Sent b]\<rparr>)"
  | (failed) m where "writeToConn r b s =
      (drop m b, Some Conn_error, s\<lparr>events := events s @ [Sent (take m b), Closed], conn := False\<rparr>)"
proof (cases "b = []")
  case True
  show ?thesis by (rule none [OF True]) (simp add: True writeToConn_eqs(1))
next
  case False
  show ?thesis
  proof (cases r)
    case Write_all
    show ?thesis by (rule sent) (simp only: Write_all writeToConn_eqs(2) [OF False])
  next
    case (Write_partial n)
    show ?thesis by (rule failed) (simp only: Write_partial writeToConn_eqs(3) [OF False])
  qed
qed

lemma take_out_cases:
  assumes "take_out r s = Some s'"
  obtains (sent) b bs where "outc s = b # bs" "s' = s\<lparr>outc := bs, events := events s @ [Sent b]\<rparr>"
  | (none) bs where "outc s = [] # bs" "s' = s\<lparr>outc := bs\<rparr>"
  | (failed) b bs m where "outc s = b # bs" "retryc s = []"
      "s' = s\<lparr>outc := bs, events := events s @ [Sent (take m b), Closed], conn := False, retryc := [drop m b]\<rparr>"
proof (cases "outc s")
  case (Cons b bs)
  show ?thesis
  proof (cases rule: writeToConn_cases [of b r "s\<lparr>outc := bs\<rparr>"])
    case none
    then show ?thesis using assms Cons that(2) by (simp add: take_out_def)
  next
    case sent
    then show ?thesis using assms Cons that(1) by (simp add: take_out_def)
  next
    case (failed m)
    then have "retryc s = [] \<and>
        s' = s\<lparr>outc := bs, events := events s @ [Sent (take m b), Closed], conn := False, retryc := [drop m b]\<rparr>"
      using assms Cons by (simp add: take_out_def send_retry_def retryc_cap_def split: if_splits)
    then show ?thesis using Cons that(3) by blast
  qed
qed (use assms in \<open>simp add: take_out_def\<close>)

section \<open>Steps of \<open>run\<close>\<close>

text \<open>The steps by what they do; the other cases of \<open>run_step\<close> only move on.\<close>

lemma run_step_cases:
  assumes "run_step a s = Some s'"
  obtains (connected) "run_at s = R_top" "\<not> conn s"
      "s' = s\<lparr>conn := True, events := events s @ [Connected (StatsdProtocol (conf s)) (net_addr s)],
              reconnectFailed := False, run_at := R_retry\<rparr>"
  | (refused) n where "run_at s = R_top" "\<not> conn s"
      "s' = s\<lparr>logged := logged s @ [Log_connection], run_at := R_drain n\<rparr> \<or>
       s' = s\<lparr>logged := logged s @ [Log_connection], reconnectFailed := True, run_at := R_top\<rparr>"
  | (up) "run_at s = R_top" "conn s" "s' = s\<lparr>run_at := R_retry\<rparr>"
  | (drain) n r rs where "run_at s = R_drain n" "doFlush s = r # rs"
      "s' = s\<lparr>doFlush := rs, answered := answered s @ [(r, conn s)], run_at := R_drain (n - 1)\<rparr>"
  | (drained) n where "run_at s = R_drain n" "s' = s\<lparr>reconnectFailed := True, run_at := R_top\<rparr>"
  | (no_retry) "run_at s = R_retry" "retryc s = []" "s' = s\<lparr>run_at := R_select\<rparr>"
  | (retried) b bs where "run_at s = R_retry" "retryc s = b # bs"
      "s' = s\<lparr>retryc := bs, events := events s @ [Sent b], run_at := R_top\<rparr>"
  | (retried_none) bs where "run_at s = R_retry" "retryc s = [] # bs" "s' = s\<lparr>retryc := bs, run_at := R_top\<rparr>"
  | (retry_failed) b bs m where "run_at s = R_retry" "retryc s = b # bs"
      "s' = s\<lparr>retryc := bs, events := events s @ [Sent (take m b), Closed], conn := False,
              run_at := R_drop (drop m b)\<rparr>"
  | (dropped) b where "run_at s = R_drop b" "mu s = None"
      "s' = (handleFlushErrorSize Conn_error (length b) (s\<lparr>events := events s @ [Dropped b]\<rparr>))\<lparr>run_at := R_top\<rparr>"
  | (tick) "run_at s = R_select" "mu s = None" "s' = (snd (net_flush s))\<lparr>run_at := R_top\<rparr>"
  | (asked) r rs where "run_at s = R_select" "doFlush s = r # rs" "s' = s\<lparr>doFlush := rs, run_at := R_count r\<rparr>"
  | (out) t where "run_at s = R_select" "take_out (write_res a) s = Some t" "s' = t\<lparr>run_at := R_top\<rparr>"
  | (counted) r where "run_at s = R_count r" "s' = s\<lparr>run_at := R_flush r (length (outc s))\<rparr>"
  | (flush_out) r n t where "run_at s = R_flush r n" "n > 0" "conn s" "take_out (write_res a) s = Some t"
      "s' = t\<lparr>run_at := R_flush r (n - 1)\<rparr>"
  | (flush_done) r n where "run_at s = R_flush r n" "n = 0 \<or> \<not> conn s"
      "s' = s\<lparr>answered := answered s @ [(r, conn s)], run_at := R_top\<rparr>"
proof (cases "run_at s")
  case R_top
  show ?thesis
  proof (cases "conn s")
    case True
    show ?thesis by (rule up [OF R_top True]) (use assms R_top True in \<open>simp add: run_step_def\<close>)
  next
    case False
    show ?thesis
    proof (cases "dial_ok a")
      case True
      show ?thesis by (rule connected [OF R_top False])
        (use assms R_top False True in \<open>simp add: run_step_def net_connect_def\<close>)
    next
      case dial: False
      show ?thesis by (rule refused [OF R_top False, of "doFlush_cap * 8"])
        (use assms R_top False dial in \<open>simp add: run_step_def net_connect_def Let_def split: if_splits\<close>)
    qed
  qed
next
  case (R_drain n)
  show ?thesis
  proof (cases "n > 0 \<and> doFlush s \<noteq> []")
    case True
    then obtain r rs where r: "doFlush s = r # rs" by (cases "doFlush s") auto
    show ?thesis by (rule drain [OF R_drain r])
      (use assms R_drain r True in \<open>simp add: run_step_def net_answer_def\<close>)
  next
    case False
    show ?thesis by (rule drained [OF R_drain])
      (use assms R_drain False in \<open>simp add: run_step_def split: list.splits if_splits\<close>)
  qed
next
  case R_retry
  show ?thesis
  proof (cases "retryc s")
    case Nil
    show ?thesis by (rule no_retry [OF R_retry Nil]) (use assms R_retry Nil in \<open>simp add: run_step_def\<close>)
  next
    case (Cons b bs)
    show ?thesis
    proof (cases rule: writeToConn_cases [of b "write_res a" "s\<lparr>retryc := bs\<rparr>"])
      case none
      show ?thesis by (rule retried_none [OF R_retry Cons [unfolded none(1)]])
        (use assms R_retry Cons none in \<open>simp add: run_step_def\<close>)
    next
      case sent
      show ?thesis by (rule retried [OF R_retry Cons])
        (use assms R_retry Cons sent in \<open>simp add: run_step_def\<close>)
    next
      case (failed m)
      show ?thesis by (rule retry_failed [OF R_retry Cons, of m])
        (use assms R_retry Cons failed in \<open>simp add: run_step_def\<close>)
    qed
  qed
next
  case (R_drop b)
  then have "mu s = None" using assms by (simp add: run_step_def split: if_splits)
  then show ?thesis by (rule dropped [OF R_drop]) (use assms R_drop in \<open>simp add: run_step_def split: if_splits\<close>)
next
  case R_select
  show ?thesis
  proof (cases "select a")
    case On_tick
    then have m: "mu s = None" using assms R_select by (simp add: run_step_def split: if_splits)
    show ?thesis by (rule tick [OF R_select m]) (use assms R_select On_tick m in \<open>simp add: run_step_def\<close>)
  next
    case On_flush
    then obtain r rs where r: "doFlush s = r # rs" using assms R_select
      by (cases "doFlush s") (simp_all add: run_step_def)
    show ?thesis by (rule asked [OF R_select r]) (use assms R_select On_flush r in \<open>simp add: run_step_def\<close>)
  next
    case On_out
    then obtain t where t: "take_out (write_res a) s = Some t" using assms R_select
      by (cases "take_out (write_res a) s") (simp_all add: run_step_def)
    show ?thesis by (rule out [OF R_select t]) (use assms R_select On_out t in \<open>simp add: run_step_def\<close>)
  qed
next
  case (R_count r)
  show ?thesis by (rule counted [OF R_count]) (use assms R_count in \<open>simp add: run_step_def\<close>)
next
  case (R_flush r n)
  show ?thesis
  proof (cases "n > 0 \<and> conn s")
    case True
    then obtain t where t: "take_out (write_res a) s = Some t" using assms R_flush
      by (cases "take_out (write_res a) s") (simp_all add: run_step_def)
    from True show ?thesis by (intro flush_out [OF R_flush _ _ t])
      (use assms R_flush True t in \<open>simp_all add: run_step_def\<close>)
  next
    case False
    show ?thesis by (rule flush_done [OF R_flush])
      (use assms R_flush False in \<open>auto simp: run_step_def net_answer_def\<close>)
  qed
qed

section \<open>The invariants are kept\<close>

abbreviation gone :: "netSink \<Rightarrow> string" where
  "gone s \<equiv> departed (events s) @ in_hand (run_at s) @ concat (retryc s)"

lemma passage_same:
  assumes "passage_inv s" and "outc t = outc s" and "outc_cap t = outc_cap s"
    and "accepted (offers t) = accepted (offers s)" and "gone t = gone s"
  shows "passage_inv t"
  using assms by (simp add: passage_inv_def)

lemma passage_take:
  assumes "passage_inv s" and "outc s = b # outc t" and "outc_cap t = outc_cap s"
    and "offers t = offers s" and "gone t = gone s @ b"
  shows "passage_inv t"
proof -
  obtain pre where p: "accepted (offers s) = pre @ b # outc t" "gone s = concat pre"
    using assms(1,2) by (auto simp: passage_inv_def)
  have "accepted (offers t) = (pre @ [b]) @ outc t" "gone t = concat (pre @ [b])"
    using p assms(4,5) by simp_all
  then show ?thesis using assms(1-3) unfolding passage_inv_def
    by (intro conjI exI [of _ "pre @ [b]"]) (auto simp: passage_inv_def)
qed

lemma passage_offer:
  assumes "passage_inv s"
  shows "passage_inv (offer_chunk p d s)"
proof (cases "length (outc s) < outc_cap s")
  case True
  obtain pre where "accepted (offers s) = pre @ outc s" "gone s = concat pre"
    using assms by (auto simp: passage_inv_def)
  then show ?thesis using True
    by (auto simp: passage_inv_def offer_chunk_def in_hand_def)
next
  case False
  then show ?thesis using assms by (intro passage_same [OF assms]) (simp_all add: offer_chunk_def)
qed

lemma passage_net_flush:
  assumes "passage_inv s" and "werr s = None"
  shows "passage_inv (snd (net_flush s))"
  using passage_offer [OF assms(1)] assms by (simp add: net_flush_eq)

lemma net_flush_sel [simp]:
  assumes "werr s = None"
  shows "conn (snd (net_flush s)) = conn s" "retryc (snd (net_flush s)) = retryc s"
    "mu (snd (net_flush s)) = mu s" "doFlush (snd (net_flush s)) = doFlush s"
    "run_at (snd (net_flush s)) = run_at s" "events (snd (net_flush s)) = events s"
    "answered (snd (net_flush s)) = answered s"
  using assms by (simp_all add: net_flush_eq)

lemma take_out_sel:
  assumes "take_out r s = Some t"
  shows "run_at t = run_at s" "offers t = offers s" "doFlush t = doFlush s" "answered t = answered s"
    "outc_cap t = outc_cap s" "mu t = mu s" "wbuf t = wbuf s" "wsize t = wsize s" "werr t = werr s"
    "droppedBytes t = droppedBytes s" "dropped_bytes (events t) = dropped_bytes (events s)"
    "length (outc s) = Suc (length (outc t))" "conn t \<longrightarrow> conn s \<and> retryc t = retryc s"
    "length (retryc s) \<le> 1 \<longrightarrow> length (retryc t) \<le> 1" "prefix (departed (events s)) (departed (events t))"
  using assms by (cases rule: take_out_cases; simp)+

lemma take_out_passage:
  assumes "passage_inv s" and "take_out r s = Some t" and "in_hand (run_at s) = []" and "retryc s = []"
  shows "passage_inv t"
  using assms(2)
proof (cases rule: take_out_cases)
  case (sent b bs)
  then show ?thesis using assms(3,4) by (intro passage_take [OF assms(1)]) auto
next
  case (none bs)
  then show ?thesis by (intro passage_take [OF assms(1)]) auto
next
  case (failed b bs m)
  then show ?thesis using assms(3,4) by (intro passage_take [OF assms(1)]) auto
qed

lemma control_step:
  assumes "control_inv s" and "run_step a s = Some s'" and "werr s = None"
  shows "control_inv s'"
  using assms(2)
proof (cases rule: run_step_cases)
  case (out t)
  then show ?thesis using assms(1) take_out_sel [OF out(2)] by (auto simp: control_inv_def)
next
  case (flush_out r n t)
  then show ?thesis using assms(1) take_out_sel [OF flush_out(4)] by (auto simp: control_inv_def)
qed (use assms(1,3) in \<open>auto simp: control_inv_def handleFlushErrorSize_eq\<close>)

lemma passage_step:
  assumes "passage_inv s" and "control_inv s" and "run_step a s = Some s'" and "werr s = None"
  shows "passage_inv s'"
  using assms(3)
proof (cases rule: run_step_cases)
  case (out t)
  have "passage_inv t" using out assms(1,2)
    by (intro take_out_passage [OF assms(1) out(2)]) (simp_all add: control_inv_def in_hand_def)
  moreover have "run_at t = R_select" using take_out_sel(1) [OF out(2)] out(1) by simp
  ultimately show ?thesis using out(3) by (auto intro: passage_same simp: in_hand_def)
next
  case (flush_out r n t)
  have "passage_inv t" using flush_out assms(1,2)
    by (intro take_out_passage [OF assms(1) flush_out(4)]) (simp_all add: control_inv_def in_hand_def)
  moreover have "run_at t = R_flush r n" using take_out_sel(1) [OF flush_out(4)] flush_out(1) by simp
  ultimately show ?thesis using flush_out(5) by (auto intro: passage_same simp: in_hand_def)
next
  case tick
  show ?thesis using passage_net_flush [OF assms(1,4)] tick assms(4)
    by (auto intro: passage_same simp: in_hand_def)
next
  case (dropped b)
  have acc: "accepted (if c then os @ [Discarded x] else os) = accepted os" for c os x by simp
  show ?thesis using dropped assms(2) acc
    by (intro passage_same [OF assms(1)]) (simp_all add: handleFlushErrorSize_eq control_inv_def in_hand_def)
next
  case (retry_failed b bs m)
  then show ?thesis using assms(2) by (intro passage_same [OF assms(1)]) (simp_all add: control_inv_def in_hand_def)
next
  case (retried b bs)
  then show ?thesis using assms(2) by (intro passage_same [OF assms(1)]) (simp_all add: control_inv_def in_hand_def)
qed (use assms(1,2) in \<open>auto intro!: passage_same [OF assms(1)] simp: control_inv_def in_hand_def\<close>)

lemma answered_more:
  assumes "answered_ok s" and "accepted (offers t) = accepted (offers s) @ x"
    and "\<forall>r. (r, True) \<in> set (answered t) \<longrightarrow> (r, True) \<in> set (answered s)"
    and "prefix (departed (events s)) (departed (events t))"
  shows "answered_ok t"
  unfolding answered_ok_def
proof (intro allI impI)
  fix r assume "(r, True) \<in> set (answered t)"
  then have "r \<le> length (accepted (offers s))"
    "prefix (concat (take r (accepted (offers s)))) (departed (events s))"
    using assms(1,3) by (auto simp: answered_ok_def)
  then show "r \<le> length (accepted (offers t)) \<and> prefix (concat (take r (accepted (offers t)))) (departed (events t))"
    using assms(2,4) by (auto intro: prefix_order.trans)
qed

lemma request_more:
  assumes "request_inv u s" and "accepted (offers t) = accepted (offers s) @ x"
    and "length (outc t) = length (outc s) + length x" and "doFlush t = doFlush s"
    and "run_at t = run_at s" and "conn t = conn s" and "answered t = answered s"
    and "prefix (departed (events s)) (departed (events t))"
  shows "request_inv u t"
proof -
  have "answered_ok t" using assms by (intro answered_more [of s t x]) (simp_all add: request_inv_def)
  moreover have "waiting_ok u t" using assms by (auto simp: request_inv_def waiting_ok_def intro: trans_le_add1)
  moreover have "handled_ok t" using assms
    by (cases "run_at s") (auto simp: request_inv_def handled_ok_def)
  ultimately show ?thesis by (simp add: request_inv_def)
qed

lemma request_offer:
  assumes "request_inv u s"
  shows "request_inv u (offer_chunk p d s)"
proof (cases "length (outc s) < outc_cap s")
  case True
  then show ?thesis by (intro request_more [OF assms, where x = "[p]"]) (simp_all add: offer_chunk_def)
next
  case False
  then show ?thesis by (intro request_more [OF assms, where x = "[]"]) (simp_all add: offer_chunk_def)
qed

lemma request_net_flush: "request_inv u s \<Longrightarrow> werr s = None \<Longrightarrow> request_inv u (snd (net_flush s))"
  by (simp add: net_flush_eq request_offer)

lemma request_quiet:
  assumes "request_inv u s" and "accepted (offers t) = accepted (offers s)"
    and "set (doFlush t) \<subseteq> set (doFlush s)" and "length (doFlush t) \<le> length (doFlush s)"
    and "\<forall>r n. run_at t \<noteq> R_count r \<and> run_at t \<noteq> R_flush r n"
    and "\<forall>r. (r, True) \<in> set (answered t) \<longrightarrow> (r, True) \<in> set (answered s)"
    and "prefix (departed (events s)) (departed (events t))"
  shows "request_inv u t"
proof -
  have "answered_ok t" using assms by (intro answered_more [of s t "[]"]) (simp_all add: request_inv_def)
  moreover have "waiting_ok u t" using assms(1-4) by (auto simp: request_inv_def waiting_ok_def)
  moreover have "handled_ok t" using assms(5) by (cases "run_at t") (simp_all add: handled_ok_def)
  ultimately show ?thesis by (simp add: request_inv_def)
qed

lemma taken_prefix:
  assumes "passage_inv s" and "r + length (outc s) \<le> length (accepted (offers s))"
    and "in_hand (run_at s) = []" and "retryc s = []"
  shows "prefix (concat (take r (accepted (offers s)))) (departed (events s))"
proof -
  obtain pre where p: "accepted (offers s) = pre @ outc s" "departed (events s) = concat pre"
    using assms(1,3,4) by (auto simp: passage_inv_def)
  then have "take r (accepted (offers s)) = take r pre" using assms(2) by simp
  moreover have "concat pre = concat (take r pre) @ concat (drop r pre)"
    by (metis append_take_drop_id concat_append)
  ultimately show ?thesis using p(2) by simp
qed

lemma request_handled:
  assumes "request_inv u s" and "accepted (offers t) = accepted (offers s)" and "set (doFlush t) \<subseteq> set (doFlush s)"
    and "length (doFlush t) \<le> length (doFlush s)" and "answered t = answered s"
    and "prefix (departed (events s)) (departed (events t))" and "handled_ok t"
  shows "request_inv u t"
proof -
  have "answered_ok t" using assms by (intro answered_more [of s t "[]"]) (simp_all add: request_inv_def)
  moreover have "waiting_ok u t" using assms(1-4) by (auto simp: request_inv_def waiting_ok_def)
  ultimately show ?thesis using assms(7) by (simp add: request_inv_def)
qed

lemma request_step:
  assumes "request_inv u s" and "passage_inv s" and "control_inv s" and "run_step a s = Some s'"
    and "werr s = None"
  shows "request_inv u s'"
  using assms(4)
proof (cases rule: run_step_cases)
  case tick
  then show ?thesis using assms(5)
    by (intro request_quiet [OF request_net_flush [OF assms(1,5)]]) simp_all
next
  case (asked r rs)
  then have "r \<le> length (accepted (offers s))" using assms(1) by (simp add: request_inv_def waiting_ok_def)
  then show ?thesis using asked by (intro request_handled [OF assms(1)]) (auto simp: handled_ok_def)
next
  case (out t)
  then show ?thesis using take_out_sel [OF out(2)] by (intro request_quiet [OF assms(1)]) auto
next
  case (counted r)
  then have "r \<le> length (accepted (offers s))" using assms(1) by (simp add: request_inv_def handled_ok_def)
  then show ?thesis using counted by (intro request_handled [OF assms(1)]) (auto simp: handled_ok_def)
next
  case (flush_out r n t)
  note t = take_out_sel [OF flush_out(4)]
  have "r \<le> length (accepted (offers s))" "r + length (outc s) \<le> length (accepted (offers s)) + n"
    using assms(1) flush_out(1,3) by (simp_all add: request_inv_def handled_ok_def)
  then have "handled_ok s'" using flush_out(2,5) t(2,12) by (cases n) (simp_all add: handled_ok_def)
  then show ?thesis using flush_out(5) t by (intro request_handled [OF assms(1)]) simp_all
next
  case (flush_done r n)
  have r: "r \<le> length (accepted (offers s))"
    "conn s \<Longrightarrow> r + length (outc s) \<le> length (accepted (offers s))"
    using flush_done assms(1) by (auto simp: request_inv_def handled_ok_def)
  moreover have "conn s \<Longrightarrow> retryc s = []" using flush_done assms(3) by (simp add: control_inv_def)
  ultimately have "conn s \<Longrightarrow> prefix (concat (take r (accepted (offers s)))) (departed (events s))"
    using flush_done by (intro taken_prefix [OF assms(2)]) (simp_all add: in_hand_def)
  then have "answered_ok s'" using flush_done(3) assms(1) r(1)
    by (auto simp: request_inv_def answered_ok_def)
  then show ?thesis using flush_done assms(1) by (simp add: request_inv_def waiting_ok_def handled_ok_def)
next
  case (dropped b)
  then show ?thesis by (intro request_quiet [OF assms(1)]) (simp_all add: handleFlushErrorSize_eq)
next
  case (refused n)
  then show ?thesis by (intro request_quiet [OF assms(1)]) auto
next
  case (drain n r rs)
  then show ?thesis using assms(3) by (intro request_quiet [OF assms(1)]) (auto simp: control_inv_def)
qed (intro request_quiet [OF assms(1)], simp_all)+

lemma writer_step:
  assumes "writer_inv ls s" and "run_step a s = Some s'"
  shows "writer_inv ls s'"
  using assms(2)
proof (cases rule: run_step_cases)
  case (out t)
  then show ?thesis using take_out_sel [OF out(2)] out(2)
    by (intro writer_inv_cong [OF assms(1)]) simp_all
next
  case (flush_out r n t)
  then show ?thesis using take_out_sel [OF flush_out(4)] flush_out(4)
    by (intro writer_inv_cong [OF assms(1)]) simp_all
next
  case tick
  then show ?thesis by (intro writer_inv_cong [OF writer_inv_net_flush [OF assms(1)]]) simp_all
next
  case (dropped b)
  then show ?thesis
    by (intro writer_inv_cong [OF writer_inv_drop [OF assms(1) dropped(2), of Conn_error b]]) simp_all
next
  case (refused n)
  then show ?thesis by (intro writer_inv_cong [OF assms(1)]) auto
qed (intro writer_inv_cong [OF assms(1)], simp_all)+

section \<open>All runs\<close>

definition fresh_sink :: "netSink \<Rightarrow> bool" where
  "fresh_sink s \<longleftrightarrow>
     \<not> conn s \<and> outc s = [] \<and> retryc s = [] \<and> mu s = None \<and> wbuf s = [] \<and> werr s = None \<and>
     doFlush s = [] \<and> droppedBytes s = 0 \<and> run_at s = R_top \<and> offers s = [] \<and> events s = [] \<and> answered s = []"

definition net_inv :: "net_users \<Rightarrow> netSink \<Rightarrow> bool" where
  "net_inv u s \<longleftrightarrow> writer_inv (lines u) s \<and> control_inv s \<and> passage_inv s \<and> request_inv u s"

lemma call_line_nonempty: "c \<noteq> FlushSink \<Longrightarrow> call_line c \<noteq> []"
  by (cases c) (auto simp: line_defs)

lemma request_users:
  "request_inv u s \<Longrightarrow> set (requests v) \<subseteq> set (requests u) \<Longrightarrow> request_inv v s"
  by (auto simp: request_inv_def waiting_ok_def)

lemma net_inv_same:
  assumes "control_inv s \<and> passage_inv s \<and> request_inv u s"
    and "conn t = conn s" "outc t = outc s" "outc_cap t = outc_cap s" "retryc t = retryc s"
    and "doFlush t = doFlush s" "run_at t = run_at s" "offers t = offers s" "events t = events s"
    and "answered t = answered s"
  shows "control_inv t \<and> passage_inv t \<and> request_inv u t"
  using assms by (simp add: control_inv_def passage_inv_def request_defs cong: run_pc.case_cong)

lemma net_inv_offer:
  assumes "control_inv s \<and> passage_inv s \<and> request_inv u s"
  shows "control_inv (offer_chunk p d s) \<and> passage_inv (offer_chunk p d s) \<and> request_inv u (offer_chunk p d s)"
proof -
  have "length (outc s) \<le> length (outc (offer_chunk p d s))" by (simp add: offer_chunk_def)
  then have "control_inv (offer_chunk p d s)" using assms
    by (cases "run_at s") (auto simp: control_inv_def)
  then show ?thesis using assms passage_offer request_offer by blast
qed

abbreviation chan_inv :: "net_users \<Rightarrow> netSink \<Rightarrow> bool" where
  "chan_inv u s \<equiv> control_inv s \<and> passage_inv s \<and> request_inv u s"

lemma net_inv_parts: "net_inv u s \<longleftrightarrow> writer_inv (lines u) s \<and> chan_inv u s"
  by (simp add: net_inv_def)

lemma chan_inv_net_flush:
  assumes "chan_inv u s" and "werr s = None"
  shows "chan_inv u (snd (net_flush s))"
  using assms(1) net_inv_offer [OF assms(1)] by (simp add: net_flush_eq [OF assms(2)])

lemma net_inv_begin:
  assumes "net_inv u s" and "mu s = None" and "b \<noteq> []"
  shows "net_inv u ((writeBuffer_flush b s)\<lparr>mu := Some b\<rparr>)"
proof -
  have w: "writer_inv (lines u) s" "werr s = None" and i: "chan_inv u s"
    using assms(1) by (simp_all add: net_inv_parts writer_inv_def)
  have "chan_inv u (writeBuffer_flush b s)"
    using i chan_inv_net_flush [OF i w(2)] by (simp add: writeBuffer_flush_eq)
  then have "chan_inv u ((writeBuffer_flush b s)\<lparr>mu := Some b\<rparr>)" by (rule net_inv_same) simp_all
  with writer_inv_begin [OF w(1) assms(2,3)] show ?thesis by (simp only: net_inv_parts simp_thms)
qed

lemma net_inv_end:
  assumes "net_inv u s" and "mu s = Some b"
  shows "net_inv (u\<lparr>lines := lines u @ [b]\<rparr>) ((writeBuffer_write b s)\<lparr>mu := None\<rparr>)"
proof -
  have w: "writer_inv (lines u) s" "werr s = None" and i: "chan_inv u s"
    using assms(1) by (simp_all add: net_inv_parts writer_inv_def)
  have wf: "length b \<le> wavail s \<or> wbuf s = []" using w(1) assms(2) by (simp add: writer_inv_def)
  have "chan_inv u (writeBuffer_write b s)"
  proof (cases "length b \<le> wavail s")
    case True
    then show ?thesis using i by (intro net_inv_same [OF i]) (simp_all add: writeBuffer_write_fits w(2))
  next
    case False
    then have "writeBuffer_write b s = offer_chunk b 0 s" using wf w(2) by (simp add: writeBuffer_write_large)
    then show ?thesis using net_inv_offer [OF i] by simp
  qed
  then have "chan_inv u ((writeBuffer_write b s)\<lparr>mu := None\<rparr>)" by (rule net_inv_same) simp_all
  then have "chan_inv (u\<lparr>lines := lines u @ [b]\<rparr>) ((writeBuffer_write b s)\<lparr>mu := None\<rparr>)"
    by (simp add: request_inv_def waiting_ok_def)
  with writer_inv_end [OF w(1) assms(2)] show ?thesis by (simp add: net_inv_parts)
qed

lemma net_inv_flush:
  assumes "net_inv u s" and "net_flush s = (err, s')"
  shows "net_inv u s'" and "net_inv (u\<lparr>requests := length (accepted (offers s')) # requests u\<rparr>) s'"
proof -
  have w: "writer_inv (lines u) s" "werr s = None" and i: "chan_inv u s"
    using assms(1) by (simp_all add: net_inv_parts writer_inv_def)
  have s': "s' = snd (net_flush s)" using assms(2) by simp
  show "net_inv u s'"
    using chan_inv_net_flush [OF i w(2)] writer_inv_net_flush [OF w(1)] by (simp add: net_inv_parts s')
  then show "net_inv (u\<lparr>requests := length (accepted (offers s')) # requests u\<rparr>) s'"
    by (simp add: net_inv_parts request_inv_def waiting_ok_def)
qed

lemma net_inv_request:
  assumes "net_inv u s" and "r \<in> set (requests u)" and "length (doFlush s) < doFlush_cap"
  shows "net_inv (u\<lparr>requests := remove1 r (requests u)\<rparr>) (s\<lparr>doFlush := doFlush s @ [r]\<rparr>)"
proof -
  define t where "t = s\<lparr>doFlush := doFlush s @ [r]\<rparr>"
  define v where "v = u\<lparr>requests := remove1 r (requests u)\<rparr>"
  have t: "conn t = conn s" "outc t = outc s" "outc_cap t = outc_cap s" "retryc t = retryc s"
    "run_at t = run_at s" "offers t = offers s" "events t = events s" "answered t = answered s"
    "doFlush t = doFlush s @ [r]" "lines v = lines u" "set (requests v) \<subseteq> set (requests u)"
    by (simp_all add: t_def v_def set_remove1_subset)
  have i: "control_inv s" "passage_inv s" "waiting_ok u s" "handled_ok s" "answered_ok s" "writer_inv (lines u) s"
    using assms(1) by (simp_all add: net_inv_def request_inv_def)
  have "writer_inv (lines v) t" using i(6) by (intro writer_inv_cong [where s = s and t = t, OF i(6) [folded t(10)]]) (simp_all add: t_def)
  moreover have "waiting_ok v t" using i(3) assms(2,3) t(6,9,11) by (auto simp: waiting_ok_def)
  moreover have "control_inv t" using i(1) by (simp add: control_inv_def t cong: run_pc.case_cong)
  moreover have "passage_inv t" using i(2) by (simp add: passage_inv_def t)
  moreover have "handled_ok t" using i(4) by (simp add: handled_ok_def t cong: run_pc.case_cong)
  moreover have "answered_ok t" using i(5) by (simp add: answered_ok_def t)
  ultimately have "net_inv v t" by (simp add: net_inv_def request_inv_def)
  then show ?thesis unfolding t_def v_def .
qed

lemma net_inv_run:
  assumes "net_inv u s" and "run_step a s = Some s'"
  shows "net_inv u s'"
proof -
  have "werr s = None" using assms(1) by (simp add: net_inv_def writer_inv_def)
  note step = writer_step [OF _ assms(2)] control_step [OF _ assms(2) this]
    passage_step [OF _ _ assms(2) this] request_step [OF _ _ _ assms(2) this]
  show ?thesis using assms(1) unfolding net_inv_def by (elim conjE) (intro conjI step; assumption)
qed

lemma net_inv_fresh:
  assumes "fresh_sink s0"
  shows "net_inv \<lparr>lines = [], requests = []\<rparr> s0"
proof -
  have "writer_inv [] s0" using assms by (simp add: fresh_sink_def writer_inv_def grouped_Nil)
  moreover have "control_inv s0" using assms by (simp add: fresh_sink_def control_inv_def)
  moreover have "passage_inv s0" using assms by (simp add: fresh_sink_def passage_inv_def in_hand_def)
  moreover have "request_inv \<lparr>lines = [], requests = []\<rparr> s0" using assms by (simp add: fresh_sink_def request_defs)
  ultimately show ?thesis by (simp add: net_inv_def)
qed

theorem net_run_inv:
  assumes "fresh_sink s0" and "net_run s0 u s"
  shows "net_inv u s"
  using assms(2)
proof induction
  case start
  show ?case by (rule net_inv_fresh [OF assms(1)])
next
  case (write_begin u s c)
  then show ?case using net_inv_begin [OF _ _ call_line_nonempty] by blast
next
  case (write_end u s b)
  show ?case by (rule net_inv_end [OF write_end.IH write_end.hyps(2)])
next
  case (flush_ok u s s')
  show ?case by (rule net_inv_flush(2) [OF flush_ok.IH flush_ok.hyps(3)])
next
  case (flush_fails u s err s')
  show ?case by (rule net_inv_flush(1) [OF flush_fails.IH flush_fails.hyps(3)])
next
  case (request u s r)
  show ?case by (rule net_inv_request [OF request.IH request.hyps(2,3)])
next
  case (run u s a s')
  show ?case by (rule net_inv_run [OF run.IH run.hyps(2)])
qed

end
