(* ===== verification/Net_Props.thy ===== *)
theory Net_Props
  imports NetSink_Run Sink_Props
begin

text \<open>Properties of the network sink, alone and behind a store.\<close>

section \<open>Constructed sinks\<close>

lemma apply_option_fresh: "fresh_sink s \<Longrightarrow> fresh_sink (apply_option opt s)"
  by (cases opt) (simp_all add: apply_option_def fresh_sink_def)

lemma apply_options_fresh: "fresh_sink s \<Longrightarrow> fresh_sink (fold apply_option opts s)"
  by (induction opts arbitrary: s) (simp_all add: apply_option_fresh)

lemma NewNetSink_fresh:
  assumes "NewNetSink e opts = Inr s0"
  shows "fresh_sink s0" and "wsize s0 = buffer_size (StatsdProtocol (conf s0))"
    and "outc_cap s0 = approxMaxMemBytes div wsize s0"
proof -
  obtain settings where g: "GetSettings e = Inr settings"
    using assms by (cases "GetSettings e") (simp_all add: NewNetSink_def)
  let ?s = "fold apply_option opts (new_sink settings)"
  let ?b = "buffer_size (StatsdProtocol (conf ?s))"
  have s0: "s0 = ?s\<lparr>outc_cap := approxMaxMemBytes div ?b, wsize := ?b\<rparr>"
    using assms g by (simp add: NewNetSink_def Let_def)
  have "fresh_sink ?s" by (rule apply_options_fresh) (simp add: fresh_sink_def new_sink_def)
  then show "fresh_sink s0" by (simp add: s0 fresh_sink_def)
  show "wsize s0 = buffer_size (StatsdProtocol (conf s0))" "outc_cap s0 = approxMaxMemBytes div wsize s0"
    by (simp_all add: s0)
qed

definition same_config :: "netSink \<Rightarrow> netSink \<Rightarrow> bool" where
  "same_config s t \<longleftrightarrow> wsize t = wsize s \<and> outc_cap t = outc_cap s"

lemma same_config_net_flush: "werr s = None \<Longrightarrow> same_config s (snd (net_flush s))"
  by (simp add: net_flush_eq same_config_def)

lemma same_config_run:
  assumes "run_step a s = Some s'" and "werr s = None"
  shows "same_config s s'"
  using assms(1)
proof (cases rule: run_step_cases)
  case tick
  then show ?thesis using same_config_net_flush [OF assms(2)] by (simp add: same_config_def)
next
  case (out t)
  then show ?thesis using take_out_sel [OF out(2)] by (simp add: same_config_def)
next
  case (flush_out r n t)
  then show ?thesis using take_out_sel [OF flush_out(4)] by (simp add: same_config_def)
next
  case (refused n)
  then show ?thesis by (auto simp: same_config_def)
qed (simp_all add: same_config_def handleFlushErrorSize_eq)

lemma net_run_config:
  assumes "fresh_sink s0" and "net_run s0 u s"
  shows "same_config s0 s"
  using assms(2)
proof induction
  case (write_begin u s c)
  then have "werr s = None" using net_run_inv [OF assms(1)] by (auto simp: net_inv_def writer_inv_def)
  then show ?case using write_begin.IH same_config_net_flush [of s]
    by (simp add: same_config_def writeBuffer_flush_eq)
next
  case (write_end u s b)
  then have "writer_inv (lines u) s" using net_run_inv [OF assms(1)] by (simp add: net_inv_def)
  then have w: "werr s = None" "length b \<le> wavail s \<or> wbuf s = []"
    using write_end.hyps by (auto simp: writer_inv_def)
  then have "same_config s (writeBuffer_write b s)"
    by (cases "length b \<le> wavail s")
      (simp_all add: same_config_def writeBuffer_write_fits writeBuffer_write_large)
  then show ?case using write_end.IH by (simp add: same_config_def)
next
  case (run u s a s')
  then have "werr s = None" using net_run_inv [OF assms(1)] by (auto simp: net_inv_def writer_inv_def)
  then show ?case using same_config_run [OF run.hyps(2)] run.IH by (simp add: same_config_def)
next
  case (flush_ok u s s')
  then have "werr s = None" using net_run_inv [OF assms(1)] by (auto simp: net_inv_def writer_inv_def)
  then show ?case using same_config_net_flush [of s] flush_ok.hyps flush_ok.IH by (simp add: same_config_def)
next
  case (flush_fails u s err s')
  then have "werr s = None" using net_run_inv [OF assms(1)] by (auto simp: net_inv_def writer_inv_def)
  then show ?case using same_config_net_flush [of s] flush_fails.hyps flush_fails.IH by (simp add: same_config_def)
qed (simp_all add: same_config_def)

text \<open>The methods of the sink write the line of the call, in the two parts a run separates.\<close>

lemma net_methods:
  "net_FlushCounter n v s = writeBuffer (call_line (FlushCounter n v)) s"
  "net_FlushGauge n v s = writeBuffer (call_line (FlushGauge n v)) s"
  "net_FlushTimer n w s = writeBuffer (call_line (FlushTimer n w)) s"
  by (simp_all add: net_FlushCounter_def net_FlushGauge_def net_FlushTimer_def flushUint64_def
      flushFloat64_def call_line_def counter_line_def gauge_line_def timer_line_def)

section \<open>Two runs\<close>

fun run_steps :: "answer list \<Rightarrow> netSink \<Rightarrow> netSink option" where
  "run_steps [] s = Some s"
| "run_steps (a # as) s = (case run_step a s of None \<Rightarrow> None | Some s' \<Rightarrow> run_steps as s')"

lemma net_run_steps: "net_run s0 u s \<Longrightarrow> run_steps as s = Some s' \<Longrightarrow> net_run s0 u s'"
  by (induction as arbitrary: s) (auto split: option.splits intro: net_run.run)

abbreviation demo_conf :: Settings where
  "demo_conf \<equiv> \<lparr>UseStatsd = True, StatsdHost = ''localhost'', StatsdProtocol = ''udp'', StatsdPort = 8125,
     FlushIntervalS = 5, LoggingSinkDisabled = False, PruneIdleSeconds = 0\<rparr>"

abbreviation demo_net :: "bool \<Rightarrow> string list \<Rightarrow> string list \<Rightarrow> string option \<Rightarrow> string \<Rightarrow> nat list \<Rightarrow> u64 \<Rightarrow>
    run_pc \<Rightarrow> offer list \<Rightarrow> net_event list \<Rightarrow> log_entry list \<Rightarrow> (nat \<times> bool) list \<Rightarrow> netSink" where
  "demo_net c out retry m w fl d pc os es lg ans \<equiv>
     \<lparr>conn = c, outc = out, outc_cap = 2928, retryc = retry, mu = m, wbuf = w, wsize = 1432, werr = None,
      doFlush = fl, droppedBytes = d, logger = None, conf = demo_conf, run_at = pc, reconnectFailed = False,
      offers = os, events = es, logged = lg, answered = ans\<rparr>"

definition demo_sink :: netSink where
  "demo_sink = demo_net False [] [] None [] [] 0 R_top [] [] [] []"

lemma NewNetSink_demo: "NewNetSink (\<lambda>_. []) [WithStatsdProtocol ''udp''] = Inr demo_sink"
  by (simp add: NewNetSink_def GetSettings_def check_env_def envBool_def envInt_def envOr_def
      DefaultUseStatsd_def DefaultStatsdHost_def DefaultStatsdProtocol_def DefaultStatsdPort_def
      DefaultFlushIntervalS_def DefaultLoggingSinkDisabled_def DefaultPruneIdleSeconds_def new_sink_def
      apply_option_def buffer_size_def defaultBufferSizeUDP_def approxMaxMemBytes_def demo_sink_def)

abbreviation demo_line :: string where
  "demo_line \<equiv> ''a:5|c'' @ [newline]"

lemma demo_line: "call_line (FlushCounter ''a'' 5) = demo_line"
  by code_simp

abbreviation up :: "select_case \<Rightarrow> answer" where
  "up c \<equiv> \<lparr>dial_ok = True, write_res = Write_all, select = c\<rparr>"

abbreviation broken :: answer where
  "broken \<equiv> \<lparr>dial_ok = True, write_res = Write_partial 2, select = On_out\<rparr>"

lemma demo_addr: "net_addr s = ''localhost:8125''" if "conf s = demo_conf"
proof -
  have "digit_char 8 = CHR ''8''" "digit_char 1 = CHR ''1''" "digit_char 2 = CHR ''2''" "digit_char 5 = CHR ''5''"
    by code_simp+
  then have "go_Itoa 8125 = ''8125''" by (simp add: go_Itoa_def format_nat.simps)
  with that show ?thesis by (simp add: net_addr_def)
qed

lemmas net_eval = run_step_def net_connect_def demo_addr take_out_def writeToConn_def send_retry_def
  retryc_cap_def net_answer_def Let_def

definition demo_lines :: net_users where
  "demo_lines = \<lparr>lines = [demo_line], requests = []\<rparr>"

definition demo_connected :: net_event where
  "demo_connected = Connected ''udp'' ''localhost:8125''"

lemma demo_write:
  assumes "net_run demo_sink \<lparr>lines = ls, requests = rs\<rparr> (demo_net c out retry None [] fl d pc os es lg ans)"
  shows "net_run demo_sink \<lparr>lines = ls @ [demo_line], requests = rs\<rparr> (demo_net c out retry None demo_line fl d pc os es lg ans)"
proof -
  have "net_run demo_sink \<lparr>lines = ls, requests = rs\<rparr> (demo_net c out retry (Some demo_line) [] fl d pc os es lg ans)"
    using net_run.write_begin [OF assms, of "FlushCounter ''a'' 5"]
    by (simp add: demo_line writeBuffer_flush_eq wavail_def)
  from net_run.write_end [OF this, of demo_line] show ?thesis
    by (simp add: writeBuffer_write_fits wavail_def)
qed

lemma demo_flush:
  assumes "net_run demo_sink \<lparr>lines = ls, requests = rs\<rparr> (demo_net c [] retry None demo_line fl d pc os es lg ans)"
  shows "net_run demo_sink \<lparr>lines = ls, requests = Suc (length (accepted os)) # rs\<rparr>
    (demo_net c [demo_line] retry None [] fl d pc (os @ [Accepted demo_line]) es lg ans)"
  using net_run.flush_ok [OF assms] by (simp add: net_flush_eq offer_chunk_def)

definition demo_delivered :: netSink where
  "demo_delivered = demo_net True [] [] None [] [] 0 R_top [Accepted demo_line] [demo_connected, Sent demo_line] [] [(1, True)]"

lemma run_delivered: "net_run demo_sink demo_lines demo_delivered"
proof -
  have "net_run demo_sink \<lparr>lines = [], requests = []\<rparr> (demo_net False [] [] None [] [] 0 R_top [] [] [] [])"
    using net_run.start [of demo_sink] by (simp add: demo_sink_def)
  from net_run.request [OF demo_flush [OF demo_write [OF this]], of 1]
  have "net_run demo_sink demo_lines
      (demo_net False [demo_line] [] None [] [1] 0 R_top [Accepted demo_line] [] [] [])"
    by (simp add: doFlush_cap_def demo_lines_def)
  then show ?thesis
    by (rule net_run_steps [where as = "let a = up On_flush in [a, a, a, a, a, a]"])
      (simp add: demo_delivered_def demo_connected_def net_eval)
qed

text \<open>A run in which a buffer fails twice, the second time while a line waits in the writer.\<close>

definition demo_lossy :: netSink where
  "demo_lossy = demo_net False [] [] None [] [] 2 R_top [Accepted demo_line, Discarded demo_line]
     [demo_connected, Sent ''a:'', Closed, demo_connected, Sent ''5|'', Closed, Dropped (''c'' @ [newline])]
     [Log_dropped 2 Conn_error] []"

lemma run_failed_once: "net_run demo_sink \<lparr>lines = [demo_line, demo_line], requests = [1]\<rparr>
    (demo_net False [] [''5|c'' @ [newline]] None demo_line [] 0 R_top [Accepted demo_line]
       [demo_connected, Sent ''a:'', Closed] [] [])"
proof -
  have "net_run demo_sink \<lparr>lines = [], requests = []\<rparr> (demo_net False [] [] None [] [] 0 R_top [] [] [] [])"
    using net_run.start [of demo_sink] by (simp add: demo_sink_def)
  from demo_flush [OF demo_write [OF this]]
  have "net_run demo_sink \<lparr>lines = [demo_line], requests = [1]\<rparr>
      (demo_net False [demo_line] [] None [] [] 0 R_top [Accepted demo_line] [] [] [])" by simp
  then have "net_run demo_sink \<lparr>lines = [demo_line], requests = [1]\<rparr>
      (demo_net False [] [''5|c'' @ [newline]] None [] [] 0 R_top [Accepted demo_line]
         [demo_connected, Sent ''a:'', Closed] [] [])"
    by (rule net_run_steps [where as = "[up On_out, up On_out, broken]"])
      (simp add: demo_connected_def net_eval)
  from demo_write [OF this] show ?thesis by simp
qed

lemma run_lossy: "net_run demo_sink \<lparr>lines = [demo_line, demo_line], requests = [1]\<rparr> demo_lossy"
  by (rule net_run_steps [OF run_failed_once, where as = "[up On_out, broken, broken]"])
    (simp add: demo_connected_def net_eval demo_lossy_def handleFlushErrorSize_def bufio_Reset_def
      logOnEveryNDroppedBytes_def)

section \<open>The stream\<close>

lemma grouped_stream: "grouped w ls os rest \<Longrightarrow> concat (map chunk os) @ rest = concat ls"
proof -
  assume "grouped w ls os rest"
  then obtain gs r where "ls = concat gs @ r" "map chunk os = map concat gs" "rest = concat r"
    by (auto simp: grouped_def)
  moreover have "concat (map concat gs) = concat (concat gs)" by (induction gs) auto
  ultimately show ?thesis by simp
qed

text \<open>
  C8: every byte of every line is accounted for, in every run: in order, the lines are what was
  offered to the channel and what is still in the writer; what entered the channel was sent, or given
  up after a second failure, or is still on its way; and \<open>droppedBytes\<close> counts, modulo \<open>2 ^ 64\<close>, the
  refused buffers and the buffers given up, but neither a refused line larger than the writer nor what
  a reset discards.
\<close>

theorem net_stream_accounted:
  assumes "NewNetSink e opts = Inr s0" and "net_run s0 u s"
  shows "concat (map chunk (offers s)) @ wbuf s = concat (lines u) \<and>
         departed (events s) @ in_hand (run_at s) @ concat (retryc s) @ concat (outc s) =
           concat (accepted (offers s)) \<and>
         droppedBytes s = of_nat (refused_bytes (wsize s) (offers s) + dropped_bytes (events s))"
proof -
  have inv: "net_inv u s" by (rule net_run_inv [OF NewNetSink_fresh(1) [OF assms(1)] assms(2)])
  then obtain pre where "accepted (offers s) = pre @ outc s" "gone s = concat pre"
    by (auto simp: net_inv_def passage_inv_def)
  then have "gone s @ concat (outc s) = concat (accepted (offers s))" by simp
  moreover have "concat (map chunk (offers s)) @ wbuf s = concat (lines u)"
    using inv by (intro grouped_stream [where w = "wsize s"]) (simp add: net_inv_def writer_inv_def)
  ultimately show ?thesis using inv by (simp add: net_inv_def writer_inv_def)
qed

theorem net_stream_accounted_witness:
  "departed (events demo_lossy) = demo_line \<and> droppedBytes demo_lossy = 2"
  using net_stream_accounted [OF NewNetSink_demo run_lossy]
  by (simp add: demo_lossy_def demo_connected_def in_hand_def)

text \<open>
  C17: what the accounting leaves out.  Whenever, in any run, the second attempt to write a buffer has
  failed and \<open>run\<close> gives up the rest \<open>b\<close> of it, it also empties the writer.  What that held are whole
  lines, the last that were handed to the sink; they have nothing to do with \<open>b\<close>, never enter the
  channel, and are not counted: \<open>droppedBytes\<close> grows by the length of \<open>b\<close> only.
\<close>

theorem retry_failure_discards:
  assumes "NewNetSink e opts = Inr s0" and "net_run s0 u s"
    and "run_at s = R_drop b" and "mu s = None"
  shows "\<exists>s'. run_step a s = Some s' \<and> run_at s' = R_top \<and> wbuf s' = [] \<and>
           offers s' = offers s @ (if wbuf s = [] then [] else [Discarded (wbuf s)]) \<and>
           (\<exists>pre ls. lines u = pre @ ls \<and> wbuf s = concat ls \<and> concat (map chunk (offers s)) = concat pre) \<and>
           events s' = events s @ [Dropped b] \<and> outc s' = outc s \<and>
           droppedBytes s' = droppedBytes s + of_nat (length b)"
proof -
  let ?s = "(handleFlushErrorSize Conn_error (length b) (s\<lparr>events := events s @ [Dropped b]\<rparr>))\<lparr>run_at := R_top\<rparr>"
  have w: "writer_inv (lines u) s"
    using net_run_inv [OF NewNetSink_fresh(1) [OF assms(1)] assms(2)] by (simp add: net_inv_def)
  then obtain gs r where g: "lines u = concat gs @ r" "map chunk (offers s) = map concat gs" "wbuf s = concat r"
    by (auto simp: writer_inv_def grouped_def)
  have "concat (map concat gs) = concat (concat gs)" by (induction gs) auto
  with g have "\<exists>pre ls. lines u = pre @ ls \<and> wbuf s = concat ls \<and> concat (map chunk (offers s)) = concat pre"
    by auto
  moreover have "run_step a s = Some ?s" using assms(3,4) by (simp add: run_step_def)
  moreover have "werr s = None" using w by (simp add: writer_inv_def)
  ultimately show ?thesis
    by (intro exI [of _ ?s]) (simp add: handleFlushErrorSize_eq bufio_Reset_def count_drop_def Let_def)
qed

theorem retry_failure_discards_witness:
  "\<exists>s. net_run demo_sink \<lparr>lines = [demo_line, demo_line], requests = [1]\<rparr> s \<and> wbuf s = demo_line \<and>
     (\<exists>s'. run_step broken s = Some s' \<and> wbuf s' = [] \<and> droppedBytes s' = 2)"
proof -
  let ?s = "demo_net False [] [] None demo_line [] 0 (R_drop (''c'' @ [newline])) [Accepted demo_line]
     [demo_connected, Sent ''a:'', Closed, demo_connected, Sent ''5|'', Closed] [] []"
  have "net_run demo_sink \<lparr>lines = [demo_line, demo_line], requests = [1]\<rparr> ?s"
    by (rule net_run_steps [OF run_failed_once, where as = "[up On_out, broken]"])
      (simp add: demo_connected_def net_eval)
  from this retry_failure_discards [OF NewNetSink_demo this, of "''c'' @ [newline]" broken]
  show ?thesis by (intro exI [of _ ?s]) auto
qed

text \<open>
  C15: what \<open>run\<close> sends are whole lines: each buffer that entered the channel is a sequence of
  consecutive lines and no longer than the buffer size of the protocol, 1432 bytes for UDP, unless it
  is one line that is longer; and the channel holds at most as many buffers as it was made for.
\<close>

theorem net_buffers_whole_lines:
  assumes "NewNetSink e opts = Inr s0" and "net_run s0 u s"
  shows "length (outc s) \<le> approxMaxMemBytes div buffer_size (StatsdProtocol (conf s0)) \<and>
         set (outc s) \<subseteq> set (accepted (offers s)) \<and>
         (\<forall>p \<in> set (accepted (offers s)). \<exists>a ls b. lines u = a @ ls @ b \<and> p = concat ls \<and>
            (length p \<le> buffer_size (StatsdProtocol (conf s0)) \<or> (\<exists>l. ls = [l])))"
proof (intro conjI ballI)
  note new = NewNetSink_fresh [OF assms(1)]
  have inv: "writer_inv (lines u) s" "passage_inv s"
    using net_run_inv [OF new(1) assms(2)] by (simp_all add: net_inv_def)
  have cfg: "wsize s = buffer_size (StatsdProtocol (conf s0))"
    "outc_cap s = approxMaxMemBytes div buffer_size (StatsdProtocol (conf s0))"
    using net_run_config [OF new(1) assms(2)] new(2,3) by (simp_all add: same_config_def)
  show "length (outc s) \<le> approxMaxMemBytes div buffer_size (StatsdProtocol (conf s0))"
    using inv(2) cfg by (simp add: passage_inv_def)
  show "set (outc s) \<subseteq> set (accepted (offers s))" using inv(2) by (auto simp: passage_inv_def)
  fix p assume "p \<in> set (accepted (offers s))"
  then have "Accepted p \<in> set (offers s)" by (auto simp: accepted_def split: offer.splits)
  then have "chunk (Accepted p) \<in> chunk ` set (offers s)" by (rule imageI)
  then have p: "p \<in> set (map chunk (offers s))" by simp
  obtain gs r where g: "lines u = concat gs @ r" "map chunk (offers s) = map concat gs"
    "\<forall>g \<in> set gs. length (concat g) \<le> wsize s \<or> (\<exists>l. g = [l])"
    using inv(1) unfolding writer_inv_def grouped_def by blast
  from p obtain g where "g \<in> set gs" "p = concat g" unfolding g(2) by (auto simp only: set_map)
  then obtain xs ys where x: "gs = xs @ g # ys" "p = concat g" by (auto dest: split_list)
  then have "lines u = concat xs @ g @ (concat ys @ r)" using g(1) by simp
  moreover have "length p \<le> wsize s \<or> (\<exists>l. g = [l])" using g(3) x by simp
  ultimately show "\<exists>a ls b. lines u = a @ ls @ b \<and> p = concat ls \<and>
      (length p \<le> buffer_size (StatsdProtocol (conf s0)) \<or> (\<exists>l. ls = [l]))"
    using x(2) cfg(1) by (intro exI [of _ "concat xs"] exI [of _ g] exI [of _ "concat ys @ r"]) simp
qed

theorem net_buffers_whole_lines_witness:
  "length (outc demo_lossy) \<le> 2928 \<and> (\<exists>a ls b. [demo_line, demo_line] = a @ ls @ b \<and> demo_line = concat ls)"
proof -
  have "demo_line \<in> set (accepted (offers demo_lossy))" by (simp add: demo_lossy_def accepted_def)
  with net_buffers_whole_lines [OF NewNetSink_demo run_lossy]
  have "length (outc demo_lossy) \<le> approxMaxMemBytes div buffer_size (StatsdProtocol (conf demo_sink)) \<and>
      (\<exists>a ls b. [demo_line, demo_line] = a @ ls @ b \<and> demo_line = concat ls)"
    by (metis net_users.select_convs(1))
  then show ?thesis
    by (simp add: approxMaxMemBytes_def buffer_size_def demo_sink_def defaultBufferSizeUDP_def)
qed

text \<open>
  C13: in every run, the goroutine \<open>run\<close> never blocks on a channel: the one place of \<open>retryc\<close> is free
  whenever a failed buffer is put there, and the buffers counted for a flush are there to be taken.
  It waits for nothing but the mutex and the cases of its \<open>select\<close>.
\<close>

theorem run_never_blocks:
  assumes "NewNetSink e opts = Inr s0" and "net_run s0 u s"
  shows "run_step a s = None \<longleftrightarrow>
           (case run_at s of
              R_drop b \<Rightarrow> mu s \<noteq> None
            | R_select \<Rightarrow> (case select a of
                              On_tick \<Rightarrow> mu s \<noteq> None | On_flush \<Rightarrow> doFlush s = [] | On_out \<Rightarrow> outc s = [])
            | _ \<Rightarrow> False)"
proof -
  have c: "control_inv s"
    using net_run_inv [OF NewNetSink_fresh(1) [OF assms(1)] assms(2)] by (simp add: net_inv_def)
  have take: "take_out r s = None \<longleftrightarrow> outc s = []" if "retryc s = []" for r
    using that by (cases "outc s") (auto simp: take_out_def writeToConn_def send_retry_def retryc_cap_def Let_def
        split: write_result.split)
  show ?thesis
  proof (cases "run_at s")
    case R_top
    then show ?thesis by (cases "dial_ok a") (simp_all add: run_step_def net_connect_def Let_def)
  next
    case (R_drain n)
    then show ?thesis by (cases "doFlush s") (simp_all add: run_step_def)
  next
    case R_retry
    then show ?thesis
      by (cases "retryc s") (auto simp: run_step_def writeToConn_def Let_def split: write_result.split)
  next
    case (R_drop b)
    then show ?thesis by (simp add: run_step_def)
  next
    case R_select
    then have "retryc s = []" using c by (simp add: control_inv_def)
    with R_select show ?thesis
      by (cases "select a"; cases "doFlush s") (simp_all add: run_step_def take)
  next
    case (R_count r)
    then show ?thesis by (simp add: run_step_def)
  next
    case (R_flush r n)
    show ?thesis
    proof (cases "n > 0 \<and> conn s")
      case True
      then have "retryc s = []" "outc s \<noteq> []" using c R_flush by (auto simp: control_inv_def)
      with R_flush True show ?thesis by (simp add: run_step_def take)
    next
      case False
      then show ?thesis using R_flush by (auto simp: run_step_def)
    qed
  qed
qed

theorem run_never_blocks_witness: "run_step (up On_out) demo_lossy \<noteq> None"
  using run_never_blocks [OF NewNetSink_demo run_lossy, of "up On_out"]
  by (simp add: demo_lossy_def)

lemma all_accepted: "\<forall>x \<in> set os. \<exists>p. x = Accepted p \<Longrightarrow> map chunk os = accepted os"
  by (induction os) (auto simp: accepted_def)

text \<open>
  C12: what an answer to \<open>Flush\<close> is worth.  A goroutine calls \<open>Flush\<close> when the lines of \<open>u\<close> have been
  written; if its request is answered, at whatever later time, while the connection is up, then every
  buffer that had entered the channel by then has been dealt with, in order, before the answer; and if
  none had been refused, that is every line of \<open>u\<close>.
\<close>

theorem flush_delivers:
  assumes "NewNetSink e opts = Inr s0" and "net_run s0 u s" and "net_flush s = (None, s')"
    and "net_run s0 v t" and "prefix (offers s') (offers t)"
    and "(length (accepted (offers s')), True) \<in> set (answered t)"
  shows "prefix (concat (accepted (offers s'))) (departed (events t)) \<and>
         ((\<forall>x \<in> set (offers s'). \<exists>p. x = Accepted p) \<longrightarrow>
            prefix (concat (lines u)) (departed (events t)))"
proof -
  note fresh = NewNetSink_fresh(1) [OF assms(1)]
  obtain z where z: "offers t = offers s' @ z" using assms(5) by (auto simp: prefix_def)
  have "answered_ok t" using net_run_inv [OF fresh assms(4)] by (simp add: net_inv_def request_inv_def)
  then have first: "prefix (concat (accepted (offers s'))) (departed (events t))"
    using assms(6) by (auto simp: answered_ok_def z)
  have w: "werr s = None" using net_run_inv [OF fresh assms(2)] by (simp add: net_inv_def writer_inv_def)
  then have "wbuf s' = []" using assms(3) by (auto simp: net_flush_eq split: if_splits)
  moreover have "writer_inv (lines u) s'"
    using net_run_inv [OF fresh assms(2)] writer_inv_net_flush [of "lines u" s] assms(3)
    by (simp add: net_inv_def)
  ultimately have "concat (map chunk (offers s')) = concat (lines u)"
    using grouped_stream [of "wsize s'" "lines u" "offers s'" "[]"] by (simp add: writer_inv_def)
  then have "concat (lines u) = concat (accepted (offers s'))" if "\<forall>x \<in> set (offers s'). \<exists>p. x = Accepted p"
    using all_accepted [OF that] by simp
  then show ?thesis using first by auto
qed

theorem flush_delivers_witness: "prefix demo_line (departed (events demo_delivered))"
proof -
  let ?s = "demo_net False [] [] None demo_line [] 0 R_top [] [] [] []"
  let ?t = "demo_net False [demo_line] [] None [] [] 0 R_top [Accepted demo_line] [] [] []"
  have "net_run demo_sink \<lparr>lines = [], requests = []\<rparr> (demo_net False [] [] None [] [] 0 R_top [] [] [] [])"
    using net_run.start [of demo_sink] by (simp add: demo_sink_def)
  then have s: "net_run demo_sink \<lparr>lines = [demo_line], requests = []\<rparr> ?s"
    using demo_write [of "[]"] by simp
  have f: "net_flush ?s = (None, ?t)" by (simp add: net_flush_eq offer_chunk_def)
  have "prefix (offers ?t) (offers demo_delivered)"
    "(length (accepted (offers ?t)), True) \<in> set (answered demo_delivered)"
    by (simp_all add: demo_delivered_def)
  from flush_delivers [OF NewNetSink_demo s f run_delivered this] show ?thesis by simp
qed

section \<open>The lines\<close>

lemma read_call_lines:
  assumes "\<forall>c \<in> set cs. readable c"
  shows "\<exists>rs. read_stream (concat (map call_line cs)) = map Some rs \<and> list_all2 reads_as cs rs"
  using assms
proof (induction cs)
  case (Cons c cs)
  then obtain rs where "read_stream (concat (map call_line cs)) = map Some rs" "list_all2 reads_as cs rs"
    by auto
  moreover obtain r where "reads_as c r"
    "read_stream (call_line c @ concat (map call_line cs)) = Some r # read_stream (concat (map call_line cs))"
    using read_call_line [of c "concat (map call_line cs)"] Cons.prems by (metis list.set_intros(1))
  ultimately show ?case by (intro exI [of _ "r # rs"]) simp
qed simp

text \<open>
  C16: the wire format can be read back: from the lines of any calls, in any order, whose names hold
  no line feed and whose timer values are numbers, a reader gets the names, the kinds, the exact
  counts, and each timer value exact if it is whole and within half a millionth otherwise, whichever
  of its two formats \<open>FlushTimer\<close> chose.
\<close>

theorem wire_roundtrip:
  assumes "\<forall>c \<in> set cs. readable c"
  shows "\<exists>rs. read_stream (concat (map call_line cs)) = map Some rs \<and> list_all2 reads_as cs rs"
  using assms by (rule read_call_lines)

theorem wire_roundtrip_witness:
  "read_stream (demo_line @ demo_line) = [Some (''a'', 5, ''c''), Some (''a'', 5, ''c'')]"
proof -
  have "\<forall>c \<in> set [FlushCounter ''a'' 5, FlushCounter ''a'' 5]. readable c" by (simp add: readable_def)
  from wire_roundtrip [OF this] show ?thesis
    by (auto simp: demo_line list_all2_Cons1 reads_as_def)
qed

lemma word_of_floor: "word_of_int \<lfloor>of_nat (unat v) :: rat\<rfloor> = (v :: u64)"
proof -
  have "\<lfloor>of_nat (unat v) :: rat\<rfloor> = int (unat v)" by (rule floor_of_nat)
  then show ?thesis by (simp only:) simp
qed

lemma reads_total:
  "list_all2 reads_as cs rs \<Longrightarrow>
     (\<Sum>(n, r, ty)\<leftarrow>rs. if n = k \<and> ty = ''c'' then word_of_int \<lfloor>r\<rfloor> else 0) = delivered k cs"
proof (induction rule: list_all2_induct)
  case (Cons c cs r rs)
  obtain n x ty where r: "r = (n, x, ty)" by (cases r)
  have "(if n = k \<and> ty = ''c'' then word_of_int \<lfloor>x\<rfloor> else 0) = delivered k [c]"
  proof (cases c)
    case (FlushCounter m v)
    then have "n = m" "ty = ''c''" "x = of_nat (unat v)" using Cons.hyps(1) by (simp_all add: r reads_as_def)
    then show ?thesis using FlushCounter word_of_floor [of v] by (simp only: delivered_simps simp_thms if_True) (simp add: delivered_def)
  qed (use Cons.hyps(1) in \<open>auto simp: r reads_as_def delivered_def\<close>)
  then show ?case using Cons.IH by (simp add: r delivered_def)
qed (simp add: delivered_def)

lemma delivered_no_flush: "delivered k (filter (\<lambda>c. c \<noteq> FlushSink) cs) = delivered k cs"
  by (induction cs) (auto simp: delivered_def)

section \<open>The server\<close>

text \<open>
  What a server gets from the events on the connection.  Over UDP it reads each datagram, that is each
  write, by itself; over a stream it reads the bytes of one connection together, and a new connection
  starts anew.  What is given up is never sent.
\<close>

fun sessions :: "string \<Rightarrow> net_event list \<Rightarrow> string list" where
  "sessions cur [] = [cur]"
| "sessions cur (Sent b # es) = sessions (cur @ b) es"
| "sessions cur (Connected n a # es) = cur # sessions [] es"
| "sessions cur (Closed # es) = cur # sessions [] es"
| "sessions cur (Dropped b # es) = sessions cur es"

definition datagrams :: "net_event list \<Rightarrow> string list" where
  "datagrams es = concat (map (\<lambda>x. case x of Sent b \<Rightarrow> [b] | _ \<Rightarrow> []) es)"

definition server_input :: "netSink \<Rightarrow> string list" where
  "server_input s =
     (if StatsdProtocol (conf s) \<in> {''udp'', ''udp4'', ''udp6''} then datagrams (events s)
      else sessions [] (events s))"

lemma sessions_sent: "concat (sessions cur es) = cur @ concat (datagrams es)"
  by (induction cur es rule: sessions.induct) (simp_all add: datagrams_def)

lemma datagrams_departed: "dropped_bytes es = 0 \<Longrightarrow> concat (datagrams es) = departed es"
proof (induction es)
  case (Cons x es)
  then show ?case by (cases x) (simp_all add: datagrams_def)
qed (simp add: datagrams_def)

lemma split_lines_append:
  "a = [] \<or> last a = newline \<Longrightarrow> split_lines (a @ b) = (fst (split_lines a) @ fst (split_lines b), snd (split_lines b))"
proof (induction a)
  case (Cons c a)
  have "fst (split_lines a) \<noteq> []" if "a \<noteq> []"
    using that Cons.prems
    by (induction a) (auto split: prod.split list.split if_splits)
  with Cons show ?case by (auto split: prod.splits list.splits if_splits simp del: split_paired_All)
qed simp

lemma read_stream_concat:
  "\<forall>x \<in> set xs. x = [] \<or> last x = newline \<Longrightarrow> read_stream (concat xs) = concat (map read_stream xs)"
  by (induction xs) (simp_all add: read_stream_def split_lines_append)

lemma server_reads:
  assumes "dropped_bytes (events s) = 0" and "\<forall>x \<in> set (server_input s). x = [] \<or> last x = newline"
  shows "concat (map read_stream (server_input s)) = read_stream (departed (events s))"
proof -
  have "concat (server_input s) = departed (events s)"
    using datagrams_departed [OF assms(1)] by (simp add: server_input_def sessions_sent)
  then show ?thesis using read_stream_concat [OF assms(2)] by simp
qed

text \<open>
  C3: from the program to the server.  A store is flushed into a network sink, whose lines are the
  calls of the store in order, in any run of the sink with the store's goroutine and \<open>run\<close>
  interleaved.  Suppose that nothing was refused, discarded or given up, that nothing is on its way
  any more, and that no failed write has cut a line: each datagram, or each connection of a stream,
  ends at the end of a line.  Then the server, which gets nothing but what was sent, can read every
  line, and for every counter name the counts it reads add up to what the program has written under
  that name.
\<close>

theorem statsd_receives_written:
  assumes "store_run gen w s" and "store_run gen w' (fold gen (statGenerators s) s)"
    and "Flush gen s = Some s'" and "NewNetSink e opts = Inr s0" and "net_run s0 u t"
    and "lines u = map call_line (filter (\<lambda>c. c \<noteq> FlushSink) (sink_calls s'))"
    and "\<forall>c \<in> set (sink_calls s'). c = FlushSink \<or> readable c"
    and "\<forall>x \<in> set (offers t). \<exists>p. x = Accepted p" and "wbuf t = []"
    and "in_hand (run_at t) = [] \<and> retryc t = [] \<and> outc t = []"
    and "dropped_bytes (events t) = 0"
    and "\<forall>x \<in> set (server_input t). x = [] \<or> last x = newline"
  shows "\<exists>rs. concat (map read_stream (server_input t)) = map Some rs \<and>
           (\<forall>k. (\<Sum>(n, r, ty)\<leftarrow>rs. if n = k \<and> ty = ''c'' then word_of_int \<lfloor>r\<rfloor> else 0) = written w' k)"
proof -
  let ?cs = "filter (\<lambda>c. c \<noteq> FlushSink) (sink_calls s')"
  have run: "run_inv w' (fold gen (statGenerators s) s)" using assms(2) by (rule store_run_inv)
  then have "s' = flush_result (fold gen (statGenerators s) s)"
    using Flush_eq [of gen s] assms(3) by (simp add: run_inv_def)
  then have del: "delivered k (sink_calls s') = written w' k" for k
    using run by (simp add: account_flush(2) run_inv_def store_inv_def)
  have filt: "delivered k ?cs = delivered k (sink_calls s')" for k by (rule delivered_no_flush)
  have "net_inv u t" using net_run_inv [OF NewNetSink_fresh(1) [OF assms(4)] assms(5)] .
  then have st: "concat (map chunk (offers t)) = concat (lines u)"
    "departed (events t) = concat (accepted (offers t))"
    using assms(9,10) grouped_stream [of "wsize t" "lines u" "offers t" "[]"]
    by (auto simp: net_inv_def writer_inv_def passage_inv_def)
  then have "departed (events t) = concat (map call_line ?cs)"
    using all_accepted [OF assms(8)] assms(6) by simp
  moreover have "\<forall>c \<in> set ?cs. readable c" using assms(7) by auto
  then obtain rs where "read_stream (concat (map call_line ?cs)) = map Some rs" "list_all2 reads_as ?cs rs"
    using read_call_lines by blast
  ultimately show ?thesis
    using reads_total [of ?cs rs] filt del server_reads [OF assms(11,12)] by auto
qed

theorem statsd_receives_written_witness:
  "\<exists>rs. concat (map read_stream (server_input demo_delivered)) = map Some rs \<and>
     (\<Sum>(n, r, ty)\<leftarrow>rs. if n = ''a'' \<and> ty = ''c'' then word_of_int \<lfloor>r\<rfloor> else 0) = (5 :: u64)"
proof -
  have run: "store_run no_gen demo_client (fold no_gen (statGenerators demo_active) demo_active)"
    using run_active by (simp add: demo_active_def)
  have flush: "Flush no_gen demo_active = Some demo_pruned"
    by (simp add: store_eval demo_pruned_def demo_active_def)
  have sink: "lines demo_lines = map call_line (filter (\<lambda>c. c \<noteq> FlushSink) (sink_calls demo_pruned))"
    "\<forall>c \<in> set (sink_calls demo_pruned). c = FlushSink \<or> readable c"
    "\<forall>x \<in> set (offers demo_delivered). \<exists>p. x = Accepted p" "wbuf demo_delivered = []"
    "in_hand (run_at demo_delivered) = [] \<and> retryc demo_delivered = [] \<and> outc demo_delivered = []"
    "dropped_bytes (events demo_delivered) = 0"
    "\<forall>x \<in> set (server_input demo_delivered). x = [] \<or> last x = newline"
    by (simp_all add: demo_lines_def demo_pruned_def demo_line readable_def demo_delivered_def in_hand_def
        server_input_def datagrams_def demo_connected_def)
  from statsd_receives_written [OF run_active run flush NewNetSink_demo run_delivered sink]
  obtain rs where "concat (map read_stream (server_input demo_delivered)) = map Some rs"
    "(\<Sum>(n, r, ty)\<leftarrow>rs. if n = ''a'' \<and> ty = ''c'' then word_of_int \<lfloor>r\<rfloor> else 0) = written demo_client ''a''"
    by blast
  moreover have "written demo_client ''a'' = 5" by (simp add: demo_client_def)
  ultimately show ?thesis by auto
qed

section \<open>The log of dropped bytes\<close>

lemma mod_grows_iff:
  assumes "0 < d" and "d < (m :: nat)"
  shows "x mod m < (x + d) mod m \<longleftrightarrow> x div m = (x + d) div m"
proof -
  have x: "x = x div m * m + x mod m" and r: "x mod m < m" using assms by simp_all
  show ?thesis
  proof (cases "x mod m + d < m")
    case True
    have "x + d = x div m * m + (x mod m + d)" using x by linarith
    then have "(x + d) div m = x div m" "(x + d) mod m = x mod m + d" using True
      by (metis add_0_right div_eq_0_iff div_mult_self3 gr_implies_not0, metis mod_less mod_mult_self3)
    then show ?thesis using assms(1) by simp
  next
    case False
    then obtain k where k: "x mod m + d = m + k" using le_Suc_ex not_less by blast
    then have "k < m" "k < x mod m" using r assms(2) by linarith+
    have "x + d = x div m * m + (x mod m + d)" using x by linarith
    also have "\<dots> = (x div m + 1) * m + k" unfolding k by simp
    finally have "x + d = (x div m + 1) * m + k" .
    then have "(x + d) div m = x div m + 1" "(x + d) mod m = k" using \<open>k < m\<close>
      by (metis add_0_right div_eq_0_iff div_mult_self3 gr_implies_not0, metis mod_less mod_mult_self3)
    then show ?thesis using \<open>k < x mod m\<close> by simp
  qed
qed

text \<open>
  C18: the constant of the code says that dropped bytes are logged once for every 32768 of them.  The
  comparison does the opposite: each error that drops fewer bytes is logged exactly when the total
  does not pass a multiple of 32768.
\<close>

theorem dropped_log_inverted:
  assumes "0 < d" and "d < 2 ^ 15" and "unat (droppedBytes s) + d < 2 ^ 64"
  shows "logged (handleFlushErrorSize err d s) \<noteq> logged s \<longleftrightarrow>
           unat (droppedBytes s) div 2 ^ 15 = (unat (droppedBytes s) + d) div 2 ^ 15"
proof -
  let ?x = "droppedBytes s" and ?N = "logOnEveryNDroppedBytes"
  have N: "unat ?N = 2 ^ 15" by (simp add: logOnEveryNDroppedBytes_def)
  have "unat (of_nat d :: u64) = d" using assms(2) by (simp add: unat_of_nat)
  then have sum: "unat (?x + of_nat d) = unat ?x + d"
    using assms(3) by (subst unat_add_lem [THEN iffD1]) simp_all
  have "logged (handleFlushErrorSize err d s) \<noteq> logged s \<longleftrightarrow> ?x mod ?N < (?x + of_nat d) mod ?N"
    by (simp add: handleFlushErrorSize_eq count_drop_def Let_def)
  also have "\<dots> \<longleftrightarrow> unat ?x mod 2 ^ 15 < (unat ?x + d) mod 2 ^ 15"
    by (simp only: word_less_nat_alt unat_mod_distrib sum N)
  finally show ?thesis using mod_grows_iff [OF assms(1,2)] by simp
qed

theorem dropped_log_inverted_witness:
  "logged (handleFlushErrorSize Conn_error 2 demo_sink) \<noteq> logged demo_sink"
  using dropped_log_inverted [of 2 demo_sink Conn_error] by (simp add: demo_sink_def)

end
