(* ===== verification/Pool_Props.thy ===== *)
theory Pool_Props
  imports Buffer_Pool Net_Props
begin

text \<open>The runs of the network sink over pooled buffers.\<close>

section \<open>The goroutine \<open>run\<close>\<close>

definition at_drop :: "run_pc \<Rightarrow> bool" where
  "at_drop pc \<longleftrightarrow> (case pc of R_drop b \<Rightarrow> True | _ \<Rightarrow> False)"

lemma at_drop_simps [simp]:
  "\<not> at_drop R_top" "\<not> at_drop (R_drain n)" "\<not> at_drop R_retry" "\<not> at_drop R_select"
  "\<not> at_drop (R_count r)" "\<not> at_drop (R_flush r n)" "at_drop (R_drop b)"
  by (simp_all add: at_drop_def)

lemma pipe_of_run_at: "\<not> at_drop pc \<Longrightarrow> \<not> at_drop (run_at s) \<Longrightarrow> pipe_of (s\<lparr>run_at := pc\<rparr>) = pipe_of s"
  by (cases pc; cases "run_at s") (simp_all add: pipe_of_def)

lemma runner_idle: "\<not> at_drop (run_at s) \<Longrightarrow> p_runner (pipe_of s) = N_idle"
  by (cases "run_at s") (simp_all add: pipe_of_def)

lemma writeToConn_drained:
  "writeToConn r b s =
     (case drained r b of (rest, failed, sent) \<Rightarrow>
        (rest, if failed then Some Conn_error else None,
         if failed then s\<lparr>events := events s @ map Sent sent @ [Closed], conn := False\<rparr>
         else if sent = [] then s else s\<lparr>events := events s @ map Sent sent\<rparr>))"
  by (simp add: writeToConn_def drained_def Let_def min_def split: write_result.split)

lemma matched_take_out:
  assumes "take_out r s = Some s'" and "\<not> at_drop (run_at s)"
  shows "matched s s'" and "run_at s' = run_at s"
proof -
  obtain b bs where b: "outc s = b # bs" using assms(1) by (cases "outc s") (simp_all add: take_out_def)
  obtain rest failed sent where d: "drained r b = (rest, failed, sent)" by (cases "drained r b")
  show "run_at s' = run_at s" using assms(1) b d
    by (auto simp: take_out_def writeToConn_drained send_retry_def split: if_splits)
  show "matched s s'"
  proof (cases failed)
    case True
    then show ?thesis using assms b d
      by (intro matchedI [where acts = "[A_receive, A_WriteTo r, A_retry]"])
        (auto simp: take_out_def writeToConn_drained send_retry_def value_step_def hand_over_defs pipe_of_def comp_def
          split: if_splits run_pc.splits)
  next
    case False
    then show ?thesis using assms b d
      by (intro matchedI [where acts = "[A_receive, A_WriteTo r, A_putBuffer]"])
        (auto simp: take_out_def writeToConn_drained value_step_def hand_over_defs pipe_of_def comp_def
          split: if_splits run_pc.splits)
  qed
qed

lemma matched_retry:
  assumes "run_at s = R_retry" and "run_step a s = Some s'"
  shows "matched s s'"
proof (cases "retryc s")
  case Nil
  then show ?thesis using assms by (auto simp: run_step_def intro!: matched_same pipe_of_run_at)
next
  case (Cons b bs)
  obtain rest failed sent where d: "drained (write_res a) b = (rest, failed, sent)" by (cases "drained (write_res a) b")
  show ?thesis
  proof (cases failed)
    case True
    then show ?thesis using assms Cons d
      by (intro matchedI [where acts = "[A_receive_retry, A_WriteTo (write_res a)]"])
        (auto simp: run_step_def writeToConn_drained value_step_def hand_over_defs pipe_of_def comp_def split: if_splits)
  next
    case False
    then show ?thesis using assms Cons d
      by (intro matchedI [where acts = "[A_receive_retry, A_WriteTo (write_res a), A_putBuffer]"])
        (auto simp: run_step_def writeToConn_drained value_step_def hand_over_defs pipe_of_def comp_def split: if_splits)
  qed
qed

lemma matched_drop:
  assumes "run_at s = R_drop b" and "run_step a s = Some s'"
  shows "matched s s'"
proof -
  let ?t = "s\<lparr>events := events s @ [Dropped b]\<rparr>"
  have s': "s' = (handleFlushErrorSize Conn_error (length b) ?t)\<lparr>run_at := R_top\<rparr>"
    using assms by (simp add: run_step_def split: if_splits)
  have "pipe_of s' = (pipe_of ?t)\<lparr>p_runner := N_idle\<rparr>"
    using pipe_of_handleFlushErrorSize [of Conn_error "length b" ?t] unfolding s' by (simp add: pipe_of_def)
  then show ?thesis using assms(1)
    by (intro matchedI [where acts = "[A_count, A_putBuffer]"]) (simp_all add: value_step_def pipe_of_def)
qed

lemma matched_run_step:
  assumes "run_step a s = Some s'"
  shows "matched s s'"
proof (cases "run_at s")
  case R_retry
  then show ?thesis using assms by (rule matched_retry)
next
  case (R_drop b)
  then show ?thesis using assms by (rule matched_drop)
next
  case R_top
  then show ?thesis using assms
    by (intro matched_same) (auto simp: run_step_def net_connect_def Let_def pipe_of_def split: if_splits)
next
  case (R_drain n)
  then show ?thesis using assms
    by (intro matched_same) (auto simp: run_step_def net_answer_def pipe_of_run_at split: list.splits if_splits)
next
  case R_select
  show ?thesis
  proof (cases "select a")
    case On_tick
    have "run_at (snd (net_flush s)) = R_select" using R_select
      by (auto simp: net_flush_def bufio_Flush_def sinkWriter_Write_def handleFlushError_def handleFlushErrorSize_def
          bufio_Reset_def Let_def split: option.splits)
    then show ?thesis using assms R_select On_tick matched_net_flush [of s]
      by (auto simp: run_step_def matched_def pipe_of_run_at split: if_splits)
  next
    case On_flush
    then show ?thesis using assms R_select
      by (intro matched_same) (auto simp: run_step_def pipe_of_run_at split: list.splits)
  next
    case On_out
    then obtain t where t: "take_out (write_res a) s = Some t" "s' = t\<lparr>run_at := R_top\<rparr>"
      using assms R_select by (auto simp: run_step_def)
    then show ?thesis using matched_take_out [OF t(1)] R_select by (simp add: matched_def pipe_of_run_at)
  qed
next
  case (R_count r)
  then show ?thesis using assms by (intro matched_same) (auto simp: run_step_def pipe_of_run_at)
next
  case (R_flush r n)
  show ?thesis
  proof (cases "n > 0 \<and> conn s")
    case True
    then obtain t where t: "take_out (write_res a) s = Some t" "s' = t\<lparr>run_at := R_flush r (n - 1)\<rparr>"
      using assms R_flush by (auto simp: run_step_def)
    then show ?thesis using matched_take_out [OF t(1)] R_flush by (simp add: matched_def pipe_of_run_at)
  next
    case False
    then show ?thesis using assms R_flush
      by (intro matched_same) (auto simp: run_step_def net_answer_def pipe_of_run_at)
  qed
qed

lemma matched_net_run: "net_run s0 u s \<Longrightarrow> matched s0 s"
proof (induction rule: net_run.induct)
  case start
  show ?case by (rule matched_same) simp
next
  case (write_begin u s c)
  from write_begin.IH matched_writeBuffer_flush [of s "call_line c"]
  have "matched s0 (writeBuffer_flush (call_line c) s)" by (rule matched_trans)
  then show ?case by (simp add: matched_def)
next
  case (write_end u s b)
  from write_end.IH matched_writeBuffer_write [of s b]
  have "matched s0 (writeBuffer_write b s)" by (rule matched_trans)
  then show ?case by (simp add: matched_def)
next
  case (flush_ok u s s')
  then show ?case using matched_net_flush [of s] matched_trans by simp
next
  case (flush_fails u s err s')
  then show ?case using matched_net_flush [of s] matched_trans by simp
next
  case (request u s r)
  then show ?case by (simp add: matched_def)
next
  case (run u s a s')
  then show ?case using matched_run_step matched_trans by blast
qed

section \<open>The pool does not show\<close>

text \<open>
  C14: the pool of buffers does not show.  Every run of the network sink, which is modelled with the
  contents of the buffers, is a run over pooled buffers behind pointers, and it is the same run whatever
  buffers the pool hands out, whatever the other goroutines that share the pool write to the buffers
  they got from it, and whatever the collector takes: always the same contents in the channels and in
  the hand of \<open>run\<close>, the same bytes sent, and the same number of bytes counted for a buffer given up.  At the
  end, as at every moment, no buffer is in two places.
\<close>

theorem pool_does_not_show:
  assumes "NewNetSink e opts = Inr s0" and "net_run s0 u s"
  shows "\<exists>acts. erase acts = acts \<and>
           (\<forall>acts'. erase acts' = acts \<longrightarrow>
              (\<exists>S. steps pool_step acts' (pool_start (outc_cap s0)) = Some S \<and> contents S = pipe_of s \<and>
                 distinct (bufferPool S @ elsewhere S @ held (pipe S))))"
proof -
  have "pipe_of s0 = pipe_start (outc_cap s0)"
    using NewNetSink_fresh(1) [OF assms(1)] by (simp add: fresh_sink_def pipe_of_def pipe_start_def)
  then obtain acts where acts: "erase acts = acts" "steps value_step acts (pipe_start (outc_cap s0)) = Some (pipe_of s)"
    using matched_net_run [OF assms(2)] by (auto simp: matched_def)
  have "\<exists>S. steps pool_step acts' (pool_start (outc_cap s0)) = Some S \<and> contents S = pipe_of s \<and>
      distinct (bufferPool S @ elsewhere S @ held (pipe S))" if "erase acts' = acts" for acts'
  proof -
    have "map_option contents (steps pool_step acts' (pool_start (outc_cap s0))) = Some (pipe_of s)"
      using pool_invisible [OF pool_start(1)] steps_erase [of acts'] acts(2) that by (simp add: pool_start(2))
    then obtain S where S: "steps pool_step acts' (pool_start (outc_cap s0)) = Some S" "contents S = pipe_of s" by auto
    then show ?thesis using steps_owned [OF pool_start(1) S(1)] by (simp only: owned_def places_def) blast
  qed
  then show ?thesis using acts(1) by blast
qed

theorem pool_does_not_show_witness:
  "\<exists>acts S. steps pool_step acts (pool_start 2928) = Some S \<and> contents S = pipe_of demo_lossy \<and>
     p_sent (contents S) = [''a:'', ''5|''] \<and> p_counted (contents S) = [2]"
proof -
  obtain acts S where "steps pool_step acts (pool_start (outc_cap demo_sink)) = Some S" "contents S = pipe_of demo_lossy"
    using pool_does_not_show [OF NewNetSink_demo run_lossy] by blast
  then show ?thesis by (intro exI [of _ acts] exI [of _ S]) (simp add: demo_sink_def pipe_of_def demo_lossy_def demo_connected_def)
qed

end
