(* ===== verification/Scopes.thy ===== *)
theory Scopes
  imports Store_Run TagSerialize
begin

text \<open>
  The constructors of metrics: those of the store and those of a scope, down to the serialized name
  under which the metric is registered.  \<open>None\<close> is a panic, which only \<open>MergeTags\<close> can raise.
\<close>

section \<open>Reserved tags\<close>

definition ReservedTagWords :: "string list" where
  "ReservedTagWords =
     [''asg'', ''az'', ''backend'', ''canary'', ''host'', ''period'', ''region'', ''shard'',
      ''window'', ''source'', ''project'', ''facet'', ''envoyservice'']"

primrec validateTags :: "string go_map \<Rightarrow> statStore \<Rightarrow> statStore option" where
  "validateTags [] s = Some s"
| "validateTags (kv # tags) s =
     (if fst kv \<in> set ReservedTagWords
      then (case newCounter ''reserved_tag'' s of
              (a, s) \<Rightarrow> Option.bind (counter_Inc a s) (validateTags tags))
      else validateTags tags s)"

section \<open>Constructors of the store\<close>

definition emptyPerInstanceTags :: "string go_map" where
  "emptyPerInstanceTags = [(''_f'', ''i'')]"

definition store_NewCounter :: "string \<Rightarrow> statStore \<Rightarrow> nat \<times> statStore" where
  "store_NewCounter name s = newCounter name s"

definition store_NewCounterWithTags ::
    "string \<Rightarrow> string go_map \<Rightarrow> statStore \<Rightarrow> (nat \<times> statStore) option" where
  "store_NewCounterWithTags name tags s = do {
     s \<leftarrow> validateTags tags s;
     Some (newCounter (SerializeTags name tags) s)
   }"

definition newCounterWithTagSet :: "string \<Rightarrow> TagSet \<Rightarrow> statStore \<Rightarrow> nat \<times> statStore" where
  "newCounterWithTagSet name tags s = newCounter (Serialize tags name) s"

definition store_NewPerInstanceCounter ::
    "string \<Rightarrow> string go_map \<Rightarrow> statStore \<Rightarrow> (nat \<times> statStore) option" where
  "store_NewPerInstanceCounter name tags s =
     (if length tags = 0 then store_NewCounterWithTags name emptyPerInstanceTags s
      else if map_of tags ''_f'' \<noteq> None then store_NewCounterWithTags name tags s
      else do {
        s \<leftarrow> validateTags tags s;
        Some (newCounterWithTagSet name (MergePerInstanceTags [] tags) s)
      })"

definition store_NewGauge :: "string \<Rightarrow> statStore \<Rightarrow> nat \<times> statStore" where
  "store_NewGauge name s = newGauge name s"

definition store_NewGaugeWithTags ::
    "string \<Rightarrow> string go_map \<Rightarrow> statStore \<Rightarrow> (nat \<times> statStore) option" where
  "store_NewGaugeWithTags name tags s = do {
     s \<leftarrow> validateTags tags s;
     Some (newGauge (SerializeTags name tags) s)
   }"

definition newGaugeWithTagSet :: "string \<Rightarrow> TagSet \<Rightarrow> statStore \<Rightarrow> nat \<times> statStore" where
  "newGaugeWithTagSet name tags s = newGauge (Serialize tags name) s"

definition store_NewPerInstanceGauge ::
    "string \<Rightarrow> string go_map \<Rightarrow> statStore \<Rightarrow> (nat \<times> statStore) option" where
  "store_NewPerInstanceGauge name tags s =
     (if length tags = 0 then store_NewGaugeWithTags name emptyPerInstanceTags s
      else if map_of tags ''_f'' \<noteq> None then store_NewGaugeWithTags name tags s
      else do {
        s \<leftarrow> validateTags tags s;
        Some (newGaugeWithTagSet name (MergePerInstanceTags [] tags) s)
      })"

definition store_NewMilliTimer :: "string \<Rightarrow> statStore \<Rightarrow> nat \<times> statStore" where
  "store_NewMilliTimer name s = newTimer name Millisecond s"

definition store_NewMilliTimerWithTags ::
    "string \<Rightarrow> string go_map \<Rightarrow> statStore \<Rightarrow> (nat \<times> statStore) option" where
  "store_NewMilliTimerWithTags name tags s = do {
     s \<leftarrow> validateTags tags s;
     Some (newTimer (SerializeTags name tags) Millisecond s)
   }"

definition store_NewTimer :: "string \<Rightarrow> statStore \<Rightarrow> nat \<times> statStore" where
  "store_NewTimer name s = newTimer name Microsecond s"

definition store_NewTimerWithTags ::
    "string \<Rightarrow> string go_map \<Rightarrow> statStore \<Rightarrow> (nat \<times> statStore) option" where
  "store_NewTimerWithTags name tags s = do {
     s \<leftarrow> validateTags tags s;
     Some (newTimer (SerializeTags name tags) Microsecond s)
   }"

definition newTimerWithTagSet :: "string \<Rightarrow> TagSet \<Rightarrow> int \<Rightarrow> statStore \<Rightarrow> nat \<times> statStore" where
  "newTimerWithTagSet name tags bs s = newTimer (Serialize tags name) bs s"

definition store_NewPerInstanceTimer ::
    "string \<Rightarrow> string go_map \<Rightarrow> statStore \<Rightarrow> (nat \<times> statStore) option" where
  "store_NewPerInstanceTimer name tags s =
     (if length tags = 0 then store_NewTimerWithTags name emptyPerInstanceTags s
      else if map_of tags ''_f'' \<noteq> None then store_NewTimerWithTags name tags s
      else do {
        s \<leftarrow> validateTags tags s;
        Some (newTimerWithTagSet name (MergePerInstanceTags [] tags) Microsecond s)
      })"

definition store_NewPerInstanceMilliTimer ::
    "string \<Rightarrow> string go_map \<Rightarrow> statStore \<Rightarrow> (nat \<times> statStore) option" where
  "store_NewPerInstanceMilliTimer name tags s =
     (if length tags = 0 then store_NewMilliTimerWithTags name emptyPerInstanceTags s
      else if map_of tags ''_f'' \<noteq> None then store_NewMilliTimerWithTags name tags s
      else do {
        s \<leftarrow> validateTags tags s;
        Some (newTimerWithTagSet name (MergePerInstanceTags [] tags) Millisecond s)
      })"

section \<open>Scopes\<close>

text \<open>The registry of a scope is the store the operations are applied to.\<close>

record subScope =
  scope_name :: string
  scope_tags :: TagSet

definition joinScopes :: "string \<Rightarrow> string \<Rightarrow> string" where
  "joinScopes parent child = parent @ ''.'' @ child"

definition newSubScope :: "string \<Rightarrow> string go_map \<Rightarrow> subScope" where
  "newSubScope name tags = \<lparr>scope_name = name, scope_tags = NewTagSet tags\<rparr>"

definition store_Scope :: "string \<Rightarrow> subScope" where
  "store_Scope name = newSubScope name []"

definition store_ScopeWithTags ::
    "string \<Rightarrow> string go_map \<Rightarrow> statStore \<Rightarrow> (subScope \<times> statStore) option" where
  "store_ScopeWithTags name tags s = do {
     s \<leftarrow> validateTags tags s;
     Some (newSubScope name tags, s)
   }"

definition scope_ScopeWithTags ::
    "subScope \<Rightarrow> string \<Rightarrow> string go_map \<Rightarrow> statStore \<Rightarrow> (subScope \<times> statStore) option" where
  "scope_ScopeWithTags sc name tags s = do {
     s \<leftarrow> validateTags tags s;
     ts \<leftarrow> MergeTags (scope_tags sc) tags;
     Some (\<lparr>scope_name = joinScopes (scope_name sc) name, scope_tags = ts\<rparr>, s)
   }"

definition scope_Scope :: "subScope \<Rightarrow> string \<Rightarrow> statStore \<Rightarrow> (subScope \<times> statStore) option" where
  "scope_Scope sc name s = scope_ScopeWithTags sc name [] s"

definition scope_NewCounterWithTags ::
    "subScope \<Rightarrow> string \<Rightarrow> string go_map \<Rightarrow> statStore \<Rightarrow> (nat \<times> statStore) option" where
  "scope_NewCounterWithTags sc name tags s = do {
     ts \<leftarrow> MergeTags (scope_tags sc) tags;
     Some (newCounterWithTagSet (joinScopes (scope_name sc) name) ts s)
   }"

definition scope_NewCounter :: "subScope \<Rightarrow> string \<Rightarrow> statStore \<Rightarrow> (nat \<times> statStore) option" where
  "scope_NewCounter sc name s = scope_NewCounterWithTags sc name [] s"

definition scope_NewPerInstanceCounter ::
    "subScope \<Rightarrow> string \<Rightarrow> string go_map \<Rightarrow> statStore \<Rightarrow> nat \<times> statStore" where
  "scope_NewPerInstanceCounter sc name tags s =
     newCounterWithTagSet (joinScopes (scope_name sc) name)
       (MergePerInstanceTags (scope_tags sc) tags) s"

definition scope_NewGaugeWithTags ::
    "subScope \<Rightarrow> string \<Rightarrow> string go_map \<Rightarrow> statStore \<Rightarrow> (nat \<times> statStore) option" where
  "scope_NewGaugeWithTags sc name tags s = do {
     ts \<leftarrow> MergeTags (scope_tags sc) tags;
     Some (newGaugeWithTagSet (joinScopes (scope_name sc) name) ts s)
   }"

definition scope_NewGauge :: "subScope \<Rightarrow> string \<Rightarrow> statStore \<Rightarrow> (nat \<times> statStore) option" where
  "scope_NewGauge sc name s = scope_NewGaugeWithTags sc name [] s"

definition scope_NewPerInstanceGauge ::
    "subScope \<Rightarrow> string \<Rightarrow> string go_map \<Rightarrow> statStore \<Rightarrow> nat \<times> statStore" where
  "scope_NewPerInstanceGauge sc name tags s =
     newGaugeWithTagSet (joinScopes (scope_name sc) name)
       (MergePerInstanceTags (scope_tags sc) tags) s"

definition scope_NewTimerWithTags ::
    "subScope \<Rightarrow> string \<Rightarrow> string go_map \<Rightarrow> statStore \<Rightarrow> (nat \<times> statStore) option" where
  "scope_NewTimerWithTags sc name tags s = do {
     ts \<leftarrow> MergeTags (scope_tags sc) tags;
     Some (newTimerWithTagSet (joinScopes (scope_name sc) name) ts Microsecond s)
   }"

definition scope_NewTimer :: "subScope \<Rightarrow> string \<Rightarrow> statStore \<Rightarrow> (nat \<times> statStore) option" where
  "scope_NewTimer sc name s = scope_NewTimerWithTags sc name [] s"

definition scope_NewPerInstanceTimer ::
    "subScope \<Rightarrow> string \<Rightarrow> string go_map \<Rightarrow> statStore \<Rightarrow> nat \<times> statStore" where
  "scope_NewPerInstanceTimer sc name tags s =
     newTimerWithTagSet (joinScopes (scope_name sc) name)
       (MergePerInstanceTags (scope_tags sc) tags) Microsecond s"

definition scope_NewMilliTimerWithTags ::
    "subScope \<Rightarrow> string \<Rightarrow> string go_map \<Rightarrow> statStore \<Rightarrow> (nat \<times> statStore) option" where
  "scope_NewMilliTimerWithTags sc name tags s = do {
     ts \<leftarrow> MergeTags (scope_tags sc) tags;
     Some (newTimerWithTagSet (joinScopes (scope_name sc) name) ts Millisecond s)
   }"

definition scope_NewMilliTimer :: "subScope \<Rightarrow> string \<Rightarrow> statStore \<Rightarrow> (nat \<times> statStore) option" where
  "scope_NewMilliTimer sc name s = scope_NewMilliTimerWithTags sc name [] s"

definition scope_NewPerInstanceMilliTimer ::
    "subScope \<Rightarrow> string \<Rightarrow> string go_map \<Rightarrow> statStore \<Rightarrow> (nat \<times> statStore) option" where
  "scope_NewPerInstanceMilliTimer sc name tags s = do {
     s \<leftarrow> validateTags tags s;
     Some (newTimerWithTagSet (joinScopes (scope_name sc) name)
       (MergePerInstanceTags (scope_tags sc) tags) Millisecond s)
   }"

end
