(* ===== verification/Registry.thy ===== *)
theory Registry
  imports Scopes TagMerge
begin

text \<open>
  What the constructors promise: one metric for each serialized name, whichever way the name and
  the tags were given.  The promise is an interface with three providers: the counters, the gauges
  and the timers of a store.
\<close>

section \<open>The interface\<close>

locale registry =
  fixes ok :: "'s \<Rightarrow> bool"
    and find :: "'s \<Rightarrow> string \<Rightarrow> 'r option"
    and new :: "string \<Rightarrow> 's \<Rightarrow> 'r \<times> 's"
  assumes new_ok: "ok s \<Longrightarrow> ok (snd (new k s))"
    and new_find: "ok s \<Longrightarrow> find (snd (new k s)) = (find s)(k \<mapsto> fst (new k s))"
    and new_hit: "find s k = Some a \<Longrightarrow> new k s = (a, s)"
    and find_inj: "ok s \<Longrightarrow> find s k = Some a \<Longrightarrow> find s l = Some a \<Longrightarrow> k = l"
begin

lemma find_new: "ok s \<Longrightarrow> new k s = (a, s') \<Longrightarrow> ok s' \<and> find s' = (find s)(k \<mapsto> a)"
  using new_ok [of s k] new_find [of s k] by simp

lemma new_again: "ok s \<Longrightarrow> new k s = (a, s') \<Longrightarrow> new k s' = (a, s')"
  using find_new [of s k a s'] new_hit [of s' k a] by simp

lemma new_keeps: "ok s \<Longrightarrow> new k s = (a, s') \<Longrightarrow> find s l = Some b \<Longrightarrow> find s' l = Some b"
  using find_new [of s k a s'] new_hit [of s k b] by auto

lemma new_distinct:
  assumes "ok s" and "new k s = (a, s')" and "new l s' = (b, s'')"
  shows "a = b \<longleftrightarrow> k = l"
proof
  assume "a = b"
  have s': "ok s'" "find s' k = Some a" using find_new [OF assms(1,2)] by auto
  have s'': "ok s''" "find s'' l = Some b" using find_new [OF s'(1) assms(3)] by auto
  have "find s'' k = Some a" by (rule new_keeps [OF s'(1) assms(3) s'(2)])
  then show "k = l" using s'' \<open>a = b\<close> find_inj by blast
next
  assume "k = l"
  then have "new l s' = (a, s')" using new_again [OF assms(1,2)] by simp
  with assms(3) show "a = b" by simp
qed

text \<open>Tag sets with the same bindings select the same metric.\<close>

lemma new_same_tags:
  assumes "ok s" and "is_tagset t" and "is_tagset u" and "tag_map t = tag_map u"
    and "new (Serialize t name) s = (a, s')"
  shows "new (Serialize u name) s' = (a, s')"
  using new_again [OF assms(1,5)] unfolding tag_map_inject [OF assms(2-4)] .

end

section \<open>The three providers\<close>

lemma smap_Load_inj:
  "distinct (map snd m) \<Longrightarrow> smap_Load m k = Some a \<Longrightarrow> smap_Load m l = Some a \<Longrightarrow> k = l"
  unfolding smap_Load_def
  by (metis distinct_map fst_conv inj_onD map_of_SomeD snd_conv)

lemma newGauge_find:
  "smap_Load (gauges (snd (newGauge k s))) = (smap_Load (gauges s))(k \<mapsto> fst (newGauge k s))"
proof (cases "smap_Load (gauges s) k")
  case None
  then show ?thesis using smap_Load_append [of "gauges s" k]
    by (simp add: newGauge_miss) (simp add: smap_Load_def [abs_def])
next
  case (Some a)
  then show ?thesis by (simp add: newGauge_hit fun_upd_idem)
qed

lemma newTimer_find:
  "smap_Load (timers (snd (newTimer k b s))) = (smap_Load (timers s))(k \<mapsto> fst (newTimer k b s))"
proof (cases "smap_Load (timers s) k")
  case None
  then show ?thesis using smap_Load_append [of "timers s" k]
    by (simp add: newTimer_miss) (simp add: smap_Load_def [abs_def])
next
  case (Some a)
  then show ?thesis by (simp add: newTimer_hit fun_upd_idem)
qed

lemma newCounter_store_inv: "store_inv s \<Longrightarrow> store_inv (snd (newCounter k s))"
proof -
  assume inv: "store_inv s"
  have "timers (snd (newCounter k s)) = timers s" "timer_heap (snd (newCounter k s)) = timer_heap s"
    "gauges (snd (newCounter k s)) = gauges s" "gauge_heap (snd (newCounter k s)) = gauge_heap s"
    by (cases "smap_Load (counters s) k"; simp add: newCounter_hit newCounter_miss)+
  then show ?thesis using inv newCounter_correct(1) [of s k "fst (newCounter k s)" "snd (newCounter k s)"]
    by (simp add: store_inv_def timers_inv_def gauges_inv_def)
qed

interpretation cr: registry store_inv "\<lambda>s. smap_Load (counters s)" newCounter
proof
  fix s k l a
  show "store_inv s \<Longrightarrow> store_inv (snd (newCounter k s))" by (rule newCounter_store_inv)
  show "store_inv s \<Longrightarrow> smap_Load (counters (snd (newCounter k s))) =
      (smap_Load (counters s))(k \<mapsto> fst (newCounter k s))"
    using newCounter_correct(4) [of s k "fst (newCounter k s)" "snd (newCounter k s)"]
    by (simp add: store_inv_def)
  show "smap_Load (counters s) k = Some a \<Longrightarrow> newCounter k s = (a, s)" by (rule newCounter_hit)
  show "store_inv s \<Longrightarrow> smap_Load (counters s) k = Some a \<Longrightarrow>
      smap_Load (counters s) l = Some a \<Longrightarrow> k = l"
    by (rule smap_Load_inj) (auto simp: store_inv_def counters_inv_def core_inv_def)
qed

interpretation gr: registry store_inv "\<lambda>s. smap_Load (gauges s)" newGauge
proof
  fix s k l a
  show "store_inv s \<Longrightarrow> store_inv (snd (newGauge k s))"
    using newGauge_inv(1) [of s k "fst (newGauge k s)" "snd (newGauge k s)"] by simp
  show "smap_Load (gauges (snd (newGauge k s))) = (smap_Load (gauges s))(k \<mapsto> fst (newGauge k s))"
    by (rule newGauge_find)
  show "smap_Load (gauges s) k = Some a \<Longrightarrow> newGauge k s = (a, s)" by (rule newGauge_hit)
  show "store_inv s \<Longrightarrow> smap_Load (gauges s) k = Some a \<Longrightarrow>
      smap_Load (gauges s) l = Some a \<Longrightarrow> k = l"
    by (rule smap_Load_inj) (auto simp: store_inv_def gauges_inv_def)
qed

interpretation tr: registry store_inv "\<lambda>s. smap_Load (timers s)" "\<lambda>k. newTimer k b" for b
proof
  fix s k l a
  show "store_inv s \<Longrightarrow> store_inv (snd (newTimer k b s))"
    using newTimer_inv(1) [of s k b "fst (newTimer k b s)" "snd (newTimer k b s)"] by simp
  show "smap_Load (timers (snd (newTimer k b s))) =
      (smap_Load (timers s))(k \<mapsto> fst (newTimer k b s))"
    by (rule newTimer_find)
  show "smap_Load (timers s) k = Some a \<Longrightarrow> newTimer k b s = (a, s)" by (rule newTimer_hit)
  show "store_inv s \<Longrightarrow> smap_Load (timers s) k = Some a \<Longrightarrow>
      smap_Load (timers s) l = Some a \<Longrightarrow> k = l"
    by (rule smap_Load_inj) (auto simp: store_inv_def timers_inv_def)
qed

section \<open>Reserved tags\<close>

definition reserved_count :: "string go_map \<Rightarrow> nat" where
  "reserved_count tags = length (filter (\<lambda>kv. fst kv \<in> set ReservedTagWords) tags)"

lemma store_inv_rejoined_upd:
  assumes "store_inv s" and "counters_inv (rejoined a (upd_counter a f s))"
  shows "store_inv (rejoined a (upd_counter a f s))"
  using assms by (simp add: store_inv_def timers_inv_def gauges_inv_def)

lemma rejoined_load:
  "smap_Load (counters s) \<subseteq>\<^sub>m smap_Load (counters (rejoined a (upd_counter a f s)))"
proof -
  have "smap_Load m \<subseteq>\<^sub>m smap_Load (m @ [e])" for m :: "nat smap" and e
    by (auto simp: map_le_def smap_Load_def map_add_def split: option.split)
  then show ?thesis by (simp add: rejoined_def split: option.split)
qed

lemma counter_Inc_store:
  assumes "store_inv s" and "a < length (counter_heap s)"
  shows "\<exists>s'. counter_Inc a s = Some s' \<and> store_inv s' \<and> gauges s' = gauges s \<and> timers s' = timers s \<and>
           smap_Load (counters s) \<subseteq>\<^sub>m smap_Load (counters s') \<and>
           (\<forall>n. account s' n = account s n + (if owner s a = n then 1 else 0))"
proof -
  have inv: "counters_inv s" "core_inv s" using assms(1) by (simp_all add: store_inv_def counters_inv_def)
  note w = write_counter [where f = "currentValue_update (\<lambda>v. v + 1)" and a = a and s = s, OF inv(1) assms(2)]
  have "store_inv (rejoined a (upd_counter a (currentValue_update (\<lambda>v. v + 1)) s))"
    using assms(1) w(1) by (rule store_inv_rejoined_upd) simp_all
  then show ?thesis using w(2) inv assms(2) rejoined_load
    by (simp add: counter_Inc_def counter_Add_eq pending_def cong: if_cong)
qed

theorem validateTags_correct:
  assumes "store_inv s"
  shows "\<exists>s'. validateTags tags s = Some s' \<and> store_inv s' \<and>
           gauges s' = gauges s \<and> timers s' = timers s \<and>
           smap_Load (counters s) \<subseteq>\<^sub>m smap_Load (counters s') \<and>
           (\<forall>n. account s' n = account s n +
                  (if n = ''reserved_tag'' then of_nat (reserved_count tags) else 0))"
  using assms
proof (induction tags arbitrary: s)
  case Nil
  then show ?case by (simp add: reserved_count_def)
next
  case (Cons kv tags)
  show ?case
  proof (cases "fst kv \<in> set ReservedTagWords")
    case False
    then have "validateTags (kv # tags) s = validateTags tags s"
      "reserved_count (kv # tags) = reserved_count tags" by (simp_all add: reserved_count_def)
    with Cons.IH [OF Cons.prems] show ?thesis by (simp only:)
  next
    case True
    obtain a t where n: "newCounter ''reserved_tag'' s = (a, t)" by force
    have inv: "counters_inv s" "store_inv t" using Cons.prems newCounter_store_inv [of s "''reserved_tag''"] n
      by (simp_all add: store_inv_def)
    note nc = newCounter_correct [OF inv(1) n]
    have gt: "gauges t = gauges s" "timers t = timers s" using n
      by (cases "smap_Load (counters s) ''reserved_tag''"; auto simp: newCounter_hit newCounter_miss)+
    obtain u where u: "counter_Inc a t = Some u" "store_inv u" "gauges u = gauges t" "timers u = timers t"
      "smap_Load (counters t) \<subseteq>\<^sub>m smap_Load (counters u)"
      "\<And>n. account u n = account t n + (if owner t a = n then 1 else 0)"
      using counter_Inc_store [OF inv(2) nc(2)] by blast
    from Cons.IH [OF u(2)] obtain v where v: "validateTags tags u = Some v" "store_inv v"
      "gauges v = gauges u" "timers v = timers u"
      "smap_Load (counters u) \<subseteq>\<^sub>m smap_Load (counters v)"
      "\<And>n. account v n = account u n +
              (if n = ''reserved_tag'' then of_nat (reserved_count tags) else 0)"
      by blast
    have "reserved_count (kv # tags) = Suc (reserved_count tags)"
      using True by (simp add: reserved_count_def)
    moreover have "smap_Load (counters s) \<subseteq>\<^sub>m smap_Load (counters t)"
      using cr.new_keeps [OF Cons.prems n] by (auto simp: map_le_def)
    then have "smap_Load (counters s) \<subseteq>\<^sub>m smap_Load (counters v)"
      using u(5) v(5) map_le_trans by blast
    ultimately show ?thesis using True n u v nc(3,5) gt by (simp add: add_ac)
  qed
qed

end
