(* ===== verification/Scope_Laws.thy ===== *)
theory Scope_Laws
  imports Registry
begin

text \<open>
  The serialized name a constructor registers a metric under: for a scope it is the one that the
  store itself uses for the joined name and the merged tags.
\<close>

section \<open>Names\<close>

lemma key_eq:
  assumes "is_tagset t" and "distinct (map fst all)" and "tag_map t = clean_map all"
  shows "Serialize t name = SerializeTags name all"
proof -
  have "t = NewTagSet all"
    using assms NewTagSet_correct [OF assms(2)] by (intro tag_map_inject) simp_all
  then show ?thesis by (simp add: SerializeTags_eq [OF assms(2)])
qed

text \<open>The tags a scope holds.\<close>

definition scope_ok :: "subScope \<Rightarrow> bool" where
  "scope_ok sc \<longleftrightarrow> is_tagset (scope_tags sc) \<and> clean_tags (scope_tags sc)"

lemma newSubScope_ok:
  "distinct (map fst tags) \<Longrightarrow>
     scope_ok (newSubScope name tags) \<and> tag_map (scope_tags (newSubScope name tags)) = clean_map tags \<and>
     scope_name (newSubScope name tags) = name"
  by (simp add: scope_ok_def newSubScope_def NewTagSet_correct)

lemma scope_MergeTags:
  assumes "scope_ok sc" and "distinct (map fst tags)"
  obtains u where "MergeTags (scope_tags sc) tags = Some u" "is_tagset u" "clean_tags u"
    "tag_map u = tag_map (scope_tags sc) ++ clean_map tags"
  using MergeTags_correct assms unfolding scope_ok_def by blast

text \<open>The tags \<open>all\<close>, given to the store directly, mean \<open>m\<close>.\<close>

definition all_tags :: "string go_map \<Rightarrow> (string \<rightharpoonup> string) \<Rightarrow> bool" where
  "all_tags all m \<longleftrightarrow> distinct (map fst all) \<and> clean_map all = m"

lemma merged_key:
  assumes "scope_ok sc" and "distinct (map fst tags)"
    and "all_tags all (tag_map (scope_tags sc) ++ clean_map tags)"
    and "MergeTags (scope_tags sc) tags = Some u"
  shows "Serialize u name = SerializeTags name all"
  using assms scope_MergeTags [OF assms(1,2)] key_eq by (metis all_tags_def option.inject)

lemma per_instance_key:
  assumes "is_tagset t" and "clean_tags t" and "distinct (map fst tags)"
    and "all_tags all (with_instance_tag (tag_map t ++ clean_map tags))"
  shows "Serialize (MergePerInstanceTags t tags) name = SerializeTags name all"
  using assms MergePerInstanceTags_correct [OF assms(1-3)]
  by (intro key_eq) (simp_all add: all_tags_def)

section \<open>Constructors of a scope\<close>

lemma scope_constructors:
  fixes name :: string
  assumes "scope_ok sc" and "distinct (map fst tags)"
    and "all_tags all (tag_map (scope_tags sc) ++ clean_map tags)"
  defines "key \<equiv> SerializeTags (joinScopes (scope_name sc) name) all"
  shows "scope_NewCounterWithTags sc name tags s = Some (newCounter key s)"
    and "scope_NewGaugeWithTags sc name tags s = Some (newGauge key s)"
    and "scope_NewTimerWithTags sc name tags s = Some (newTimer key Microsecond s)"
    and "scope_NewMilliTimerWithTags sc name tags s = Some (newTimer key Millisecond s)"
proof -
  obtain u where u: "MergeTags (scope_tags sc) tags = Some u"
    by (rule scope_MergeTags [OF assms(1,2)])
  note k = merged_key [OF assms(1-3) u]
  show "scope_NewCounterWithTags sc name tags s = Some (newCounter key s)"
    by (simp add: scope_NewCounterWithTags_def newCounterWithTagSet_def u k key_def)
  show "scope_NewGaugeWithTags sc name tags s = Some (newGauge key s)"
    by (simp add: scope_NewGaugeWithTags_def newGaugeWithTagSet_def u k key_def)
  show "scope_NewTimerWithTags sc name tags s = Some (newTimer key Microsecond s)"
    by (simp add: scope_NewTimerWithTags_def newTimerWithTagSet_def u k key_def)
  show "scope_NewMilliTimerWithTags sc name tags s = Some (newTimer key Millisecond s)"
    by (simp add: scope_NewMilliTimerWithTags_def newTimerWithTagSet_def u k key_def)
qed

lemma scope_per_instance:
  fixes name :: string
  assumes "scope_ok sc" and "distinct (map fst tags)"
    and "all_tags all (with_instance_tag (tag_map (scope_tags sc) ++ clean_map tags))"
  defines "key \<equiv> SerializeTags (joinScopes (scope_name sc) name) all"
  shows "scope_NewPerInstanceCounter sc name tags s = newCounter key s"
    and "scope_NewPerInstanceGauge sc name tags s = newGauge key s"
    and "scope_NewPerInstanceTimer sc name tags s = newTimer key Microsecond s"
    and "scope_NewPerInstanceMilliTimer sc name tags s =
           Option.bind (validateTags tags s) (\<lambda>s. Some (newTimer key Millisecond s))"
proof -
  have t: "is_tagset (scope_tags sc)" "clean_tags (scope_tags sc)"
    using assms(1) by (simp_all add: scope_ok_def)
  note k = per_instance_key [OF t assms(2,3)]
  show "scope_NewPerInstanceCounter sc name tags s = newCounter key s"
    by (simp add: scope_NewPerInstanceCounter_def newCounterWithTagSet_def k key_def)
  show "scope_NewPerInstanceGauge sc name tags s = newGauge key s"
    by (simp add: scope_NewPerInstanceGauge_def newGaugeWithTagSet_def k key_def)
  show "scope_NewPerInstanceTimer sc name tags s = newTimer key Microsecond s"
    by (simp add: scope_NewPerInstanceTimer_def newTimerWithTagSet_def k key_def)
  show "scope_NewPerInstanceMilliTimer sc name tags s =
          Option.bind (validateTags tags s) (\<lambda>s. Some (newTimer key Millisecond s))"
    by (simp add: scope_NewPerInstanceMilliTimer_def newTimerWithTagSet_def k key_def)
qed

lemma scope_ScopeWithTags_ok:
  assumes "scope_ok sc" and "distinct (map fst tags)" and "store_inv s"
  shows "\<exists>sc' s'. scope_ScopeWithTags sc name tags s = Some (sc', s') \<and>
           validateTags tags s = Some s' \<and> scope_ok sc' \<and>
           scope_name sc' = joinScopes (scope_name sc) name \<and>
           tag_map (scope_tags sc') = tag_map (scope_tags sc) ++ clean_map tags"
proof -
  obtain u where u: "MergeTags (scope_tags sc) tags = Some u" "is_tagset u" "clean_tags u"
    "tag_map u = tag_map (scope_tags sc) ++ clean_map tags"
    by (rule scope_MergeTags [OF assms(1,2)])
  obtain s' where "validateTags tags s = Some s'" using validateTags_correct [OF assms(3)] by blast
  with u show ?thesis by (simp add: scope_ScopeWithTags_def scope_ok_def)
qed

section \<open>Per-instance constructors of the store\<close>

text \<open>
  The tags the store serializes: \<open>_f=i\<close> is added when there is no key \<open>_f\<close>.  A key \<open>_f\<close> with an
  empty value counts as present, and is dropped when the tags are serialized.
\<close>

definition store_instance_map :: "string go_map \<Rightarrow> string \<rightharpoonup> string" where
  "store_instance_map tags =
     (if map_of tags ''_f'' = None then (clean_map tags)(''_f'' \<mapsto> ''i'') else clean_map tags)"

lemma clean_map_emptyPerInstanceTags: "clean_map emptyPerInstanceTags = [''_f'' \<mapsto> ''i'']"
  by (simp add: clean_map_def emptyPerInstanceTags_def fun_eq_iff)
     (simp add: ReplaceChars_def ReplaceChars_loop.simps)

lemma validate_emptyPerInstanceTags: "validateTags emptyPerInstanceTags s = Some s"
  by (simp add: emptyPerInstanceTags_def ReservedTagWords_def)

lemma store_per_instance_key:
  assumes "distinct (map fst tags)" and "all_tags all (store_instance_map tags)"
  shows "length tags = 0 \<Longrightarrow> SerializeTags name emptyPerInstanceTags = SerializeTags name all"
    and "map_of tags ''_f'' \<noteq> None \<Longrightarrow> SerializeTags name tags = SerializeTags name all"
    and "map_of tags ''_f'' = None \<Longrightarrow>
           Serialize (MergePerInstanceTags [] tags) name = SerializeTags name all"
proof -
  have all: "distinct (map fst all)" "clean_map all = store_instance_map tags"
    using assms(2) by (simp_all add: all_tags_def)
  have same: "SerializeTags name m = SerializeTags name all"
    if "distinct (map fst m)" "clean_map m = store_instance_map tags" for m
    using key_eq [of "NewTagSet m" all name] NewTagSet_correct [OF that(1)] all that
    by (simp add: SerializeTags_eq)
  show "length tags = 0 \<Longrightarrow> SerializeTags name emptyPerInstanceTags = SerializeTags name all"
    by (rule same) (simp_all add: clean_map_emptyPerInstanceTags store_instance_map_def,
        simp add: emptyPerInstanceTags_def)
  show "map_of tags ''_f'' \<noteq> None \<Longrightarrow> SerializeTags name tags = SerializeTags name all"
    by (rule same) (use assms(1) in \<open>simp_all add: store_instance_map_def del: not_None_eq\<close>)
  assume none: "map_of tags ''_f'' = None"
  then have "clean_map tags ''_f'' = None" by (simp add: clean_map_def)
  then have "with_instance_tag (tag_map [] ++ clean_map tags) = store_instance_map tags"
    using none by (simp add: with_instance_tag_def store_instance_map_def tag_map_def domIff)
  then show "Serialize (MergePerInstanceTags [] tags) name = SerializeTags name all"
    using all by (intro per_instance_key [OF _ _ assms(1)])
      (simp_all add: clean_tags_def all_tags_def)
qed

lemma store_per_instance:
  fixes name :: string
  assumes "distinct (map fst tags)" and "all_tags all (store_instance_map tags)"
  defines "key \<equiv> SerializeTags name all"
  shows "store_NewPerInstanceCounter name tags s =
           Option.bind (validateTags tags s) (\<lambda>s. Some (newCounter key s))"
    and "store_NewPerInstanceGauge name tags s =
           Option.bind (validateTags tags s) (\<lambda>s. Some (newGauge key s))"
    and "store_NewPerInstanceTimer name tags s =
           Option.bind (validateTags tags s) (\<lambda>s. Some (newTimer key Microsecond s))"
    and "store_NewPerInstanceMilliTimer name tags s =
           Option.bind (validateTags tags s) (\<lambda>s. Some (newTimer key Millisecond s))"
  using store_per_instance_key [OF assms(1,2), of name]
  by (auto simp: store_NewPerInstanceCounter_def store_NewPerInstanceGauge_def
      store_NewPerInstanceTimer_def store_NewPerInstanceMilliTimer_def
      store_NewCounterWithTags_def store_NewGaugeWithTags_def store_NewTimerWithTags_def
      store_NewMilliTimerWithTags_def newCounterWithTagSet_def newGaugeWithTagSet_def
      newTimerWithTagSet_def validate_emptyPerInstanceTags key_def)

end
