(* ===== verification/Scope_Api.thy ===== *)
theory Scope_Api
  imports Scope_Laws
begin

text \<open>
  The part of the interface \<open>Scope\<close> that the library's own clients use (the HTTP handler and the
  runtime statistics): constructors of metrics without tags.  A value of the interface is the store
  or a scope of it; its contract is a locale, and what its clients need of a run is proved there.
\<close>

section \<open>The interface\<close>

datatype Scope = Store_scope | Sub_scope subScope

definition Scope_NewCounter :: "Scope \<Rightarrow> string \<Rightarrow> statStore \<Rightarrow> (nat \<times> statStore) option" where
  "Scope_NewCounter sc name s =
     (case sc of Store_scope \<Rightarrow> Some (store_NewCounter name s) | Sub_scope c \<Rightarrow> scope_NewCounter c name s)"

definition Scope_NewGauge :: "Scope \<Rightarrow> string \<Rightarrow> statStore \<Rightarrow> (nat \<times> statStore) option" where
  "Scope_NewGauge sc name s =
     (case sc of Store_scope \<Rightarrow> Some (store_NewGauge name s) | Sub_scope c \<Rightarrow> scope_NewGauge c name s)"

definition Scope_NewTimer :: "Scope \<Rightarrow> string \<Rightarrow> statStore \<Rightarrow> (nat \<times> statStore) option" where
  "Scope_NewTimer sc name s =
     (case sc of Store_scope \<Rightarrow> Some (store_NewTimer name s) | Sub_scope c \<Rightarrow> scope_NewTimer c name s)"

text \<open>The name under which a scope registers a metric.\<close>

definition stat_name :: "Scope \<Rightarrow> string \<Rightarrow> string" where
  "stat_name sc name =
     (case sc of
        Store_scope \<Rightarrow> name
      | Sub_scope c \<Rightarrow> Serialize (scope_tags c) (joinScopes (scope_name c) name))"

section \<open>The contract\<close>

locale scope_api =
  fixes new_counter new_gauge new_timer :: "string \<Rightarrow> statStore \<Rightarrow> (nat \<times> statStore) option"
    and key :: "string \<Rightarrow> string"
  assumes counter_key: "new_counter name s = Some (newCounter (key name) s)"
    and gauge_key: "new_gauge name s = Some (newGauge (key name) s)"
    and timer_key: "new_timer name s = Some (newTimer (key name) Microsecond s)"
begin

lemma new_counter_run:
  assumes "store_run gen w s" and "new_counter name s = Some (a, s')"
  shows "store_run gen (w\<lparr>counter_refs := insert (key name, a) (counter_refs w)\<rparr>) s'"
  using assms store_run.new_counter [of gen w s "key name" a s'] by (simp add: counter_key)

lemma new_gauge_run:
  assumes "store_run gen w s" and "new_gauge name s = Some (a, s')"
  shows "store_run gen (w\<lparr>gauge_refs := insert (key name, a) (gauge_refs w)\<rparr>) s'"
  using assms store_run.new_gauge [of gen w s "key name" a s'] by (simp add: gauge_key)

lemma new_timer_run:
  assumes "store_run gen w s" and "new_timer name s = Some (a, s')"
  shows "store_run gen (w\<lparr>timer_refs := insert (key name, a) (timer_refs w)\<rparr>) s'"
  using assms store_run.new_timer [of gen w s Microsecond "key name" a s'] by (simp add: timer_key)

end

lemma MergeTags_none: "MergeTags t [] = Some t"
  by (simp add: MergeTags_def)

interpretation api: scope_api "Scope_NewCounter sc" "Scope_NewGauge sc" "Scope_NewTimer sc" "stat_name sc" for sc
  by unfold_locales
    (cases sc; simp add: Scope_NewCounter_def Scope_NewGauge_def Scope_NewTimer_def stat_name_def
      store_NewCounter_def store_NewGauge_def store_NewTimer_def scope_NewCounter_def scope_NewGauge_def
      scope_NewTimer_def scope_NewCounterWithTags_def scope_NewGaugeWithTags_def scope_NewTimerWithTags_def
      newCounterWithTagSet_def newGaugeWithTagSet_def newTimerWithTagSet_def MergeTags_none)+

end
