(* ===== verification/Handler.thy ===== *)
theory Handler
  imports Scope_Api
begin

text \<open>
  The HTTP handler of \<open>stat_handler.go\<close> and \<open>wrapResponse\<close>.  The wrapped handler and the response
  writer of the server are the caller's code: a request is the list of calls the handler makes on the
  writer it is given, and the server's writer is the list of calls it receives.
\<close>

section \<open>The interfaces of a response writer\<close>

datatype iface = Flusher | Hijacker | Pusher | CloseNotifier

text \<open>What the type assertions on the server's writer say.\<close>

record writer_type =
  canFlush :: bool
  canHijack :: bool
  canPush :: bool
  canNotify :: bool

text \<open>
  The interfaces embedded, beside the response writer, in the struct that \<open>wrapResponse\<close> returns, for
  Go from 1.8 on and before.
\<close>

definition wrapResponse :: "writer_type \<Rightarrow> iface list" where
  "wrapResponse w =
     (if canFlush w \<and> canHijack w \<and> canPush w \<and> canNotify w then [Flusher, Hijacker, Pusher, CloseNotifier]
      else if canFlush w \<and> canHijack w \<and> canPush w then [Flusher, Hijacker, Pusher]
      else if canFlush w \<and> canHijack w \<and> canNotify w then [Flusher, Hijacker, CloseNotifier]
      else if canFlush w \<and> canPush w \<and> canNotify w then [Flusher, Pusher, CloseNotifier]
      else if canHijack w \<and> canPush w \<and> canNotify w then [Hijacker, Pusher, CloseNotifier]
      else if canFlush w \<and> canHijack w then [Flusher, Hijacker]
      else if canFlush w \<and> canPush w then [Flusher, Pusher]
      else if canFlush w \<and> canNotify w then [Flusher, CloseNotifier]
      else if canHijack w \<and> canPush w then [Hijacker, Pusher]
      else if canHijack w \<and> canNotify w then [Hijacker, CloseNotifier]
      else if canPush w \<and> canNotify w then [Pusher, CloseNotifier]
      else if canFlush w then [Flusher]
      else if canHijack w then [Hijacker]
      else if canPush w then [Pusher]
      else if canNotify w then [CloseNotifier]
      else [])"

definition wrapResponse_1_7 :: "writer_type \<Rightarrow> iface list" where
  "wrapResponse_1_7 w =
     (if canFlush w \<and> canHijack w \<and> canNotify w then [Flusher, Hijacker, CloseNotifier]
      else if canFlush w \<and> canHijack w then [Flusher, Hijacker]
      else if canFlush w \<and> canNotify w then [Flusher, CloseNotifier]
      else if canHijack w \<and> canNotify w then [Hijacker, CloseNotifier]
      else if canFlush w then [Flusher]
      else if canHijack w then [Hijacker]
      else if canNotify w then [CloseNotifier]
      else [])"

section \<open>The handler\<close>

record httpHandler =
  handler_scope :: Scope
  handler_timer :: nat
  codes :: "int \<rightharpoonup> nat"

definition requestTimer :: string where
  "requestTimer = ''rq_time_us''"

definition NewStatHandler :: "Scope \<Rightarrow> statStore \<Rightarrow> (httpHandler \<times> statStore) option" where
  "NewStatHandler scope s = do {
     (t, s) \<leftarrow> Scope_NewTimer scope requestTimer s;
     Some (\<lparr>handler_scope = scope, handler_timer = t, codes = Map.empty\<rparr>, s)
   }"

text \<open>
  \<open>counter\<close>: a look under the read lock, then, where nothing was found, the section under the write
  lock, which looks again.
\<close>

definition handler_create :: "int \<Rightarrow> httpHandler \<Rightarrow> statStore \<Rightarrow> (nat \<times> httpHandler \<times> statStore) option" where
  "handler_create code h s =
     (case codes h code of
        Some c \<Rightarrow> Some (c, h, s)
      | None \<Rightarrow> do {
          (c, s) \<leftarrow> Scope_NewCounter (handler_scope h) (go_Itoa code) s;
          Some (c, h\<lparr>codes := (codes h)(code \<mapsto> c)\<rparr>, s)
        })"

definition handler_counter :: "int \<Rightarrow> httpHandler \<Rightarrow> statStore \<Rightarrow> (nat \<times> httpHandler \<times> statStore) option" where
  "handler_counter code h s =
     (case codes h code of
        Some c \<Rightarrow> Some (c, h, s)
      | None \<Rightarrow> handler_create code h s)"

section \<open>The response writer\<close>

datatype writer_call = Call_WriteHeader int | Call_Write string | Call_iface iface

record responseWriter =
  headerWritten :: bool
  received :: "writer_call list"  \<comment> \<open>by the server's writer\<close>

type_synonym served = "httpHandler \<times> statStore \<times> responseWriter"

definition StatusOK :: int where "StatusOK = 200"

definition rw_WriteHeader :: "int \<Rightarrow> served \<Rightarrow> served option" where
  "rw_WriteHeader code x =
     (case x of (h, s, rw) \<Rightarrow>
        if headerWritten rw then Some (h, s, rw)
        else do {
          let rw = rw\<lparr>headerWritten := True\<rparr>;
          (c, h, s) \<leftarrow> handler_counter code h s;
          s \<leftarrow> counter_Inc c s;
          Some (h, s, rw\<lparr>received := received rw @ [Call_WriteHeader code]\<rparr>)
        })"

definition rw_Write :: "string \<Rightarrow> served \<Rightarrow> served option" where
  "rw_Write b x = do {
     (h, s, rw) \<leftarrow> (if \<not> headerWritten (snd (snd x)) then rw_WriteHeader StatusOK x else Some x);
     Some (h, s, rw\<lparr>received := received rw @ [Call_Write b]\<rparr>)
   }"

text \<open>
  The calls of the wrapped handler.  A call on one of the other interfaces goes to the server's writer,
  if the struct has it.
\<close>

definition rw_call :: "iface list \<Rightarrow> writer_call \<Rightarrow> served \<Rightarrow> served option" where
  "rw_call is c x =
     (case c of
        Call_WriteHeader code \<Rightarrow> rw_WriteHeader code x
      | Call_Write b \<Rightarrow> rw_Write b x
      | Call_iface i \<Rightarrow>
          if i \<in> set is
          then (case x of (h, s, rw) \<Rightarrow> Some (h, s, rw\<lparr>received := received rw @ [Call_iface i]\<rparr>))
          else None)"

fun serve_calls :: "iface list \<Rightarrow> writer_call list \<Rightarrow> served \<Rightarrow> served option" where
  "serve_calls is [] x = Some x"
| "serve_calls is (c # cs) x = Option.bind (rw_call is c x) (serve_calls is cs)"

text \<open>\<open>ServeHTTP\<close>: \<open>start\<close> and \<open>now\<close> are the times before and after the wrapped handler.\<close>

definition ServeHTTP :: "writer_type \<Rightarrow> writer_call list \<Rightarrow> int \<Rightarrow> int \<Rightarrow> httpHandler \<Rightarrow> statStore \<Rightarrow> served option" where
  "ServeHTTP w calls start now h s = do {
     let span = timer_AllocateSpan (handler_timer h) start;
     (h, s, rw) \<leftarrow> serve_calls (wrapResponse w) calls (h, s, \<lparr>headerWritten = False, received = []\<rparr>);
     Some (h, snd (timespan_Complete span now s), rw)
   }"

end
