(* ===== verification/Handler_Props.thy ===== *)
theory Handler_Props
  imports Handler Timer_Props
begin

text \<open>Properties of the HTTP handler.\<close>

section \<open>Interfaces\<close>

definition implements :: "writer_type \<Rightarrow> iface set" where
  "implements w =
     {i. case i of Flusher \<Rightarrow> canFlush w | Hijacker \<Rightarrow> canHijack w | Pusher \<Rightarrow> canPush w | CloseNotifier \<Rightarrow> canNotify w}"

text \<open>
  C32: the sixteen cases of \<open>wrapResponse\<close> are complete and right: the value it returns implements an
  optional interface exactly when the server's writer does, and embeds none twice; before Go 1.8, which
  brought \<open>Pusher\<close>, the same without it.
\<close>

theorem wrapResponse_interfaces:
  "set (wrapResponse w) = implements w \<and> distinct (wrapResponse w) \<and>
   set (wrapResponse_1_7 w) = implements w - {Pusher} \<and> distinct (wrapResponse_1_7 w)"
proof (intro conjI set_eqI)
  fix i
  show "i \<in> set (wrapResponse w) \<longleftrightarrow> i \<in> implements w"
    by (cases i) (auto simp: wrapResponse_def implements_def)
  show "i \<in> set (wrapResponse_1_7 w) \<longleftrightarrow> i \<in> implements w - {Pusher}"
    by (cases i) (auto simp: wrapResponse_1_7_def implements_def)
qed (simp_all add: wrapResponse_def wrapResponse_1_7_def)

section \<open>Counting requests\<close>

definition handler_ok :: "httpHandler \<Rightarrow> client \<Rightarrow> bool" where
  "handler_ok h w \<longleftrightarrow>
     (stat_name (handler_scope h) requestTimer, handler_timer h) \<in> timer_refs w \<and>
     (\<forall>code a. codes h code = Some a \<longrightarrow> (stat_name (handler_scope h) (go_Itoa code), a) \<in> counter_refs w)"

lemma handler_okD:
  assumes "handler_ok h w"
  shows "(stat_name (handler_scope h) requestTimer, handler_timer h) \<in> timer_refs w"
    and "codes h code = Some a \<Longrightarrow> (stat_name (handler_scope h) (go_Itoa code), a) \<in> counter_refs w"
  using assms by (simp_all add: handler_ok_def)

lemma NewStatHandler_ok:
  assumes "store_run gen w s" and "NewStatHandler sc s = Some (h, s')"
  shows "\<exists>w'. store_run gen w' s' \<and> handler_ok h w' \<and> written w' = written w"
proof -
  obtain t where t: "Scope_NewTimer sc requestTimer s = Some (t, s')"
    "h = \<lparr>handler_scope = sc, handler_timer = t, codes = Map.empty\<rparr>"
    using assms(2) by (auto simp: NewStatHandler_def split: bind_splits)
  show ?thesis
    using api.new_timer_run [OF assms(1) t(1)] t(2)
    by (intro exI [of _ "w\<lparr>timer_refs := insert (stat_name sc requestTimer, t) (timer_refs w)\<rparr>"])
      (simp add: handler_ok_def)
qed

text \<open>The handler finds or creates the counter of a code.\<close>

lemma newCounter_calls: "newCounter k s = (a, s') \<Longrightarrow> sink_calls s' = sink_calls s"
  by (auto simp: newCounter_def smap_LoadOrStore_def Let_def split: option.splits prod.splits if_splits)

lemma handler_counter_ok:
  assumes "store_run gen w s" and "handler_ok h w"
  obtains a h' s' w' where "handler_counter code h s = Some (a, h', s')" "store_run gen w' s'"
    "handler_ok h' w'" "(stat_name (handler_scope h) (go_Itoa code), a) \<in> counter_refs w'"
    "written w' = written w" "handler_scope h' = handler_scope h" "handler_timer h' = handler_timer h"
    "timer_refs w' = timer_refs w" "sink_calls s' = sink_calls s"
proof (cases "codes h code")
  case (Some a)
  then show ?thesis using that [of a h s w] assms handler_okD [OF assms(2)]
    by (simp add: handler_counter_def)
next
  case None
  let ?k = "stat_name (handler_scope h) (go_Itoa code)"
  obtain a s' where n: "Scope_NewCounter (handler_scope h) (go_Itoa code) s = Some (a, s')"
    "newCounter ?k s = (a, s')"
    using api.counter_key [of "handler_scope h" "go_Itoa code" s] by (cases "newCounter ?k s") auto
  let ?h = "h\<lparr>codes := (codes h)(code \<mapsto> a)\<rparr>" and ?w = "w\<lparr>counter_refs := insert (?k, a) (counter_refs w)\<rparr>"
  have "handler_ok ?h ?w" using assms(2) by (auto simp: handler_ok_def)
  moreover have "handler_counter code h s = Some (a, ?h, s')"
    using None n(1) by (simp add: handler_counter_def handler_create_def)
  ultimately show ?thesis
    using that [of a ?h s' ?w] api.new_counter_run [OF assms(1) n(1)] newCounter_calls [OF n(2)] by simp
qed

lemma counter_Inc_run:
  assumes "store_run gen w s" and "(k, a) \<in> counter_refs w"
  obtains s' where "counter_Inc a s = Some s'" "store_run gen (wrote k 1 w) s'" "sink_calls s' = sink_calls s"
proof -
  have "core_inv s" "a < length (counter_heap s)"
    using store_run_inv [OF assms(1)] assms(2) by (auto simp: run_inv_def store_inv_def counters_inv_def)
  then obtain s' where s': "counter_Inc a s = Some s'" "sink_calls s' = sink_calls s"
    by (simp add: counter_Inc_def counter_Add_eq)
  show ?thesis by (rule that [OF s'(1) store_run.inc [OF assms s'(1)] s'(2)])
qed

text \<open>The status a request is counted under, and what the server's writer receives.\<close>

fun first_code :: "writer_call list \<Rightarrow> int option" where
  "first_code [] = None"
| "first_code (Call_WriteHeader code # cs) = Some code"
| "first_code (Call_Write b # cs) = Some StatusOK"
| "first_code (Call_iface i # cs) = first_code cs"

fun reply :: "bool \<Rightarrow> writer_call list \<Rightarrow> writer_call list" where
  "reply hw [] = []"
| "reply hw (Call_WriteHeader code # cs) = (if hw then reply hw cs else Call_WriteHeader code # reply True cs)"
| "reply hw (Call_Write b # cs) =
     (if hw then [] else [Call_WriteHeader StatusOK]) @ Call_Write b # reply True cs"
| "reply hw (Call_iface i # cs) = Call_iface i # reply hw cs"

definition counted :: "Scope \<Rightarrow> int option \<Rightarrow> string \<Rightarrow> u64" where
  "counted sc c k = (case c of None \<Rightarrow> 0 | Some code \<Rightarrow> if k = stat_name sc (go_Itoa code) then 1 else 0)"

text \<open>What every call keeps, and what it adds.\<close>

definition serving :: "(nat \<Rightarrow> statStore \<Rightarrow> statStore) \<Rightarrow> client \<Rightarrow> served \<Rightarrow> bool" where
  "serving gen w x = (case x of (h, s, rw) \<Rightarrow> store_run gen w s \<and> handler_ok h w)"

definition serves :: "(nat \<Rightarrow> statStore \<Rightarrow> statStore) \<Rightarrow> client \<Rightarrow> served \<Rightarrow> int option \<Rightarrow> writer_call list \<Rightarrow> bool \<Rightarrow>
    served option \<Rightarrow> bool" where
  "serves gen w x c rep hw r \<longleftrightarrow>
     (case x of (h, s, rw) \<Rightarrow>
        \<exists>h' s' rw' w'. r = Some (h', s', rw') \<and> serving gen w' (h', s', rw') \<and>
          headerWritten rw' = hw \<and> received rw' = received rw @ rep \<and>
          (\<forall>k. written w' k = written w k + counted (handler_scope h) c k) \<and>
          handler_scope h' = handler_scope h \<and> handler_timer h' = handler_timer h \<and>
          sink_calls s' = sink_calls s)"

lemma serves_header:
  assumes "serving gen w (h, s, rw)" and "\<not> headerWritten rw"
  shows "serves gen w (h, s, rw) (Some code) [Call_WriteHeader code] True (rw_WriteHeader code (h, s, rw))"
proof -
  let ?k = "stat_name (handler_scope h) (go_Itoa code)"
  have i: "store_run gen w s" "handler_ok h w" using assms(1) by (simp_all add: serving_def)
  obtain a h' s1 w' where c: "handler_counter code h s = Some (a, h', s1)" "store_run gen w' s1"
    "handler_ok h' w'" "(?k, a) \<in> counter_refs w'" "written w' = written w"
    "handler_scope h' = handler_scope h" "handler_timer h' = handler_timer h" "timer_refs w' = timer_refs w"
    "sink_calls s1 = sink_calls s"
    by (rule handler_counter_ok [OF i])
  obtain s2 where s2: "counter_Inc a s1 = Some s2" "store_run gen (wrote ?k 1 w') s2" "sink_calls s2 = sink_calls s1"
    by (rule counter_Inc_run [OF c(2,4)])
  have "handler_ok h' (wrote ?k 1 w')" using c(3) by (simp add: handler_ok_def wrote_def)
  then show ?thesis using assms(2) c s2
    unfolding serves_def
    by (auto simp: rw_WriteHeader_def serving_def counted_def wrote_def intro!: exI [of _ "wrote ?k 1 w'"])
qed

lemma serves_same:
  assumes "serving gen w (h, s, rw)"
  shows "serves gen w (h, s, rw) None rep (headerWritten rw) (Some (h, s, rw\<lparr>received := received rw @ rep\<rparr>))"
  using assms by (auto simp: serves_def serving_def counted_def)

lemma serves_seq:
  assumes "serves gen w x c1 rep1 hw1 r" and "c1 = None \<or> c2 = None"
    and "\<And>h s rw w'. serving gen w' (h, s, rw) \<Longrightarrow> headerWritten rw = hw1 \<Longrightarrow>
           serves gen w' (h, s, rw) c2 rep2 hw2 (f (h, s, rw))"
  shows "serves gen w x (if c1 = None then c2 else c1) (rep1 @ rep2) hw2 (Option.bind r f)"
proof -
  obtain h s rw where x: "x = (h, s, rw)" by (cases x)
  obtain h1 s1 rw1 w1 where 1: "r = Some (h1, s1, rw1)" "serving gen w1 (h1, s1, rw1)" "headerWritten rw1 = hw1"
    "received rw1 = received rw @ rep1" "\<And>k. written w1 k = written w k + counted (handler_scope h) c1 k"
    "handler_scope h1 = handler_scope h" "handler_timer h1 = handler_timer h" "sink_calls s1 = sink_calls s"
    using assms(1) by (auto simp: serves_def x)
  obtain h2 s2 rw2 w2 where 2: "f (h1, s1, rw1) = Some (h2, s2, rw2)" "serving gen w2 (h2, s2, rw2)"
    "headerWritten rw2 = hw2" "received rw2 = received rw1 @ rep2"
    "\<And>k. written w2 k = written w1 k + counted (handler_scope h1) c2 k"
    "handler_scope h2 = handler_scope h1" "handler_timer h2 = handler_timer h1" "sink_calls s2 = sink_calls s1"
    using assms(3) [OF 1(2,3)] by (auto simp: serves_def)
  have "written w2 k = written w k + counted (handler_scope h) (if c1 = None then c2 else c1) k" for k
    using 1(5,6) 2(5) assms(2) by (auto simp: counted_def split: option.split)
  then show ?thesis using 1 2 unfolding serves_def x
    by (auto intro!: exI [of _ w2])
qed

lemma serves_call:
  assumes "serving gen w (h, s, rw)" and "\<forall>i. c = Call_iface i \<longrightarrow> i \<in> set is"
  shows "serves gen w (h, s, rw) (if headerWritten rw then None else first_code [c]) (reply (headerWritten rw) [c])
           (headerWritten rw \<or> first_code [c] \<noteq> None) (rw_call is c (h, s, rw))"
proof (cases c)
  case (Call_WriteHeader code)
  then show ?thesis using serves_header [OF assms(1)] serves_same [OF assms(1), of "[]"]
    by (cases "headerWritten rw") (simp_all add: rw_call_def rw_WriteHeader_def)
next
  case (Call_iface i)
  then show ?thesis using serves_same [OF assms(1), of "[Call_iface i]"] assms(2)
    by (cases "headerWritten rw") (simp_all add: rw_call_def)
next
  case (Call_Write b)
  show ?thesis
  proof (cases "headerWritten rw")
    case True
    then show ?thesis using Call_Write serves_same [OF assms(1), of "[Call_Write b]"]
      by (simp add: rw_call_def rw_Write_def)
  next
    case False
    have "serves gen w' (h', s', rw') None [Call_Write b] True
        ((\<lambda>(h, s, rw). Some (h, s, rw\<lparr>received := received rw @ [Call_Write b]\<rparr>)) (h', s', rw'))"
      if "serving gen w' (h', s', rw')" "headerWritten rw' = True" for h' s' rw' w'
      using serves_same [OF that(1), of "[Call_Write b]"] that(2) by simp
    from serves_seq [OF serves_header [OF assms(1) False, of StatusOK] _ this] show ?thesis
      using Call_Write False by (simp add: rw_call_def rw_Write_def)
  qed
qed

lemma serves_calls:
  assumes "serving gen w (h, s, rw)" and "\<forall>i. Call_iface i \<in> set cs \<longrightarrow> i \<in> set is"
  shows "serves gen w (h, s, rw) (if headerWritten rw then None else first_code cs) (reply (headerWritten rw) cs)
           (headerWritten rw \<or> first_code cs \<noteq> None) (serve_calls is cs (h, s, rw))"
  using assms
proof (induction cs arbitrary: h s rw w)
  case Nil
  then show ?case using serves_same [OF Nil.prems(1), of "[]"] by (cases "headerWritten rw") simp_all
next
  case (Cons c cs)
  let ?hw = "headerWritten rw \<or> first_code [c] \<noteq> None"
  have "serves gen w' (h', s', rw') (if ?hw then None else first_code cs) (reply ?hw cs)
      (?hw \<or> first_code cs \<noteq> None) (serve_calls is cs (h', s', rw'))"
    if "serving gen w' (h', s', rw')" "headerWritten rw' = ?hw" for h' s' rw' w'
    using Cons.IH [OF that(1)] Cons.prems(2) that(2) by simp
  from serves_seq [OF serves_call [OF Cons.prems(1)] _ this] Cons.prems(2)
  have "serves gen w (h, s, rw)
      (if (if headerWritten rw then None else first_code [c]) = None
       then (if ?hw then None else first_code cs) else (if headerWritten rw then None else first_code [c]))
      (reply (headerWritten rw) [c] @ reply ?hw cs) (?hw \<or> first_code cs \<noteq> None) (serve_calls is (c # cs) (h, s, rw))"
    by simp
  moreover have "reply (headerWritten rw) [c] @ reply ?hw cs = reply (headerWritten rw) (c # cs)"
    by (cases c) auto
  moreover have "(if (if headerWritten rw then None else first_code [c]) = None
       then (if ?hw then None else first_code cs) else (if headerWritten rw then None else first_code [c])) =
      (if headerWritten rw then None else first_code (c # cs))" by (cases c) auto
  moreover have "(?hw \<or> first_code cs \<noteq> None) = (headerWritten rw \<or> first_code (c # cs) \<noteq> None)"
    by (cases c) auto
  ultimately show ?case by (simp only:)
qed

text \<open>
  C27: what the handler records of a request, in any run of the store.  Serving it succeeds; the
  server's writer receives the first status the wrapped handler sets, or 200 before its first write,
  and every other call in order, but no second status; the counter of that status under the handler's
  scope, found or created, gets one more, and no other counter anything; the timer reports once; and
  the handler is ready for the next request.
\<close>

theorem request_counted:
  assumes "store_run gen w s" and "handler_ok h w"
    and "\<forall>i. Call_iface i \<in> set calls \<longrightarrow> i \<in> set (wrapResponse wt)"
  shows "\<exists>h' s' rw w' x. ServeHTTP wt calls start now h s = Some (h', s', rw) \<and>
           store_run gen w' s' \<and> handler_ok h' w' \<and> received rw = reply False calls \<and>
           (\<forall>k. written w' k = written w k + counted (handler_scope h) (first_code calls) k) \<and>
           sink_calls s' = sink_calls s @ [FlushTimer (stat_name (handler_scope h) requestTimer) x]"
proof -
  have "serving gen w (h, s, \<lparr>headerWritten = False, received = []\<rparr>)"
    using assms(1,2) by (simp add: serving_def)
  from serves_calls [OF this assms(3)]
  obtain h' s1 rw w' where r: "serve_calls (wrapResponse wt) calls (h, s, \<lparr>headerWritten = False, received = []\<rparr>)
      = Some (h', s1, rw)" "store_run gen w' s1" "handler_ok h' w'" "received rw = reply False calls"
    "\<forall>k. written w' k = written w k + counted (handler_scope h) (first_code calls) k"
    "handler_scope h' = handler_scope h" "handler_timer h' = handler_timer h" "sink_calls s1 = sink_calls s"
    by (auto simp: serves_def serving_def)
  let ?k = "stat_name (handler_scope h) requestTimer" and ?t = "handler_timer h"
  let ?d = "time_Since now start"
  have ref: "(?k, ?t) \<in> timer_refs w'" using r(3,6,7) by (simp add: handler_ok_def)
  then have "timer_ref_ok s1 ?k ?t" using store_run_timers [OF r(2)] by (auto simp: timers_ok_def)
  then have name: "timer_name (timer_heap s1 ! ?t) = ?k" "?t < length (timer_heap s1)"
    by (auto simp: timer_ref_ok_def)
  let ?s = "timer_AddDuration ?t ?d s1"
  have "ServeHTTP wt calls start now h s = Some (h', ?s, rw)"
    using r(1) by (simp add: ServeHTTP_def timespan_Complete_def timer_AllocateSpan_def timer_time_def Let_def)
  moreover have "store_run gen w' ?s" by (rule store_run.timer_duration [OF r(2) ref])
  moreover obtain x where "sink_calls ?s = sink_calls s1 @ [FlushTimer ?k x]"
    using name by (simp add: timer_AddDuration_def timer_AddValue_def Let_def upd_timer_def emit_def)
  ultimately show ?thesis using r(3-5,8) by (intro exI conjI) (assumption | simp)+
qed

theorem request_counted_witness:
  "\<exists>h s h' s' rw. NewStatHandler Store_scope (empty_store 0 True) = Some (h, s) \<and>
     ServeHTTP \<lparr>canFlush = True, canHijack = False, canPush = False, canNotify = False\<rparr>
       [Call_iface Flusher, Call_WriteHeader 404, Call_WriteHeader 500, Call_Write ''x''] 3 5 h s = Some (h', s', rw) \<and>
     received rw = [Call_iface Flusher, Call_WriteHeader 404, Call_Write ''x'']"
proof -
  let ?cs = "[Call_iface Flusher, Call_WriteHeader 404, Call_WriteHeader 500, Call_Write ''x'']"
  let ?wt = "\<lparr>canFlush = True, canHijack = False, canPush = False, canNotify = False\<rparr>"
  obtain h s where h: "NewStatHandler Store_scope (empty_store 0 True) = Some (h, s)"
    using api.timer_key [of Store_scope requestTimer "empty_store 0 True"]
    by (cases "newTimer (stat_name Store_scope requestTimer) Microsecond (empty_store 0 True)")
      (auto simp: NewStatHandler_def)
  obtain w where w: "store_run (\<lambda>_ s. s) w s" "handler_ok h w"
    using NewStatHandler_ok [OF store_run.start h] by blast
  have "\<forall>i. Call_iface i \<in> set ?cs \<longrightarrow> i \<in> set (wrapResponse ?wt)" by (simp add: wrapResponse_def)
  from request_counted [OF w this, of 3 5] h show ?thesis by auto
qed

end
