(* ===== verification/Handler_Conc.thy ===== *)
theory Handler_Conc
  imports Handler_Props
begin

text \<open>
  Requests served at the same time by one handler.  The read lock and the write lock of \<open>counter\<close> make
  its two sections atomic; between them, and between all other steps of a request, other requests and
  the rest of the program go on.
\<close>

section \<open>A request step by step\<close>

text \<open>
  Where a request is: before \<open>AllocateSpan\<close>, between two calls of the wrapped handler, in \<open>WriteHeader\<close>
  before the section under the read lock, before the section under the write lock, before \<open>Inc\<close>, and
  before the call of the server's writer, or finished.
\<close>

datatype request_pc =
    Q_start | Q_next | Q_lookup int | Q_create int | Q_inc int nat | Q_forward int | Q_done

record request =
  request_pc :: request_pc
  todo :: "writer_call list"  \<comment> \<open>calls the wrapped handler has still to make\<close>
  embedded :: "iface list"
  span :: timespan
  writer :: responseWriter

definition new_request :: "writer_type \<Rightarrow> writer_call list \<Rightarrow> request" where
  "new_request w calls =
     \<lparr>request_pc = Q_start, todo = calls, embedded = wrapResponse w, span = \<lparr>span_timer = 0, span_start = 0\<rparr>,
      writer = \<lparr>headerWritten = False, received = []\<rparr>\<rparr>"

definition to_writer :: "writer_call \<Rightarrow> request \<Rightarrow> request" where
  "to_writer c r = r\<lparr>writer := (writer r)\<lparr>received := received (writer r) @ [c]\<rparr>\<rparr>"

definition begin_header :: "int \<Rightarrow> request \<Rightarrow> request" where
  "begin_header code r = r\<lparr>writer := (writer r)\<lparr>headerWritten := True\<rparr>, request_pc := Q_lookup code\<rparr>"

text \<open>\<open>now\<close> is the time, when the step reads the clock.\<close>

definition serve_step :: "int \<Rightarrow> request \<times> httpHandler \<times> statStore \<Rightarrow> (request \<times> httpHandler \<times> statStore) option" where
  "serve_step now x =
     (case x of (r, h, s) \<Rightarrow>
        (case request_pc r of
           Q_start \<Rightarrow> Some (r\<lparr>span := timer_AllocateSpan (handler_timer h) now, request_pc := Q_next\<rparr>, h, s)
         | Q_next \<Rightarrow>
             (case todo r of
                [] \<Rightarrow> Some (r\<lparr>request_pc := Q_done\<rparr>, h, snd (timespan_Complete (span r) now s))
              | Call_WriteHeader code # cs \<Rightarrow>
                  if headerWritten (writer r) then Some (r\<lparr>todo := cs\<rparr>, h, s)
                  else Some (begin_header code (r\<lparr>todo := cs\<rparr>), h, s)
              | Call_Write b # cs \<Rightarrow>
                  if \<not> headerWritten (writer r) then Some (begin_header StatusOK r, h, s)
                  else Some (to_writer (Call_Write b) (r\<lparr>todo := cs\<rparr>), h, s)
              | Call_iface i # cs \<Rightarrow>
                  if i \<in> set (embedded r) then Some (to_writer (Call_iface i) (r\<lparr>todo := cs\<rparr>), h, s) else None)
         | Q_lookup code \<Rightarrow>
             (case codes h code of
                Some c \<Rightarrow> Some (r\<lparr>request_pc := Q_inc code c\<rparr>, h, s)
              | None \<Rightarrow> Some (r\<lparr>request_pc := Q_create code\<rparr>, h, s))
         | Q_create code \<Rightarrow>
             (case handler_create code h s of
                Some (c, h, s) \<Rightarrow> Some (r\<lparr>request_pc := Q_inc code c\<rparr>, h, s)
              | None \<Rightarrow> None)
         | Q_inc code c \<Rightarrow>
             (case counter_Inc c s of
                Some s \<Rightarrow> Some (r\<lparr>request_pc := Q_forward code\<rparr>, h, s)
              | None \<Rightarrow> None)
         | Q_forward code \<Rightarrow> Some (to_writer (Call_WriteHeader code) (r\<lparr>request_pc := Q_next\<rparr>), h, s)
         | Q_done \<Rightarrow> None))"

section \<open>All interleavings\<close>

text \<open>
  The rest of the program may do with the store what a run can do, a flush included: it forgets no
  metric, and \<open>d k\<close> is what it writes under the name \<open>k\<close>; \<open>others\<close> adds that up.
\<close>

definition more_refs :: "client \<Rightarrow> client \<Rightarrow> bool" where
  "more_refs w w' \<longleftrightarrow>
     counter_refs w \<subseteq> counter_refs w' \<and> gauge_refs w \<subseteq> gauge_refs w' \<and> timer_refs w \<subseteq> timer_refs w'"

text \<open>What a step of a request adds to the record of the run.\<close>

definition request_client :: "request \<Rightarrow> httpHandler \<Rightarrow> client \<Rightarrow> client" where
  "request_client r h w =
     (case request_pc r of
        Q_create code \<Rightarrow>
          (case codes h code of
             Some c \<Rightarrow> w\<lparr>counter_refs := insert (stat_name (handler_scope h) (go_Itoa code), c) (counter_refs w)\<rparr>
           | None \<Rightarrow> w)
      | Q_inc code c \<Rightarrow> wrote (stat_name (handler_scope h) (go_Itoa code)) 1 w
      | _ \<Rightarrow> w)"

definition new_requests :: "(writer_type \<times> writer_call list) list \<Rightarrow> request list" where
  "new_requests jobs = map (\<lambda>(wt, calls). new_request wt calls) jobs"

inductive serve_run :: "(nat \<Rightarrow> statStore \<Rightarrow> statStore) \<Rightarrow> (writer_type \<times> writer_call list) list \<Rightarrow> httpHandler \<Rightarrow>
    client \<Rightarrow> request list \<Rightarrow> httpHandler \<Rightarrow> statStore \<Rightarrow> client \<Rightarrow> (string \<Rightarrow> u64) \<Rightarrow> bool"
  for gen jobs h0 w0 where
  start: "store_run gen w0 s \<Longrightarrow> handler_ok h0 w0 \<Longrightarrow>
    serve_run gen jobs h0 w0 (new_requests jobs) h0 s w0 (\<lambda>_. 0)"
| request: "serve_run gen jobs h0 w0 rs h s w others \<Longrightarrow> i < length rs \<Longrightarrow>
    serve_step now (rs ! i, h, s) = Some (r, h', s') \<Longrightarrow>
    serve_run gen jobs h0 w0 (rs[i := r]) h' s' (request_client (rs ! i) h' w) others"
| other: "serve_run gen jobs h0 w0 rs h s w others \<Longrightarrow> store_run gen w' s' \<Longrightarrow> more_refs w w' \<Longrightarrow>
    (\<forall>k. written w' k = written w k + d k) \<Longrightarrow>
    serve_run gen jobs h0 w0 rs h s' w' (\<lambda>k. others k + d k)"

section \<open>The invariant\<close>

definition job_ok :: "writer_type \<times> writer_call list \<Rightarrow> bool" where
  "job_ok j \<longleftrightarrow> (\<forall>i. Call_iface i \<in> set (snd j) \<longrightarrow> i \<in> set (wrapResponse (fst j)))"

text \<open>Where a request with the calls \<open>cs\<close> is, between the code it will be counted under and the reply.\<close>

definition req_inv :: "httpHandler \<Rightarrow> client \<Rightarrow> writer_call list \<Rightarrow> request \<Rightarrow> bool" where
  "req_inv h w cs r \<longleftrightarrow>
     (\<forall>i. Call_iface i \<in> set (todo r) \<longrightarrow> i \<in> set (embedded r)) \<and>
     (request_pc r \<noteq> Q_start \<longrightarrow> span_timer (span r) = handler_timer h) \<and>
     (let hw = headerWritten (writer r); got = received (writer r);
          header = (\<lambda>code. hw \<and> first_code cs = Some code \<and> got @ Call_WriteHeader code # reply True (todo r) = reply False cs)
      in case request_pc r of
           Q_start \<Rightarrow> todo r = cs \<and> \<not> hw \<and> got = []
         | Q_next \<Rightarrow> got @ reply hw (todo r) = reply False cs \<and>
             (if hw then first_code cs \<noteq> None else first_code (todo r) = first_code cs)
         | Q_lookup code \<Rightarrow> header code
         | Q_create code \<Rightarrow> header code
         | Q_inc code c \<Rightarrow> header code \<and> (stat_name (handler_scope h) (go_Itoa code), c) \<in> counter_refs w
         | Q_forward code \<Rightarrow> header code
         | Q_done \<Rightarrow> got = reply False cs \<and> hw = (first_code cs \<noteq> None))"

text \<open>Whether the request has been counted.\<close>

definition was_counted :: "request \<Rightarrow> bool" where
  "was_counted r =
     (case request_pc r of Q_next \<Rightarrow> headerWritten (writer r) | Q_done \<Rightarrow> headerWritten (writer r) | Q_forward _ \<Rightarrow> True | _ \<Rightarrow> False)"

definition counted_by :: "Scope \<Rightarrow> writer_call list \<Rightarrow> request \<Rightarrow> string \<Rightarrow> u64" where
  "counted_by sc cs r k = (if was_counted r then counted sc (first_code cs) k else 0)"

definition serve_inv :: "(nat \<Rightarrow> statStore \<Rightarrow> statStore) \<Rightarrow> (writer_type \<times> writer_call list) list \<Rightarrow> httpHandler \<Rightarrow>
    client \<Rightarrow> request list \<Rightarrow> httpHandler \<Rightarrow> statStore \<Rightarrow> client \<Rightarrow> (string \<Rightarrow> u64) \<Rightarrow> bool" where
  "serve_inv gen jobs h0 w0 rs h s w others \<longleftrightarrow>
     store_run gen w s \<and> handler_ok h w \<and> handler_scope h = handler_scope h0 \<and> handler_timer h = handler_timer h0 \<and>
     length rs = length jobs \<and>
     (\<forall>i < length jobs. req_inv h w (snd (jobs ! i)) (rs ! i)) \<and>
     (\<forall>k. written w k =
        written w0 k + others k + (\<Sum>i < length jobs. counted_by (handler_scope h0) (snd (jobs ! i)) (rs ! i) k))"

lemma req_inv_more:
  "req_inv h w cs r \<Longrightarrow> counter_refs w \<subseteq> counter_refs w' \<Longrightarrow> handler_scope h' = handler_scope h \<Longrightarrow>
     handler_timer h' = handler_timer h \<Longrightarrow> req_inv h' w' cs r"
  unfolding req_inv_def Let_def by (auto split: request_pc.splits)

lemma handler_ok_more: "handler_ok h w \<Longrightarrow> more_refs w w' \<Longrightarrow> handler_ok h w'"
  unfolding handler_ok_def more_refs_def by blast

text \<open>A step of one request: what it keeps, and what it counts.\<close>

definition step_ok :: "(nat \<Rightarrow> statStore \<Rightarrow> statStore) \<Rightarrow> httpHandler \<Rightarrow> client \<Rightarrow> writer_call list \<Rightarrow> request \<Rightarrow>
    (request \<times> httpHandler \<times> statStore) option \<Rightarrow> bool" where
  "step_ok gen h w cs r x \<longleftrightarrow>
     (\<exists>r' h' s'. x = Some (r', h', s') \<and>
        (let w' = request_client r h' w in
         store_run gen w' s' \<and> handler_ok h' w' \<and> handler_scope h' = handler_scope h \<and>
         handler_timer h' = handler_timer h \<and> more_refs w w' \<and> req_inv h' w' cs r' \<and>
         (\<forall>k. written w' k + counted_by (handler_scope h) cs r k = written w k + counted_by (handler_scope h) cs r' k)))"

lemma step_same:
  assumes "store_run gen w s'" and "handler_ok h w" and "\<forall>code c. request_pc r \<noteq> Q_create code \<and> request_pc r \<noteq> Q_inc code c"
    and "req_inv h w cs r'" and "\<And>k. counted_by (handler_scope h) cs r k = counted_by (handler_scope h) cs r' k"
  shows "step_ok gen h w cs r (Some (r', h, s'))"
proof -
  have "request_client r h w = w" using assms(3) by (cases "request_pc r") (simp_all add: request_client_def)
  then show ?thesis using assms by (simp add: step_ok_def Let_def more_refs_def)
qed

lemmas request_defs = req_inv_def Let_def counted_by_def was_counted_def to_writer_def begin_header_def

lemma step_start:
  assumes "store_run gen w s" and "handler_ok h w" and "req_inv h w cs r" and "request_pc r = Q_start"
  shows "step_ok gen h w cs r (serve_step now (r, h, s))"
proof -
  have "serve_step now (r, h, s) =
      Some (r\<lparr>span := timer_AllocateSpan (handler_timer h) now, request_pc := Q_next\<rparr>, h, s)"
    using assms(4) by (simp add: serve_step_def)
  then show ?thesis using assms(3,4)
    by (simp only:) (rule step_same [OF assms(1,2)]; simp add: request_defs timer_AllocateSpan_def)
qed

lemma step_lookup:
  assumes "store_run gen w s" and "handler_ok h w" and "req_inv h w cs r" and "request_pc r = Q_lookup code"
  shows "step_ok gen h w cs r (serve_step now (r, h, s))"
proof (cases "codes h code")
  case None
  then have "serve_step now (r, h, s) = Some (r\<lparr>request_pc := Q_create code\<rparr>, h, s)"
    using assms(4) by (simp add: serve_step_def)
  then show ?thesis using assms(3,4)
    by (simp only:) (rule step_same [OF assms(1,2)]; simp add: request_defs)
next
  case (Some c)
  then have "serve_step now (r, h, s) = Some (r\<lparr>request_pc := Q_inc code c\<rparr>, h, s)"
    using assms(4) by (simp add: serve_step_def)
  then show ?thesis using assms(3,4) handler_okD(2) [OF assms(2) Some]
    by (simp only:) (rule step_same [OF assms(1,2)]; simp add: request_defs)
qed

lemma step_forward:
  assumes "store_run gen w s" and "handler_ok h w" and "req_inv h w cs r" and "request_pc r = Q_forward code"
  shows "step_ok gen h w cs r (serve_step now (r, h, s))"
proof -
  have "serve_step now (r, h, s) = Some (to_writer (Call_WriteHeader code) (r\<lparr>request_pc := Q_next\<rparr>), h, s)"
    using assms(4) by (simp add: serve_step_def)
  then show ?thesis using assms(3,4)
    by (simp only:) (rule step_same [OF assms(1,2)]; simp add: request_defs)
qed

lemma handler_create_run:
  assumes "store_run gen w s" and "handler_ok h w"
  obtains c h' s' where "handler_create code h s = Some (c, h', s')"
    "store_run gen (w\<lparr>counter_refs := insert (stat_name (handler_scope h) (go_Itoa code), c) (counter_refs w)\<rparr>) s'"
    "handler_ok h' (w\<lparr>counter_refs := insert (stat_name (handler_scope h) (go_Itoa code), c) (counter_refs w)\<rparr>)"
    "codes h' code = Some c" "handler_scope h' = handler_scope h" "handler_timer h' = handler_timer h"
proof (cases "codes h code")
  case (Some c)
  then have "handler_create code h s = Some (c, h, s)" by (simp add: handler_create_def)
  then show ?thesis using that [of c h s] Some assms handler_okD(2) [OF assms(2) Some] by (simp add: insert_absorb)
next
  case None
  let ?k = "stat_name (handler_scope h) (go_Itoa code)"
  obtain c s' where n: "Scope_NewCounter (handler_scope h) (go_Itoa code) s = Some (c, s')"
    using api.counter_key [of "handler_scope h" "go_Itoa code" s] by (cases "newCounter ?k s") auto
  let ?h = "h\<lparr>codes := (codes h)(code \<mapsto> c)\<rparr>"
  have "handler_create code h s = Some (c, ?h, s')" using None n by (simp add: handler_create_def)
  moreover have "handler_ok ?h (w\<lparr>counter_refs := insert (?k, c) (counter_refs w)\<rparr>)"
    using assms(2) by (auto simp: handler_ok_def)
  ultimately show ?thesis using that [of c ?h s'] api.new_counter_run [OF assms(1) n] by simp
qed

lemma step_create:
  assumes "store_run gen w s" and "handler_ok h w" and "req_inv h w cs r" and "request_pc r = Q_create code"
  shows "step_ok gen h w cs r (serve_step now (r, h, s))"
proof -
  let ?k = "stat_name (handler_scope h) (go_Itoa code)"
  obtain c h' s' where c: "handler_create code h s = Some (c, h', s')"
    and n: "store_run gen (w\<lparr>counter_refs := insert (?k, c) (counter_refs w)\<rparr>) s'"
      "handler_ok h' (w\<lparr>counter_refs := insert (?k, c) (counter_refs w)\<rparr>)"
      "codes h' code = Some c" "handler_scope h' = handler_scope h" "handler_timer h' = handler_timer h"
    by (rule handler_create_run [OF assms(1,2)])
  let ?w = "w\<lparr>counter_refs := insert (?k, c) (counter_refs w)\<rparr>"
  have w: "request_client r h' w = ?w" using assms(4) n(3,4) by (simp add: request_client_def)
  have "serve_step now (r, h, s) = Some (r\<lparr>request_pc := Q_inc code c\<rparr>, h', s')"
    using assms(4) c by (simp add: serve_step_def)
  moreover have "req_inv h' ?w cs (r\<lparr>request_pc := Q_inc code c\<rparr>)"
    using assms(3,4) n(4,5) by (simp add: req_inv_def Let_def)
  moreover have "more_refs w ?w" by (auto simp: more_refs_def)
  ultimately show ?thesis using n assms(4) by (simp add: step_ok_def w counted_by_def was_counted_def)
qed

lemma step_inc:
  assumes "store_run gen w s" and "handler_ok h w" and "req_inv h w cs r" and "request_pc r = Q_inc code c"
  shows "step_ok gen h w cs r (serve_step now (r, h, s))"
proof -
  let ?k = "stat_name (handler_scope h) (go_Itoa code)"
  have ref: "(?k, c) \<in> counter_refs w" and code: "first_code cs = Some code"
    using assms(3,4) by (simp_all add: req_inv_def Let_def)
  obtain s' where s': "counter_Inc c s = Some s'" "store_run gen (wrote ?k 1 w) s'"
    by (rule counter_Inc_run [OF assms(1) ref])
  have w: "request_client r h w = wrote ?k 1 w" using assms(4) by (simp add: request_client_def)
  have "serve_step now (r, h, s) = Some (r\<lparr>request_pc := Q_forward code\<rparr>, h, s')"
    using assms(4) s'(1) by (simp add: serve_step_def)
  moreover have "req_inv h (wrote ?k 1 w) cs (r\<lparr>request_pc := Q_forward code\<rparr>)"
    using assms(3,4) by (simp add: req_inv_def Let_def)
  moreover have "more_refs w (wrote ?k 1 w)" "handler_ok h (wrote ?k 1 w)"
    using assms(2) by (simp_all add: more_refs_def wrote_def handler_ok_def)
  ultimately show ?thesis using s'(2) code assms(4)
    by (simp add: step_ok_def w counted_by_def was_counted_def counted_def wrote_def)
qed

lemma step_next:
  assumes "store_run gen w s" and "handler_ok h w" and "req_inv h w cs r" and "request_pc r = Q_next"
  shows "step_ok gen h w cs r (serve_step now (r, h, s))"
proof (cases "todo r")
  case Nil
  have ref: "(stat_name (handler_scope h) requestTimer, handler_timer h) \<in> timer_refs w"
    using handler_okD(1) [OF assms(2)] .
  have "snd (timespan_Complete (span r) now s) = timer_AddDuration (handler_timer h) (time_Since now (span_start (span r))) s"
    using assms(3,4) by (simp add: timespan_Complete_def timer_time_def Let_def req_inv_def)
  then have "serve_step now (r, h, s) =
      Some (r\<lparr>request_pc := Q_done\<rparr>, h, timer_AddDuration (handler_timer h) (time_Since now (span_start (span r))) s)"
    using assms(4) Nil by (simp add: serve_step_def)
  then show ?thesis using assms(3,4) Nil
    by (simp only:) (rule step_same [OF store_run.timer_duration [OF assms(1) ref] assms(2)]; auto simp: request_defs split: if_splits)
next
  case (Cons c cs')
  show ?thesis
  proof (cases c)
    case (Call_WriteHeader code)
    then have "serve_step now (r, h, s) =
        (if headerWritten (writer r) then Some (r\<lparr>todo := cs'\<rparr>, h, s) else Some (begin_header code (r\<lparr>todo := cs'\<rparr>), h, s))"
      using assms(4) Cons by (simp add: serve_step_def)
    then show ?thesis using assms(3,4) Cons Call_WriteHeader
      by (cases "headerWritten (writer r)"; simp only: if_True if_False)
        (rule step_same [OF assms(1,2)]; simp add: request_defs)+
  next
    case (Call_Write b)
    then have "serve_step now (r, h, s) =
        (if headerWritten (writer r) then Some (to_writer (Call_Write b) (r\<lparr>todo := cs'\<rparr>), h, s)
         else Some (begin_header StatusOK r, h, s))"
      using assms(4) Cons by (simp add: serve_step_def)
    then show ?thesis using assms(3,4) Cons Call_Write
      by (cases "headerWritten (writer r)"; simp only: if_True if_False)
        (rule step_same [OF assms(1,2)]; simp add: request_defs)+
  next
    case (Call_iface i)
    then have "i \<in> set (embedded r)" using assms(3) Cons by (simp add: req_inv_def)
    then have "serve_step now (r, h, s) = Some (to_writer (Call_iface i) (r\<lparr>todo := cs'\<rparr>), h, s)"
      using assms(4) Cons Call_iface by (simp add: serve_step_def)
    then show ?thesis using assms(3,4) Cons Call_iface
      by (cases "headerWritten (writer r)"; simp only:) (rule step_same [OF assms(1,2)]; simp add: request_defs)+
  qed
qed

lemma serve_step_ok:
  assumes "store_run gen w s" and "handler_ok h w" and "req_inv h w cs r" and "request_pc r \<noteq> Q_done"
  shows "step_ok gen h w cs r (serve_step now (r, h, s))"
proof (cases "request_pc r")
  case Q_start
  then show ?thesis by (rule step_start [OF assms(1-3)])
next
  case Q_next
  then show ?thesis by (rule step_next [OF assms(1-3)])
next
  case (Q_lookup code)
  then show ?thesis by (rule step_lookup [OF assms(1-3)])
next
  case (Q_create code)
  then show ?thesis by (rule step_create [OF assms(1-3)])
next
  case (Q_inc code c)
  then show ?thesis by (rule step_inc [OF assms(1-3)])
next
  case (Q_forward code)
  then show ?thesis by (rule step_forward [OF assms(1-3)])
qed (use assms(4) in simp)

section \<open>All requests\<close>

lemma sum_one_changed:
  fixes f g :: "nat \<Rightarrow> u64"
  assumes "i < n" and "\<And>j. j < n \<Longrightarrow> j \<noteq> i \<Longrightarrow> g j = f j"
  shows "(\<Sum>j < n. g j) + f i = (\<Sum>j < n. f j) + g i"
proof -
  have "(\<Sum>j < n. h j) = h i + (\<Sum>j \<in> {..<n} - {i}. h j)" for h :: "nat \<Rightarrow> u64"
    using assms(1) by (simp add: sum.remove)
  moreover have "(\<Sum>j \<in> {..<n} - {i}. g j) = (\<Sum>j \<in> {..<n} - {i}. f j)"
    by (rule sum.cong) (use assms(2) in auto)
  ultimately show ?thesis by simp
qed

lemma new_req_inv: "job_ok j \<Longrightarrow> req_inv h w (snd j) (case j of (wt, calls) \<Rightarrow> new_request wt calls)"
  by (cases j) (simp add: req_inv_def new_request_def job_ok_def)

lemma others_inv:
  assumes "serve_inv gen jobs h0 w0 rs h s w others" and "store_run gen w' s'" and "more_refs w w'"
    and d: "\<forall>k. written w' k = written w k + d k"
  shows "serve_inv gen jobs h0 w0 rs h s' w' (\<lambda>k. others k + d k)"
proof -
  have h: "handler_ok h w'" using assms(1) by (intro handler_ok_more [OF _ assms(3)]) (simp add: serve_inv_def)
  have refs: "counter_refs w \<subseteq> counter_refs w'" using assms(3) by (simp add: more_refs_def)
  have r: "\<forall>i < length jobs. req_inv h w' (snd (jobs ! i)) (rs ! i)"
    using assms(1) req_inv_more [OF _ refs refl refl] by (simp add: serve_inv_def)
  have "\<forall>k. written w' k = written w0 k + (others k + d k) +
      (\<Sum>i < length jobs. counted_by (handler_scope h0) (snd (jobs ! i)) (rs ! i) k)"
    using assms(1) d by (simp add: serve_inv_def ac_simps)
  then show ?thesis using assms(1,2) h r by (simp add: serve_inv_def)
qed

lemma serve_step_inv:
  assumes "serve_inv gen jobs h0 w0 rs h s w others" and "i < length rs"
    and step: "serve_step now (rs ! i, h, s) = Some (r, h', s')"
  shows "serve_inv gen jobs h0 w0 (rs[i := r]) h' s' (request_client (rs ! i) h' w) others"
proof -
  let ?w = "request_client (rs ! i) h' w" and ?sc = "handler_scope h0"
  have inv: "store_run gen w s" "handler_ok h w" "handler_scope h = ?sc" "handler_timer h = handler_timer h0"
    "length rs = length jobs" "\<And>j. j < length jobs \<Longrightarrow> req_inv h w (snd (jobs ! j)) (rs ! j)"
    "\<And>k. written w k = written w0 k + others k + (\<Sum>j < length jobs. counted_by ?sc (snd (jobs ! j)) (rs ! j) k)"
    using assms(1) by (simp_all add: serve_inv_def)
  have i: "i < length jobs" using assms(2) inv(5) by simp
  have "request_pc (rs ! i) \<noteq> Q_done" using step by (auto simp: serve_step_def)
  from serve_step_ok [OF inv(1,2) inv(6) [OF i] this, of now]
  have ok: "step_ok gen h w (snd (jobs ! i)) (rs ! i) (Some (r, h', s'))" by (simp only: step)
  have st: "store_run gen ?w s'" "handler_ok h' ?w" "handler_scope h' = ?sc" "handler_timer h' = handler_timer h0"
    "more_refs w ?w" "req_inv h' ?w (snd (jobs ! i)) r"
    "\<And>k. written ?w k + counted_by ?sc (snd (jobs ! i)) (rs ! i) k = written w k + counted_by ?sc (snd (jobs ! i)) r k"
    using ok inv(3,4) by (simp_all add: step_ok_def Let_def)
  have refs: "counter_refs w \<subseteq> counter_refs ?w" using st(5) by (simp add: more_refs_def)
  have "req_inv h' ?w (snd (jobs ! j)) (rs[i := r] ! j)" if "j < length jobs" for j
  proof (cases "j = i")
    case False
    then show ?thesis using req_inv_more [OF inv(6) [OF that] refs, of h'] st(3,4) inv(3,4) by simp
  qed (use st(6) i inv(5) in simp)
  moreover have "written ?w k = written w0 k + others k +
      (\<Sum>j < length jobs. counted_by ?sc (snd (jobs ! j)) (rs[i := r] ! j) k)" for k
  proof -
    let ?f = "\<lambda>j. counted_by ?sc (snd (jobs ! j)) (rs ! j) k" and ?g = "\<lambda>j. counted_by ?sc (snd (jobs ! j)) (rs[i := r] ! j) k"
    have s: "(\<Sum>j < length jobs. ?g j) + ?f i = (\<Sum>j < length jobs. ?f j) + ?g i"
      by (rule sum_one_changed [OF i]) simp
    have g: "?g i = counted_by ?sc (snd (jobs ! i)) r k" using i inv(5) by simp
    have "written ?w k + ?f i = written w0 k + others k + ((\<Sum>j < length jobs. ?f j) + ?g i)"
      using st(7) [of k] inv(7) [of k] g by (simp only: add.assoc)
    also have "\<dots> = written w0 k + others k + (\<Sum>j < length jobs. ?g j) + ?f i"
      by (simp only: s [symmetric] add.assoc)
    finally show ?thesis by (rule add_right_imp_eq)
  qed
  ultimately show ?thesis using st(1-4) inv(5) by (simp add: serve_inv_def)
qed

theorem serve_run_inv:
  assumes "serve_run gen jobs h0 w0 rs h s w others" and jobs: "\<forall>j \<in> set jobs. job_ok j"
  shows "serve_inv gen jobs h0 w0 rs h s w others"
  using assms(1)
proof (induction rule: serve_run.induct)
  case (start s)
  have "req_inv h0 w0 (snd (jobs ! i)) (new_requests jobs ! i)" if "i < length jobs" for i
    using new_req_inv [of "jobs ! i"] jobs that by (simp add: new_requests_def)
  moreover have "counted_by (handler_scope h0) (snd (jobs ! i)) (new_requests jobs ! i) k = 0" if "i < length jobs" for i k
    using that by (simp add: new_requests_def new_request_def counted_by_def was_counted_def split: prod.split)
  ultimately show ?case using start by (simp add: serve_inv_def new_requests_def)
next
  case (request rs h s w others i now r h' s')
  then show ?case by (blast intro: serve_step_inv)
next
  case (other rs h s w others w' s' d)
  then show ?case by (blast intro: others_inv)
qed

section \<open>Every request ends\<close>

text \<open>How many steps of its own a request still needs at most.\<close>

definition request_left :: "request \<Rightarrow> nat" where
  "request_left r =
     length (todo r) + (if headerWritten (writer r) then 0 else 5) +
     (case request_pc r of
        Q_start \<Rightarrow> 2 | Q_next \<Rightarrow> 1 | Q_lookup _ \<Rightarrow> 5 | Q_create _ \<Rightarrow> 4 | Q_inc _ _ \<Rightarrow> 3 | Q_forward _ \<Rightarrow> 2 | Q_done \<Rightarrow> 0)"

lemma serve_step_less:
  assumes "serve_step now (r, h, s) = Some (r', h', s')" and "req_inv h0 w cs r"
  shows "request_left r' < request_left r"
  using assms
  by (cases "request_pc r")
    (auto simp: serve_step_def request_left_def req_inv_def Let_def begin_header_def to_writer_def
      split: list.splits writer_call.splits option.splits if_splits prod.splits)

lemma request_progress:
  assumes "serve_inv gen jobs h0 w0 rs h s w others" and "i < length jobs" and "request_pc (rs ! i) \<noteq> Q_done"
  obtains r' h' s' where "serve_step now (rs ! i, h, s) = Some (r', h', s')" "request_left r' < request_left (rs ! i)"
proof -
  have inv: "store_run gen w s" "handler_ok h w" "req_inv h w (snd (jobs ! i)) (rs ! i)"
    using assms(1,2) by (simp_all add: serve_inv_def)
  from serve_step_ok [OF this assms(3), of now]
  obtain r' h' s' where "serve_step now (rs ! i, h, s) = Some (r', h', s')" by (auto simp: step_ok_def)
  then show ?thesis using that serve_step_less [OF _ inv(3)] by blast
qed

lemma serve_run_finishes:
  assumes "serve_run gen jobs h0 w0 rs h s w others" and "\<forall>j \<in> set jobs. job_ok j"
  shows "\<exists>rs' h' s' w'. serve_run gen jobs h0 w0 rs' h' s' w' others \<and> (\<forall>i < length jobs. request_pc (rs' ! i) = Q_done)"
  using assms(1)
proof (induction "sum_list (map request_left rs)" arbitrary: rs h s w rule: less_induct)
  case less
  have inv: "serve_inv gen jobs h0 w0 rs h s w others" by (rule serve_run_inv [OF less.prems assms(2)])
  show ?case
  proof (cases "\<forall>i < length jobs. request_pc (rs ! i) = Q_done")
    case False
    then obtain i where i: "i < length jobs" "request_pc (rs ! i) \<noteq> Q_done" by blast
    obtain r h' s' where st: "serve_step 0 (rs ! i, h, s) = Some (r, h', s')" "request_left r < request_left (rs ! i)"
      by (rule request_progress [OF inv i])
    have i': "i < length rs" using inv i(1) by (simp add: serve_inv_def)
    have "request_left (rs ! i) \<le> sum_list (map request_left rs)"
      using i' by (intro member_le_sum_list) simp_all
    then have "sum_list (map request_left (rs[i := r])) < sum_list (map request_left rs)"
      using st(2) i' by (simp add: map_update sum_list_update)
    from less.hyps [OF this serve_run.request [OF less.prems i' st(1)]] show ?thesis .
  qed (use less.prems in blast)
qed

section \<open>Nothing is lost\<close>

text \<open>
  C28: requests served at the same time by one handler, in every interleaving of their steps with each
  other and with the rest of the program, flushes included.  A request that is not done can always take
  its next step, whatever the others do, and each step brings it nearer to its end, so none blocks
  another and all end.  When all are done, what has been delivered for a name and what its counters
  hold back is what was written to the name before and by the rest of the program, and one more for
  each request whose first status has that name: no count is lost or made twice, also when two
  requests create the counter of a new status together.  And each server's writer has received the first
  status and the other calls in order.
\<close>

theorem requests_counted_concurrently:
  assumes "serve_run gen jobs h0 w0 rs h s w others" and "\<forall>j \<in> set jobs. job_ok j"
  shows "(\<forall>i < length jobs. \<forall>now. request_pc (rs ! i) \<noteq> Q_done \<longrightarrow>
            (\<exists>r h' s'. serve_step now (rs ! i, h, s) = Some (r, h', s') \<and> request_left r < request_left (rs ! i))) \<and>
         ((\<forall>i < length jobs. request_pc (rs ! i) = Q_done) \<longrightarrow>
            (\<forall>k. account s k = written w0 k + others k +
               (\<Sum>i < length jobs. counted (handler_scope h0) (first_code (snd (jobs ! i))) k)) \<and>
            (\<forall>i < length jobs. received (writer (rs ! i)) = reply False (snd (jobs ! i))))"
proof -
  have inv: "serve_inv gen jobs h0 w0 rs h s w others" by (rule serve_run_inv [OF assms])
  then have "store_run gen w s" by (simp add: serve_inv_def)
  then have "run_inv w s" by (rule store_run_inv)
  then have acc: "account s k = written w k" for k by (simp add: run_inv_def)
  have "received (writer (rs ! i)) = reply False (snd (jobs ! i))"
    and "counted_by sc (snd (jobs ! i)) (rs ! i) k = counted sc (first_code (snd (jobs ! i))) k"
    if "i < length jobs" "request_pc (rs ! i) = Q_done" for i k sc
    using inv that by (auto simp: serve_inv_def req_inv_def Let_def counted_by_def was_counted_def counted_def)
  then have "(\<forall>i < length jobs. request_pc (rs ! i) = Q_done) \<longrightarrow>
      (\<forall>k. account s k = written w0 k + others k +
         (\<Sum>i < length jobs. counted (handler_scope h0) (first_code (snd (jobs ! i))) k)) \<and>
      (\<forall>i < length jobs. received (writer (rs ! i)) = reply False (snd (jobs ! i)))"
    using inv by (simp add: acc) (simp add: serve_inv_def)
  then show ?thesis using request_progress [OF inv] by metis
qed

abbreviation two_missing :: "(writer_type \<times> writer_call list) list" where
  "two_missing \<equiv> replicate 2 (\<lparr>canFlush = True, canHijack = False, canPush = False, canNotify = False\<rparr>,
     [Call_iface Flusher, Call_WriteHeader 404, Call_WriteHeader 500, Call_Write ''x''])"

theorem requests_counted_concurrently_witness:
  "\<exists>h0 s0 w0 rs h s w. NewStatHandler Store_scope (empty_store 0 True) = Some (h0, s0) \<and>
     serve_run (\<lambda>_ s. s) two_missing h0 w0 rs h s w (\<lambda>_. 0) \<and> account s ''404'' = 2 \<and> account s ''500'' = 0 \<and>
     (\<forall>i < 2. received (writer (rs ! i)) = [Call_iface Flusher, Call_WriteHeader 404, Call_Write ''x''])"
proof -
  obtain h0 s0 where h: "NewStatHandler Store_scope (empty_store 0 True) = Some (h0, s0)" "handler_scope h0 = Store_scope"
    using api.timer_key [of Store_scope requestTimer "empty_store 0 True"]
    by (cases "newTimer (stat_name Store_scope requestTimer) Microsecond (empty_store 0 True)")
      (auto simp: NewStatHandler_def)
  obtain w0 where w0: "store_run (\<lambda>_ s. s) w0 s0" "handler_ok h0 w0" "written w0 = written no_refs"
    using NewStatHandler_ok [OF store_run.start h(1)] by blast
  have jobs: "\<forall>j \<in> set two_missing. job_ok j" by (simp add: job_ok_def wrapResponse_def)
  obtain rs h' s w where r: "serve_run (\<lambda>_ s. s) two_missing h0 w0 rs h' s w (\<lambda>_. 0)"
    "\<forall>i < length two_missing. request_pc (rs ! i) = Q_done"
    using serve_run_finishes [OF serve_run.start [OF w0(1,2)] jobs] by blast
  have "digit_char 4 = CHR ''4''" "digit_char 0 = CHR ''0''" "digit_char 5 = CHR ''5''" by code_simp+
  then have names: "stat_name Store_scope (go_Itoa 404) = ''404''" "go_Itoa 500 = ''500''"
    by (simp_all add: stat_name_def go_Itoa_def format_nat.simps)
  have "account s ''404'' = 2 \<and> account s ''500'' = 0 \<and>
      (\<forall>i < 2. received (writer (rs ! i)) = [Call_iface Flusher, Call_WriteHeader 404, Call_Write ''x''])"
    using requests_counted_concurrently [OF r(1) jobs] r(2) h(2) w0(3) names
    by (simp add: no_refs_def counted_def)
  then show ?thesis using h(1) r(1) by blast
qed

end
