(* ===== verification/Store_Refs.thy ===== *)
theory Store_Refs
  imports Store_Run Scope_Api
begin

text \<open>
  The metrics a program holds, in every run: gauges stay in the map under their names, and a write on
  one counter shows in no counter of another name.
\<close>

section \<open>Gauges stay\<close>

definition gauges_ok :: "client \<Rightarrow> statStore \<Rightarrow> bool" where
  "gauges_ok w s \<longleftrightarrow> (\<forall>(k, a) \<in> gauge_refs w. smap_Load (gauges s) k = Some a)"

lemma gauges_ok_cong:
  "gauges_ok w s \<Longrightarrow> gauges s' = gauges s \<Longrightarrow> gauge_refs w' = gauge_refs w \<Longrightarrow> gauges_ok w' s'"
  by (simp add: gauges_ok_def)

lemma newCounter_gauges:
  "newCounter k s = (a, s') \<Longrightarrow> gauges s' = gauges s \<and> gauge_heap s' = gauge_heap s"
  by (cases "smap_Load (counters s) k") (auto simp: newCounter_hit newCounter_miss)

lemma newTimer_gauges:
  "newTimer k b s = (a, s') \<Longrightarrow> gauges s' = gauges s \<and> gauge_heap s' = gauge_heap s"
  by (cases "smap_Load (timers s) k") (auto simp: newTimer_hit newTimer_miss)

lemma gauges_ok_newGauge:
  assumes "gauges_ok w s" and "newGauge k s = (a, s')"
  shows "gauges_ok (w\<lparr>gauge_refs := insert (k, a) (gauge_refs w)\<rparr>) s'"
proof -
  have "smap_Load (gauges s') = (smap_Load (gauges s))(k \<mapsto> a)"
    using newGauge_find [of k s] assms(2) by simp
  moreover have "smap_Load (gauges s) k = Some b \<Longrightarrow> b = a" for b
    using assms(2) by (simp add: newGauge_hit)
  ultimately show ?thesis using assms(1) unfolding gauges_ok_def by fastforce
qed

lemma timer_AddValue_gauges: "gauges (timer_AddValue a x s) = gauges s"
  by (simp add: timer_AddValue_def Let_def)

text \<open>A write on a counter, in closed form, touches nothing but counters.\<close>

lemma write_eq:
  assumes "store_run gen w s" and "(k, a) \<in> counter_refs w"
  shows "counter_Add a d s = Some (rejoined a (upd_counter a (currentValue_update (\<lambda>v. v + d)) s))"
    and "counter_Set a v s = Some (rejoined a (upd_counter a (currentValue_update (\<lambda>_. v)) s))"
proof -
  have "core_inv s" "a < length (counter_heap s)" using store_run_inv [OF assms(1)] assms(2)
    by (auto simp: run_inv_def store_inv_def counters_inv_def)
  then show "counter_Add a d s = Some (rejoined a (upd_counter a (currentValue_update (\<lambda>v. v + d)) s))"
    and "counter_Set a v s = Some (rejoined a (upd_counter a (currentValue_update (\<lambda>_. v)) s))"
    by (simp_all add: counter_Add_eq counter_Set_eq)
qed

theorem store_run_gauges: "store_run gen w s \<Longrightarrow> gauges_ok w s"
proof (induction rule: store_run.induct)
  case (start p fl)
  show ?case by (simp add: gauges_ok_def no_refs_def)
next
  case (new_counter w s k a s')
  from new_counter(3) show ?case
    by (rule gauges_ok_cong) (simp_all add: newCounter_gauges [OF new_counter(2)])
next
  case (add w s k a d s')
  from add(4) show ?case
    by (rule gauges_ok_cong) (use add(3) in \<open>auto simp: wrote_def write_eq [OF add(1,2)]\<close>)
next
  case (inc w s k a s')
  from inc(4) show ?case
    by (rule gauges_ok_cong)
       (use inc(3) in \<open>auto simp: wrote_def counter_Inc_def write_eq [OF inc(1,2)]\<close>)
next
  case (set w s k a v s')
  from set(4) show ?case
    by (rule gauges_ok_cong) (use set(3) in \<open>auto simp: wrote_def write_eq [OF set(1,2)]\<close>)
next
  case (new_gauge w s k a s')
  from new_gauge(3,2) show ?case by (rule gauges_ok_newGauge)
next
  case (new_timer w s b k a s')
  from new_timer(4) show ?case
    by (rule gauges_ok_cong) (simp_all add: newTimer_gauges [OF new_timer(3)])
next
  case (timer_value w s k a x)
  from timer_value(3) show ?case by (rule gauges_ok_cong) (simp_all add: timer_AddValue_gauges)
next
  case (timer_duration w s k a d)
  from timer_duration(3) show ?case
    by (rule gauges_ok_cong) (simp_all add: timer_AddDuration_def timer_AddValue_gauges)
next
  case (add_generator w s g)
  from add_generator(2) show ?case by (rule gauges_ok_cong) (simp_all add: AddStatGenerator_def)
next
  case (flush w s w' s')
  then have "store_inv (fold gen (statGenerators s) s)"
    using store_run_inv [OF flush(2)] by (simp add: run_inv_def)
  then have "s' = flush_result (fold gen (statGenerators s) s)" using flush(3) by (simp add: Flush_eq)
  with flush(5) show ?case by (simp add: gauges_ok_def)
next
  case (reorder w s cs gs ts)
  have "smap_ok (gauges s)" using store_run_inv [OF reorder(1)] by (simp add: run_inv_def store_inv_def gauges_inv_def)
  then have "smap_Load gs = smap_Load (gauges s)" using reorder(2) same_Load [of gs "gauges s"] by (simp add: same_entries_def)
  with reorder(3) show ?case by (simp add: gauges_ok_def)
qed (simp_all add: gauges_ok_def gauge_Add_def gauge_Sub_def gauge_Set_def)

lemma gauge_ref:
  assumes "store_run gen w s" and "(k, a) \<in> gauge_refs w"
  shows "smap_Load (gauges s) k = Some a" and "a < length (gauge_heap s)"
    and "(l, a) \<in> gauge_refs w \<Longrightarrow> l = k" and "(k, a) \<in> set (gauges s)"
proof -
  have inv: "gauges_inv s" using store_run_inv [OF assms(1)] by (simp add: run_inv_def store_inv_def)
  have ok: "smap_Load (gauges s) k = Some a" if "(k, a) \<in> gauge_refs w" for k
    using store_run_gauges [OF assms(1)] that by (auto simp: gauges_ok_def)
  show "smap_Load (gauges s) k = Some a" by (rule ok [OF assms(2)])
  then show "(k, a) \<in> set (gauges s)" by (simp add: smap_Load_def map_of_SomeD)
  then show "a < length (gauge_heap s)" using inv by (auto simp: gauges_inv_def)
  show "(l, a) \<in> gauge_refs w \<Longrightarrow> l = k"
    using inv smap_Load_inj [OF _ ok ok [OF assms(2)]] by (simp add: gauges_inv_def)
qed

lemma gauge_Set_Value:
  assumes "store_run gen w s" and "(k, a) \<in> gauge_refs w"
  shows "gauge_Value a (gauge_Set a v s) = v"
    and "(l, b) \<in> gauge_refs w \<Longrightarrow> l \<noteq> k \<Longrightarrow> gauge_Value b (gauge_Set a v s) = gauge_Value b s"
  using gauge_ref(2,3) [OF assms]
  by (auto simp: gauge_Set_def gauge_Value_def upd_gauge_def nth_list_update)

section \<open>Counters of other names\<close>

lemma rejoined_other:
  assumes "core_inv s" and "a < length (counter_heap s)" and "b < length (counter_heap s)"
    and "owner s b \<noteq> owner s a"
  shows "currentValue (counter_at (rejoined a s) b) = currentValue (counter_at s b)"
proof (cases "attached s a")
  case False
  then have p: "pruneAfterFlushes s \<noteq> 0" using core_invD(6) [OF assms(1,2)] by simp
  then have own: "owner s a = counter_name (counter_at s a)" "owner s b = counter_name (counter_at s b)"
    by (simp_all add: owner_def)
  show ?thesis
  proof (cases "smap_Load (counters s) (counter_name (counter_at s a))")
    case (Some c)
    then have "(counter_name (counter_at s a), c) \<in> set (counters s)"
      using assms(1) by (simp add: core_inv_Load)
    then have "counter_name (counter_at s c) = counter_name (counter_at s a)"
      using core_invD(4) [OF assms(1)] p by blast
    then have "b \<noteq> c" "b \<noteq> a" using own assms(4) by auto
    then show ?thesis using False Some assms(3) by (simp add: rejoined_def upd_counter_at)
  qed (use False in \<open>simp add: rejoined_def\<close>)
qed (simp add: rejoined_def)

lemma counter_Set_run:
  assumes "store_run gen w s" and "(k, a) \<in> counter_refs w"
  obtains s' where "counter_Set a v s = Some s'" "store_run gen (wrote k (v - counter_Value a s) w) s'"
    "counter_Value a s' = v" "gauges s' = gauges s" "gauge_heap s' = gauge_heap s"
    "statGenerators s' = statGenerators s" "sink_calls s' = sink_calls s"
    "\<And>l b. (l, b) \<in> counter_refs w \<Longrightarrow> l \<noteq> k \<Longrightarrow> counter_Value b s' = counter_Value b s"
proof -
  let ?u = "upd_counter a (currentValue_update (\<lambda>_. v)) s"
  have inv: "core_inv s" "a < length (counter_heap s)" "owner s a = k"
    using store_run_inv [OF assms(1)] assms(2)
    by (auto simp: run_inv_def store_inv_def counters_inv_def)
  have core: "core_inv ?u" using inv(1) by (rule core_inv_upd) simp_all
  have own: "owner ?u b = owner s b" if "b < length (counter_heap s)" for b
    by (rule owner_upd) (use that in simp_all)
  have eq: "counter_Set a v s = Some (rejoined a ?u)" by (rule write_eq(2) [OF assms])
  have "counter_Value b (rejoined a ?u) = counter_Value b s" if "(l, b) \<in> counter_refs w" "l \<noteq> k" for l b
  proof -
    have b: "b < length (counter_heap s)" "owner s b = l" using store_run_inv [OF assms(1)] that(1)
      by (auto simp: run_inv_def)
    then have "a \<noteq> b" using that(2) inv(3) by auto
    then show ?thesis using rejoined_other [OF core, of a b] inv b that(2)
      by (simp add: own counter_Value_def upd_counter_at)
  qed
  moreover have "counter_Value a (rejoined a ?u) = v"
    using rejoined_value [OF core, of a] inv(2) by (simp add: counter_Value_def upd_counter_at)
  ultimately show ?thesis
    using that [OF eq store_run.set [OF assms eq]] by simp
qed

end
