(* ===== verification/Float_Ops.thy ===== *)
theory Float_Ops
  imports Wire
begin

text \<open>
  Multiplication and division of \<open>float64\<close> values, rounded to nearest, ties to even; how far rounding
  goes; and the whole part of a product with a whole number.
\<close>

section \<open>Rounding a quotient\<close>

text \<open>
  The bits of the value nearest to \<open>n / d\<close> units: the last bit kept has the weight of one unit, or more
  when the quotient has more than 53 bits.
\<close>

definition f64_round_ratio :: "nat \<Rightarrow> nat \<Rightarrow> nat" where
  "f64_round_ratio n d =
     (let q = n div d in
      if q < 2 ^ 53 then round_ratio n d
      else let s = bit_length q - 53 in min (s * 2 ^ 52 + round_ratio n (d * 2 ^ s)) (2047 * 2 ^ 52))"

definition f64_mul :: "float64 \<Rightarrow> float64 \<Rightarrow> float64" where
  "f64_mul x y =
     (let neg = (f64_sign x \<noteq> f64_sign y);
          sb = (if neg then 2 ^ 63 else 0) in
      if f64_is_nan x \<or> f64_is_nan y then f64_nan
      else if f64_is_inf x \<or> f64_is_inf y
      then (if f64_units x = 0 \<or> f64_units y = 0 then f64_nan else of_nat (sb + 2047 * 2 ^ 52))
      else of_nat (sb + f64_round_ratio (f64_units x * f64_units y) (2 ^ 1074)))"

definition f64_div :: "float64 \<Rightarrow> float64 \<Rightarrow> float64" where
  "f64_div x y =
     (let neg = (f64_sign x \<noteq> f64_sign y);
          sb = (if neg then 2 ^ 63 else 0) in
      if f64_is_nan x \<or> f64_is_nan y then f64_nan
      else if f64_is_inf x then (if f64_is_inf y then f64_nan else of_nat (sb + 2047 * 2 ^ 52))
      else if f64_is_inf y then of_nat sb
      else if f64_units y = 0
      then (if f64_units x = 0 then f64_nan else of_nat (sb + 2047 * 2 ^ 52))
      else of_nat (sb + f64_round_ratio (f64_units x * 2 ^ 1074) (f64_units y)))"

lemma bit_length_0 [simp]: "bit_length 0 = 0"
  by (simp add: bit_length.simps)

lemma f64_round_ratio_whole:
  assumes "m > 0"
  shows "f64_round_ratio (k * m) m = f64_round k"
proof -
  have "round_ratio (k * m) m = k" using round_ratio_scale [OF assms, of k 1] by (simp add: round_ratio_def)
  moreover have "round_ratio (k * m) (m * 2 ^ s) = round_half_even k s" for s
    using round_ratio_scale [OF assms, of k "2 ^ s"] by (simp add: round_half_even_ratio mult.commute)
  ultimately show ?thesis using assms by (simp add: f64_round_ratio_def f64_round_def Let_def)
qed

text \<open>The units of a rounded number, and that rounding crosses no multiple of a large power of two.\<close>

definition rounded_units :: "nat \<Rightarrow> nat" where
  "rounded_units k =
     (if k < 2 ^ 53 then k else let s = bit_length k - 53 in round_half_even k s * 2 ^ s)"

lemma round_half_even_between:
  "k div 2 ^ s \<le> round_half_even k s"
  "k \<le> q * 2 ^ s \<Longrightarrow> round_half_even k s \<le> q"
proof -
  show "k div 2 ^ s \<le> round_half_even k s"
    unfolding round_half_even_def Let_def by (simp split: if_splits)
  assume k: "k \<le> q * 2 ^ s"
  show "round_half_even k s \<le> q"
  proof (cases "k = q * 2 ^ s")
    case True
    then show ?thesis by (simp only: round_half_even_exact)
  next
    case False
    then have "k div 2 ^ s < q" using k by (simp add: less_mult_imp_div_less)
    then show ?thesis by (simp add: round_half_even_def Let_def)
  qed
qed

lemma rounded_units_between:
  assumes "bit_length k \<le> j + 53"
  shows "m * 2 ^ j \<le> k \<Longrightarrow> m * 2 ^ j \<le> rounded_units k"
    and "k \<le> m * 2 ^ j \<Longrightarrow> rounded_units k \<le> m * 2 ^ j"
proof -
  let ?s = "bit_length k - 53"
  have s: "m * 2 ^ j = m * 2 ^ (j - ?s) * 2 ^ ?s" using assms by (simp flip: power_add)
  show "m * 2 ^ j \<le> rounded_units k" if "m * 2 ^ j \<le> k"
  proof (cases "k < 2 ^ 53")
    case False
    have "m * 2 ^ (j - ?s) = m * 2 ^ j div 2 ^ ?s" unfolding s by simp
    also have "\<dots> \<le> k div 2 ^ ?s" by (rule div_le_mono [OF that])
    also have "\<dots> \<le> round_half_even k ?s" by (rule round_half_even_between)
    finally show ?thesis using False unfolding s by (simp add: rounded_units_def Let_def)
  qed (use that in \<open>simp add: rounded_units_def\<close>)
  show "rounded_units k \<le> m * 2 ^ j" if "k \<le> m * 2 ^ j"
  proof (cases "k < 2 ^ 53")
    case False
    have "round_half_even k ?s \<le> m * 2 ^ (j - ?s)"
      by (rule round_half_even_between(2)) (use that s in simp)
    then show ?thesis using False unfolding s by (simp add: rounded_units_def Let_def)
  qed (use that in \<open>simp add: rounded_units_def\<close>)
qed

lemma f64_units_pattern:
  assumes "R < 2047 * 2 ^ 52" and "sb = 0 \<or> sb = 2 ^ 63"
  shows "f64_units (of_nat (sb + R)) =
           (if R < 2 ^ 52 then R else (2 ^ 52 + R mod 2 ^ 52) * 2 ^ (R div 2 ^ 52 - 1))"
    and "\<not> f64_is_nan (of_nat (sb + R))" and "\<not> f64_is_inf (of_nat (sb + R))"
    and "f64_sign (of_nat (sb + R)) \<longleftrightarrow> sb \<noteq> 0"
proof -
  let ?s = "if sb = 0 then 0 else 1 :: nat"
  have e: "R div 2 ^ 52 < 2047" using assms(1) by (simp add: less_mult_imp_div_less)
  have n: "sb + R = ?s * 2 ^ 63 + R div 2 ^ 52 * 2 ^ 52 + R mod 2 ^ 52"
    using assms(2) div_mult_mod_eq [of R "2 ^ 52"] by auto
  have "R mod 2 ^ 52 < 2 ^ 52" "?s < 2" by simp_all
  note f = f64_fields [OF e this, folded n]
  show "f64_units (of_nat (sb + R)) =
      (if R < 2 ^ 52 then R else (2 ^ 52 + R mod 2 ^ 52) * 2 ^ (R div 2 ^ 52 - 1))"
    unfolding f64_units_def f by (cases "R < 2 ^ 52") (simp_all add: div_eq_0_iff)
  show "\<not> f64_is_nan (of_nat (sb + R))" "\<not> f64_is_inf (of_nat (sb + R))"
    using e unfolding f64_is_nan_def f64_is_inf_def f by simp_all
  show "f64_sign (of_nat (sb + R)) \<longleftrightarrow> sb \<noteq> 0" unfolding f by simp
qed

lemma f64_scaled:
  assumes "s = 0 \<or> 2 ^ 52 \<le> q" and "q \<le> 2 ^ 53" and "s < 2040" and "sb = 0 \<or> sb = 2 ^ 63"
  shows "f64_units (of_nat (sb + (s * 2 ^ 52 + q))) = q * 2 ^ s"
    and "\<not> f64_is_nan (of_nat (sb + (s * 2 ^ 52 + q)))" and "\<not> f64_is_inf (of_nat (sb + (s * 2 ^ 52 + q)))"
    and "f64_sign (of_nat (sb + (s * 2 ^ 52 + q))) \<longleftrightarrow> sb \<noteq> 0"
proof -
  have lt: "s * 2 ^ 52 + q < 2047 * 2 ^ 52" using assms(2,3) by simp
  note u = f64_units_pattern [OF lt assms(4)]
  show "f64_units (of_nat (sb + (s * 2 ^ 52 + q))) = q * 2 ^ s"
  proof (cases "q < 2 ^ 52")
    case True
    then show ?thesis using assms(1) u(1) by simp
  next
    case False
    then have big: "\<not> s * 2 ^ 52 + q < 2 ^ 52" by simp
    have "(2 ^ 52 + (s * 2 ^ 52 + q) mod 2 ^ 52) * 2 ^ ((s * 2 ^ 52 + q) div 2 ^ 52 - 1) = q * 2 ^ s"
    proof (cases "q = 2 ^ 53")
      case True
      then have "s * 2 ^ 52 + q = (s + 2) * 2 ^ 52" by simp
      then show ?thesis using True by (simp only: mod_mult_self2_is_0 nonzero_mult_div_cancel_right) simp
    next
      case False
      then have "q mod 2 ^ 52 = q - 2 ^ 52" "q div 2 ^ 52 = 1"
        using assms(2) \<open>\<not> q < 2 ^ 52\<close> by (simp_all add: mod_if div_nat_eqI)
      then have "(s * 2 ^ 52 + q) mod 2 ^ 52 = q - 2 ^ 52" "(s * 2 ^ 52 + q) div 2 ^ 52 = s + 1"
        by (simp_all only: mod_mult_self3 div_mult_self3) simp_all
      then show ?thesis using \<open>\<not> q < 2 ^ 52\<close> by simp
    qed
    then show ?thesis using u(1) big by simp
  qed
  show "\<not> f64_is_nan (of_nat (sb + (s * 2 ^ 52 + q)))" "\<not> f64_is_inf (of_nat (sb + (s * 2 ^ 52 + q)))"
    "f64_sign (of_nat (sb + (s * 2 ^ 52 + q))) \<longleftrightarrow> sb \<noteq> 0" using u(2-4) by simp_all
qed

text \<open>The units of a rounded quotient, and how far they are from it.\<close>

definition ratio_units :: "nat \<Rightarrow> nat \<Rightarrow> nat" where
  "ratio_units n d =
     (let q = n div d in
      if q < 2 ^ 53 then round_ratio n d
      else let s = bit_length q - 53 in round_ratio n (d * 2 ^ s) * 2 ^ s)"

lemma round_ratio_between: "n div d \<le> round_ratio n d" "round_ratio n d \<le> n div d + 1"
  by (simp_all add: round_ratio_def Let_def)

text \<open>A quotient of more than 53 bits.\<close>

lemma long_quotient:
  assumes "\<not> q < 2 ^ 53"
  defines "s \<equiv> bit_length q - 53"
  shows "bit_length q = s + 53" and "2 ^ 52 * 2 ^ s \<le> q" and "q div 2 ^ s < 2 ^ 53" and "2 ^ 52 \<le> q div 2 ^ s"
proof -
  have q: "q > 0" using assms(1) by (cases q) simp_all
  note b = bit_length_bounds [OF q]
  have "\<not> bit_length q \<le> 53" using b assms(1) power_increasing [of "bit_length q" 53 "2 :: nat"] by auto
  then show s: "bit_length q = s + 53" by (simp add: s_def)
  then have b: "2 ^ (52 + s) \<le> q" "q < 2 ^ (53 + s)" using b by (simp_all add: add.commute)
  then show "2 ^ 52 * 2 ^ s \<le> q" by (simp only: power_add)
  then show "2 ^ 52 \<le> q div 2 ^ s" by (simp add: less_eq_div_iff_mult_less_eq)
  show "q div 2 ^ s < 2 ^ 53" using b(2) by (simp add: power_add less_mult_imp_div_less)
qed

lemma f64_ratio:
  assumes "bit_length (n div d) < 2040" and "sb = 0 \<or> sb = 2 ^ 63"
  shows "f64_units (of_nat (sb + f64_round_ratio n d)) = ratio_units n d"
    and "\<not> f64_is_nan (of_nat (sb + f64_round_ratio n d))" and "\<not> f64_is_inf (of_nat (sb + f64_round_ratio n d))"
    and "f64_sign (of_nat (sb + f64_round_ratio n d)) \<longleftrightarrow> sb \<noteq> 0"
proof -
  obtain s q where sq: "s = 0 \<or> 2 ^ 52 \<le> q" "q \<le> 2 ^ 53" "s < 2040" "f64_round_ratio n d = s * 2 ^ 52 + q"
    "ratio_units n d = q * 2 ^ s"
  proof (cases "n div d < 2 ^ 53")
    case True
    then have "round_ratio n d \<le> 2 ^ 53" using round_ratio_between(2) [of n d] by simp
    then show ?thesis using that [of 0 "round_ratio n d"] True by (simp add: f64_round_ratio_def ratio_units_def)
  next
    case False
    let ?s = "bit_length (n div d) - 53" and ?q = "round_ratio n (d * 2 ^ (bit_length (n div d) - 53))"
    note l = long_quotient [OF False]
    have "n div (d * 2 ^ ?s) = n div d div 2 ^ ?s" by (simp add: div_mult2_eq)
    then have q: "2 ^ 52 \<le> ?q" "?q \<le> 2 ^ 53"
      using l(3,4) round_ratio_between [of n "d * 2 ^ ?s"] by simp_all
    moreover have "?s < 1987" using assms(1) l(1) by simp
    then have "?s * 2 ^ 52 + ?q \<le> 2047 * 2 ^ 52" using q(2) by simp
    then have "f64_round_ratio n d = ?s * 2 ^ 52 + ?q"
      using False by (simp only: f64_round_ratio_def Let_def if_False min_absorb1)
    moreover have "ratio_units n d = ?q * 2 ^ ?s" using False by (simp add: ratio_units_def Let_def)
    ultimately show ?thesis using that [of ?s ?q] \<open>?s < 1987\<close> by simp
  qed
  note s = f64_scaled [OF sq(1-3) assms(2)]
  show "f64_units (of_nat (sb + f64_round_ratio n d)) = ratio_units n d"
    "\<not> f64_is_nan (of_nat (sb + f64_round_ratio n d))" "\<not> f64_is_inf (of_nat (sb + f64_round_ratio n d))"
    "f64_sign (of_nat (sb + f64_round_ratio n d)) \<longleftrightarrow> sb \<noteq> 0"
    unfolding sq(4,5) by (rule s)+
qed

lemma ratio_units_near:
  assumes "d > 0"
  shows "\<bar>of_nat (ratio_units n d) - of_nat n / of_nat d\<bar> \<le> (1 / 2 + of_nat n / of_nat d / 2 ^ 53 :: rat)"
proof (cases "n div d < 2 ^ 53")
  case True
  have "(0 :: rat) \<le> of_nat n / of_nat d / 2 ^ 53" by simp
  then have "(1 / 2 :: rat) \<le> 1 / 2 + of_nat n / of_nat d / 2 ^ 53" by linarith
  with round_ratio_near [OF assms, of n]
  have "\<bar>of_nat (round_ratio n d) - of_nat n / of_nat d\<bar> \<le> (1 / 2 + of_nat n / of_nat d / 2 ^ 53 :: rat)"
    by (rule order_trans)
  then show ?thesis using True by (simp only: ratio_units_def Let_def if_True)
next
  case False
  define s where "s = bit_length (n div d) - 53"
  define S x r :: rat where "S = 2 ^ s" and "x = of_nat n / of_nat d" and "r = of_nat (round_ratio n (d * 2 ^ s))"
  have S: "S > 0" by (simp add: S_def)
  have "d * 2 ^ s > 0" using assms by simp
  from round_ratio_near [OF this, of n] have near: "\<bar>r - x / S\<bar> \<le> 1 / 2"
    by (simp add: r_def x_def S_def)
  have "r * S - x = (r - x / S) * S" using S by (simp add: left_diff_distrib)
  then have "\<bar>r * S - x\<bar> = \<bar>r - x / S\<bar> * S" using S by (simp add: abs_mult)
  also have "\<dots> \<le> 1 / 2 * S" using near S by (intro mult_right_mono) simp_all
  finally have d: "\<bar>r * S - x\<bar> \<le> S / 2" by simp
  have "of_nat (2 ^ 52 * 2 ^ s) \<le> (of_nat (n div d) :: rat)"
    using long_quotient(2) [OF False] unfolding s_def by (simp only: of_nat_le_iff)
  also have "\<dots> \<le> x" unfolding x_def by (rule of_nat_div_le_of_nat)
  finally have "2 ^ 52 * S \<le> x" by (simp add: S_def)
  then have "S / 2 \<le> x / 2 ^ 53" by simp
  moreover have "of_nat (ratio_units n d) = r * S"
    using False by (simp add: ratio_units_def Let_def s_def [symmetric] r_def S_def)
  ultimately show ?thesis using d by (simp add: x_def)
qed

lemma f64_units_round:
  assumes "bit_length k < 2040" and "sb = 0 \<or> sb = 2 ^ 63"
  shows "f64_units (of_nat (sb + f64_round k)) = rounded_units k"
    and "\<not> f64_is_nan (of_nat (sb + f64_round k))" and "\<not> f64_is_inf (of_nat (sb + f64_round k))"
    and "f64_sign (of_nat (sb + f64_round k)) \<longleftrightarrow> sb \<noteq> 0"
proof -
  have r: "f64_round k = f64_round_ratio k 1" using f64_round_ratio_whole [of 1 k] by simp
  have "rounded_units k = ratio_units k 1"
    by (simp add: rounded_units_def ratio_units_def Let_def round_half_even_ratio round_ratio_def)
  then show "f64_units (of_nat (sb + f64_round k)) = rounded_units k"
    "\<not> f64_is_nan (of_nat (sb + f64_round k))" "\<not> f64_is_inf (of_nat (sb + f64_round k))"
    "f64_sign (of_nat (sb + f64_round k)) \<longleftrightarrow> sb \<noteq> 0"
    unfolding r using f64_ratio [of k 1 sb] assms by simp_all
qed

lemma f64_mul_units:
  assumes "\<not> f64_is_nan x" "\<not> f64_is_inf x" "\<not> f64_is_nan y" "\<not> f64_is_inf y" "\<not> f64_sign y"
    and "f64_units y = c * 2 ^ 1074"
  shows "f64_mul x y = of_nat ((if f64_sign x then 2 ^ 63 else 0) + f64_round (f64_units x * c))"
proof -
  have s: "(f64_sign x \<noteq> f64_sign y) = f64_sign x" using assms(5) by simp
  have P: "(0::nat) < 2 ^ 1074" by (rule zero_less_power) simp
  show ?thesis
    unfolding f64_mul_def Let_def s assms(6) mult.assoc [symmetric] f64_round_ratio_whole [OF P]
    using assms(1-4) by (simp only: simp_thms if_False)
qed

lemma whole_part:
  "m * 2 ^ j \<le> k \<Longrightarrow> m \<le> k div (2 :: nat) ^ j"
  "k \<le> m * 2 ^ j \<Longrightarrow> k div (2 :: nat) ^ j \<le> m"
  using div_le_mono [of "m * 2 ^ j" k "2 ^ j"] div_le_mono [of k "m * 2 ^ j" "2 ^ j"] by simp_all

text \<open>
  The whole part of a product with \<open>c\<close> lies between the floor and the ceiling of the exact product.
\<close>

theorem f64_mul_whole:
  assumes "\<not> f64_is_nan x" and "\<not> f64_is_inf x" and "c < 2 ^ 53" and "f64_units x * c < 2 ^ (1074 + 53)"
  shows "f64_units x * c div 2 ^ 1074 \<le> f64_units (f64_mul x (f64_of_int (int c))) div 2 ^ 1074"
    and "f64_units x * c \<le> m * 2 ^ 1074 \<Longrightarrow> f64_units (f64_mul x (f64_of_int (int c))) div 2 ^ 1074 \<le> m"
proof -
  let ?k = "f64_units x * c"
  have "\<bar>int c\<bar> < 2 ^ 53" using assms(3) by simp
  note f = f64_of_int_fields [OF this]
  have "int (f64_units (f64_of_int (int c))) = f64_signed_units (f64_of_int (int c))"
    using f(3) by (simp add: f64_signed_units_def)
  also have "\<dots> = int (c * 2 ^ 1074)" by (simp only: f(4) of_nat_mult of_nat_power of_nat_numeral)
  finally have "int (f64_units (f64_of_int (int c))) = int (c * 2 ^ 1074)" .
  then have c: "f64_units (f64_of_int (int c)) = c * 2 ^ 1074" by (simp only: of_nat_eq_iff)
  have bl: "bit_length ?k \<le> 1074 + 53"
    by (rule bit_length_le [OF assms(4)])
  have sb: "(if f64_sign x then 2 ^ 63 else 0) = (0 :: nat) \<or> (if f64_sign x then 2 ^ 63 else 0) = (2 ^ 63 :: nat)"
    by simp
  have "\<not> f64_sign (f64_of_int (int c))" using f(3) by simp
  from f64_mul_units [OF assms(1,2) f(1,2) this c]
  have u: "f64_units (f64_mul x (f64_of_int (int c))) = rounded_units ?k"
    using f64_units_round(1) [OF _ sb, of ?k] bl by simp
  show "?k div 2 ^ 1074 \<le> f64_units (f64_mul x (f64_of_int (int c))) div 2 ^ 1074"
    unfolding u by (rule whole_part(1)) (rule rounded_units_between(1) [OF bl div_times_less_eq_dividend])
  show "f64_units (f64_mul x (f64_of_int (int c))) div 2 ^ 1074 \<le> m" if "?k \<le> m * 2 ^ 1074"
    unfolding u by (rule whole_part(2)) (rule rounded_units_between(2) [OF bl that])
qed

end
