(* ===== verification/Runtime.thy ===== *)
theory Runtime
  imports Store_Refs Float_Ops
begin

text \<open>
  The runtime statistics of \<open>runtime.go\<close>: a stat generator that copies the numbers of
  \<open>runtime.ReadMemStats\<close> and \<open>runtime.NumGoroutine\<close> into gauges and counters.  What those report is an
  argument.
\<close>

section \<open>The generator\<close>

text \<open>The fields of \<open>runtime.MemStats\<close> that are read.\<close>

record MemStats =
  Alloc :: u64
  TotalAlloc :: u64
  Mallocs :: u64
  Frees :: u64
  HeapAlloc :: u64
  HeapSys :: u64
  HeapIdle :: u64
  HeapInuse :: u64
  HeapReleased :: u64
  HeapObjects :: u64
  NextGC :: u64
  LastGC :: u64
  PauseTotalNs :: u64
  NumGC :: u32
  GCCPUFraction :: float64

record runtimeStats =
  alloc :: nat
  totalAlloc :: nat
  sys :: nat
  lookups :: nat
  mallocs :: nat
  frees :: nat
  heapAlloc :: nat
  heapSys :: nat
  heapIdle :: nat
  heapInuse :: nat
  heapReleased :: nat
  heapObjects :: nat
  nextGC :: nat
  lastGC :: nat
  pauseTotalNs :: nat
  numGC :: nat
  gcCPUPercent :: nat
  numGoroutine :: nat

definition NewRuntimeStats :: "Scope \<Rightarrow> statStore \<Rightarrow> (runtimeStats \<times> statStore) option" where
  "NewRuntimeStats scope s = do {
     (alloc, s) \<leftarrow> Scope_NewGauge scope ''alloc'' s;
     (totalAlloc, s) \<leftarrow> Scope_NewCounter scope ''totalAlloc'' s;
     (sys, s) \<leftarrow> Scope_NewGauge scope ''sys'' s;
     (lookups, s) \<leftarrow> Scope_NewCounter scope ''lookups'' s;
     (mallocs, s) \<leftarrow> Scope_NewCounter scope ''mallocs'' s;
     (frees, s) \<leftarrow> Scope_NewCounter scope ''frees'' s;
     (heapAlloc, s) \<leftarrow> Scope_NewGauge scope ''heapAlloc'' s;
     (heapSys, s) \<leftarrow> Scope_NewGauge scope ''heapSys'' s;
     (heapIdle, s) \<leftarrow> Scope_NewGauge scope ''heapIdle'' s;
     (heapInuse, s) \<leftarrow> Scope_NewGauge scope ''heapInuse'' s;
     (heapReleased, s) \<leftarrow> Scope_NewGauge scope ''heapReleased'' s;
     (heapObjects, s) \<leftarrow> Scope_NewGauge scope ''heapObjects'' s;
     (nextGC, s) \<leftarrow> Scope_NewGauge scope ''nextGC'' s;
     (lastGC, s) \<leftarrow> Scope_NewGauge scope ''lastGC'' s;
     (pauseTotalNs, s) \<leftarrow> Scope_NewCounter scope ''pauseTotalNs'' s;
     (numGC, s) \<leftarrow> Scope_NewCounter scope ''numGC'' s;
     (gcCPUPercent, s) \<leftarrow> Scope_NewGauge scope ''gcCPUPercent'' s;
     (numGoroutine, s) \<leftarrow> Scope_NewGauge scope ''numGoroutine'' s;
     Some (\<lparr>alloc = alloc, totalAlloc = totalAlloc, sys = sys, lookups = lookups, mallocs = mallocs,
        frees = frees, heapAlloc = heapAlloc, heapSys = heapSys, heapIdle = heapIdle,
        heapInuse = heapInuse, heapReleased = heapReleased, heapObjects = heapObjects,
        nextGC = nextGC, lastGC = lastGC, pauseTotalNs = pauseTotalNs, numGC = numGC,
        gcCPUPercent = gcCPUPercent, numGoroutine = numGoroutine\<rparr>, s)
   }"

text \<open>
  \<open>GenerateStats\<close>; \<open>g\<close> is \<open>runtime.NumGoroutine()\<close>.  A conversion of a float to \<open>uint64\<close> drops the
  fraction.
\<close>

definition GenerateStats :: "MemStats \<Rightarrow> int \<Rightarrow> runtimeStats \<Rightarrow> statStore \<Rightarrow> statStore option" where
  "GenerateStats m g r s = do {
     let s = gauge_Set (alloc r) (Alloc m) s;
     s \<leftarrow> counter_Set (totalAlloc r) (TotalAlloc m) s;
     s \<leftarrow> counter_Set (mallocs r) (Mallocs m) s;
     s \<leftarrow> counter_Set (frees r) (Frees m) s;
     let s = gauge_Set (heapAlloc r) (HeapAlloc m) s;
     let s = gauge_Set (heapSys r) (HeapSys m) s;
     let s = gauge_Set (heapIdle r) (HeapIdle m) s;
     let s = gauge_Set (heapInuse r) (HeapInuse m) s;
     let s = gauge_Set (heapReleased r) (HeapReleased m) s;
     let s = gauge_Set (heapObjects r) (HeapObjects m) s;
     let s = gauge_Set (nextGC r) (NextGC m) s;
     let s = gauge_Set (lastGC r) (LastGC m) s;
     s \<leftarrow> counter_Set (pauseTotalNs r) (PauseTotalNs m) s;
     s \<leftarrow> counter_Set (numGC r) (ucast (NumGC m)) s;
     let s = gauge_Set (gcCPUPercent r) (f64_to_uint64 (f64_mul (GCCPUFraction m) (f64_of_int 100))) s;
     let s = gauge_Set (numGoroutine r) (word_of_int g) s;
     Some s
   }"

section \<open>The generator as a list of settings\<close>

datatype setting = Set_gauge string nat u64 | Set_counter string nat u64

fun apply_setting :: "setting \<Rightarrow> statStore \<Rightarrow> statStore option" where
  "apply_setting (Set_gauge n a v) s = Some (gauge_Set a v s)"
| "apply_setting (Set_counter n a v) s = counter_Set a v s"

fun apply_settings :: "setting list \<Rightarrow> statStore \<Rightarrow> statStore option" where
  "apply_settings [] s = Some s"
| "apply_settings (x # xs) s = Option.bind (apply_setting x s) (apply_settings xs)"

definition gc_percent :: "MemStats \<Rightarrow> u64" where
  "gc_percent m = f64_to_uint64 (f64_mul (GCCPUFraction m) (f64_of_int 100))"

definition settings :: "MemStats \<Rightarrow> int \<Rightarrow> runtimeStats \<Rightarrow> setting list" where
  "settings m g r =
     [Set_gauge ''alloc'' (alloc r) (Alloc m),
      Set_counter ''totalAlloc'' (totalAlloc r) (TotalAlloc m),
      Set_counter ''mallocs'' (mallocs r) (Mallocs m),
      Set_counter ''frees'' (frees r) (Frees m),
      Set_gauge ''heapAlloc'' (heapAlloc r) (HeapAlloc m),
      Set_gauge ''heapSys'' (heapSys r) (HeapSys m),
      Set_gauge ''heapIdle'' (heapIdle r) (HeapIdle m),
      Set_gauge ''heapInuse'' (heapInuse r) (HeapInuse m),
      Set_gauge ''heapReleased'' (heapReleased r) (HeapReleased m),
      Set_gauge ''heapObjects'' (heapObjects r) (HeapObjects m),
      Set_gauge ''nextGC'' (nextGC r) (NextGC m),
      Set_gauge ''lastGC'' (lastGC r) (LastGC m),
      Set_counter ''pauseTotalNs'' (pauseTotalNs r) (PauseTotalNs m),
      Set_counter ''numGC'' (numGC r) (ucast (NumGC m)),
      Set_gauge ''gcCPUPercent'' (gcCPUPercent r) (gc_percent m),
      Set_gauge ''numGoroutine'' (numGoroutine r) (word_of_int g)]"

lemma apply_settings_fun:
  "apply_settings [] = Some"
  "apply_settings (x # xs) = (\<lambda>s. Option.bind (apply_setting x s) (apply_settings xs))"
  by (simp_all add: fun_eq_iff)

lemma GenerateStats_settings: "GenerateStats m g r s = apply_settings (settings m g r) s"
  by (simp add: GenerateStats_def settings_def gc_percent_def Let_def apply_settings_fun)

text \<open>The metrics of the generator, in the order they are created.\<close>

datatype metric = Gauge_ref string nat | Counter_ref string nat

definition metrics :: "runtimeStats \<Rightarrow> metric list" where
  "metrics r =
     [Gauge_ref ''alloc'' (alloc r), Counter_ref ''totalAlloc'' (totalAlloc r),
      Gauge_ref ''sys'' (sys r), Counter_ref ''lookups'' (lookups r),
      Counter_ref ''mallocs'' (mallocs r), Counter_ref ''frees'' (frees r),
      Gauge_ref ''heapAlloc'' (heapAlloc r), Gauge_ref ''heapSys'' (heapSys r),
      Gauge_ref ''heapIdle'' (heapIdle r), Gauge_ref ''heapInuse'' (heapInuse r),
      Gauge_ref ''heapReleased'' (heapReleased r), Gauge_ref ''heapObjects'' (heapObjects r),
      Gauge_ref ''nextGC'' (nextGC r), Gauge_ref ''lastGC'' (lastGC r),
      Counter_ref ''pauseTotalNs'' (pauseTotalNs r), Counter_ref ''numGC'' (numGC r),
      Gauge_ref ''gcCPUPercent'' (gcCPUPercent r), Gauge_ref ''numGoroutine'' (numGoroutine r)]"

end
