(* ===== verification/Runtime_Props.thy ===== *)
theory Runtime_Props
  imports Runtime Timer_Props
begin

text \<open>Properties of the runtime statistics.\<close>

section \<open>Names\<close>

lemma stat_name_inject [simp]: "stat_name sc n = stat_name sc n' \<longleftrightarrow> n = n'"
  by (simp add: stat_name_def Serialize_eq joinScopes_def split: Scope.split)

section \<open>The metrics of the generator in a run\<close>

fun holds :: "Scope \<Rightarrow> client \<Rightarrow> metric \<Rightarrow> bool" where
  "holds sc w (Gauge_ref n a) \<longleftrightarrow> (stat_name sc n, a) \<in> gauge_refs w"
| "holds sc w (Counter_ref n a) \<longleftrightarrow> (stat_name sc n, a) \<in> counter_refs w"

definition runtime_ok :: "Scope \<Rightarrow> runtimeStats \<Rightarrow> client \<Rightarrow> bool" where
  "runtime_ok sc r w \<longleftrightarrow> (\<forall>x \<in> set (metrics r). holds sc w x)"

text \<open>One constructor after another: \<open>xs\<close> has been obtained so far.\<close>

definition obtaining :: "(nat \<Rightarrow> statStore \<Rightarrow> statStore) \<Rightarrow> Scope \<Rightarrow> (string \<Rightarrow> u64) \<Rightarrow> client \<Rightarrow> statStore \<Rightarrow>
    metric list \<Rightarrow> bool" where
  "obtaining gen sc wr w s xs \<longleftrightarrow> store_run gen w s \<and> written w = wr \<and> (\<forall>x \<in> set xs. holds sc w x)"

definition obtained :: "(nat \<Rightarrow> statStore \<Rightarrow> statStore) \<Rightarrow> Scope \<Rightarrow> (string \<Rightarrow> u64) \<Rightarrow>
    (runtimeStats \<times> statStore) option \<Rightarrow> bool" where
  "obtained gen sc wr p \<longleftrightarrow> (\<exists>r s' w'. p = Some (r, s') \<and> obtaining gen sc wr w' s' (metrics r))"

lemma holds_insert:
  "holds sc w x \<Longrightarrow> holds sc (w\<lparr>gauge_refs := insert p (gauge_refs w)\<rparr>) x"
  "holds sc w x \<Longrightarrow> holds sc (w\<lparr>counter_refs := insert p (counter_refs w)\<rparr>) x"
  by (cases x; simp)+

lemma obtained_gauge:
  assumes "obtaining gen sc wr w s xs"
    and "\<And>a s w. obtaining gen sc wr w s (xs @ [Gauge_ref n a]) \<Longrightarrow> obtained gen sc wr (f (a, s))"
  shows "obtained gen sc wr (Option.bind (Scope_NewGauge sc n s) f)"
proof -
  have run: "store_run gen w s" "written w = wr" "\<And>x. x \<in> set xs \<Longrightarrow> holds sc w x"
    using assms(1) by (auto simp: obtaining_def)
  obtain a s' where n: "Scope_NewGauge sc n s = Some (a, s')"
    using api.gauge_key [of sc n s] by (cases "newGauge (stat_name sc n) s") auto
  let ?w = "w\<lparr>gauge_refs := insert (stat_name sc n, a) (gauge_refs w)\<rparr>"
  have "obtaining gen sc wr ?w s' (xs @ [Gauge_ref n a])"
    using api.new_gauge_run [OF run(1) n] run(2) holds_insert(1) [OF run(3)]
    by (auto simp: obtaining_def)
  then show ?thesis using n assms(2) by simp
qed

lemma obtained_counter:
  assumes "obtaining gen sc wr w s xs"
    and "\<And>a s w. obtaining gen sc wr w s (xs @ [Counter_ref n a]) \<Longrightarrow> obtained gen sc wr (f (a, s))"
  shows "obtained gen sc wr (Option.bind (Scope_NewCounter sc n s) f)"
proof -
  have run: "store_run gen w s" "written w = wr" "\<And>x. x \<in> set xs \<Longrightarrow> holds sc w x"
    using assms(1) by (auto simp: obtaining_def)
  obtain a s' where n: "Scope_NewCounter sc n s = Some (a, s')"
    using api.counter_key [of sc n s] by (cases "newCounter (stat_name sc n) s") auto
  let ?w = "w\<lparr>counter_refs := insert (stat_name sc n, a) (counter_refs w)\<rparr>"
  have "obtaining gen sc wr ?w s' (xs @ [Counter_ref n a])"
    using api.new_counter_run [OF run(1) n] run(2) holds_insert(2) [OF run(3)]
    by (auto simp: obtaining_def)
  then show ?thesis using n assms(2) by simp
qed

lemma obtained_all:
  "obtaining gen sc wr w s xs \<Longrightarrow> xs = metrics r \<Longrightarrow> obtained gen sc wr (Some (r, s))"
  by (auto simp: obtained_def)

lemma NewRuntimeStats_ok:
  assumes "store_run gen w s"
  obtains r s' w' where "NewRuntimeStats sc s = Some (r, s')" "store_run gen w' s'" "runtime_ok sc r w'"
    "written w' = written w"
proof -
  have "obtaining gen sc (written w) w s []" using assms by (simp add: obtaining_def)
  then have "obtained gen sc (written w) (NewRuntimeStats sc s)"
    unfolding NewRuntimeStats_def
    by - ((erule obtained_gauge obtained_counter, simp only: prod.case)+, erule obtained_all, simp add: metrics_def)
  then show ?thesis using that
    by (auto simp: obtained_def obtaining_def runtime_ok_def)
qed

section \<open>The effect of the settings\<close>

fun setting_ok :: "Scope \<Rightarrow> client \<Rightarrow> setting \<Rightarrow> bool" where
  "setting_ok sc w (Set_gauge n a v) \<longleftrightarrow> (stat_name sc n, a) \<in> gauge_refs w"
| "setting_ok sc w (Set_counter n a v) \<longleftrightarrow> (stat_name sc n, a) \<in> counter_refs w"

fun setting_name :: "setting \<Rightarrow> bool \<times> string" where
  "setting_name (Set_gauge n a v) = (True, n)"
| "setting_name (Set_counter n a v) = (False, n)"

text \<open>What settings leave, against the state before.\<close>

definition same_refs :: "client \<Rightarrow> client \<Rightarrow> bool" where
  "same_refs w w' \<longleftrightarrow>
     counter_refs w' = counter_refs w \<and> gauge_refs w' = gauge_refs w \<and> timer_refs w' = timer_refs w"

definition same_store :: "statStore \<Rightarrow> statStore \<Rightarrow> bool" where
  "same_store s s' \<longleftrightarrow>
     gauges s' = gauges s \<and> statGenerators s' = statGenerators s \<and> sink_calls s' = sink_calls s"

text \<open>The setting \<open>x\<close> shows.\<close>

fun shows_setting :: "Scope \<Rightarrow> client \<Rightarrow> statStore \<Rightarrow> client \<Rightarrow> statStore \<Rightarrow> setting \<Rightarrow> bool" where
  "shows_setting sc w s w' s' (Set_gauge n a v) \<longleftrightarrow> gauge_Value a s' = v"
| "shows_setting sc w s w' s' (Set_counter n a v) \<longleftrightarrow>
     counter_Value a s' = v \<and>
     written w' (stat_name sc n) = written w (stat_name sc n) + (v - counter_Value a s)"

text \<open>Metrics of other names, \<open>N\<close> being the names set, are left alone.\<close>

definition full_names :: "Scope \<Rightarrow> bool \<Rightarrow> (bool \<times> string) set \<Rightarrow> string set" where
  "full_names sc b N = {stat_name sc n |n. (b, n) \<in> N}"

lemma full_names_iff [simp]: "stat_name sc n \<in> full_names sc b N \<longleftrightarrow> (b, n) \<in> N"
  by (auto simp: full_names_def)

lemma full_names_Un [simp]: "full_names sc b (M \<union> N) = full_names sc b M \<union> full_names sc b N"
  by (auto simp: full_names_def)

lemma full_names_single [simp]:
  "full_names sc b {(c, n)} = (if b = c then {stat_name sc n} else {})" "full_names sc b {} = {}"
  by (auto simp: full_names_def)

definition leaves_alone :: "Scope \<Rightarrow> (bool \<times> string) set \<Rightarrow> client \<Rightarrow> statStore \<Rightarrow> client \<Rightarrow> statStore \<Rightarrow> bool" where
  "leaves_alone sc N w s w' s' \<longleftrightarrow>
     (\<forall>(k, a) \<in> gauge_refs w. k \<notin> full_names sc True N \<longrightarrow> gauge_Value a s' = gauge_Value a s) \<and>
     (\<forall>(k, a) \<in> counter_refs w. k \<notin> full_names sc False N \<longrightarrow> counter_Value a s' = counter_Value a s) \<and>
     (\<forall>k. k \<notin> full_names sc False N \<longrightarrow> written w' k = written w k)"

lemma leaves_aloneD:
  assumes "leaves_alone sc N w s w' s'"
  shows "(k, a) \<in> gauge_refs w \<Longrightarrow> k \<notin> full_names sc True N \<Longrightarrow> gauge_Value a s' = gauge_Value a s"
    and "(k, a) \<in> counter_refs w \<Longrightarrow> k \<notin> full_names sc False N \<Longrightarrow> counter_Value a s' = counter_Value a s"
    and "k \<notin> full_names sc False N \<Longrightarrow> written w' k = written w k"
  using assms unfolding leaves_alone_def by auto

definition settled_as :: "Scope \<Rightarrow> setting list \<Rightarrow> client \<Rightarrow> statStore \<Rightarrow> client \<Rightarrow> statStore \<Rightarrow> bool" where
  "settled_as sc xs w s w' s' \<longleftrightarrow>
     same_refs w w' \<and> same_store s s' \<and> (\<forall>x \<in> set xs. shows_setting sc w s w' s' x) \<and>
     leaves_alone sc (setting_name ` set xs) w s w' s'"

lemma setting_ok_same: "same_refs w w' \<Longrightarrow> setting_ok sc w' x \<longleftrightarrow> setting_ok sc w x"
  by (cases x) (simp_all add: same_refs_def)

lemma leaves_alone_trans:
  assumes "leaves_alone sc M w s w1 s1" and "leaves_alone sc N w1 s1 w' s'" and "same_refs w w1"
  shows "leaves_alone sc (M \<union> N) w s w' s'"
  unfolding leaves_alone_def
  using leaves_aloneD [OF assms(1)] leaves_aloneD [OF assms(2)] assms(3)
  by (auto simp: same_refs_def split: prod.splits)

text \<open>What a setting leaves alone still shows, and it does not change what others will show.\<close>

lemma shows_setting_kept:
  assumes "shows_setting sc w s w1 s1 x" and "leaves_alone sc N w1 s1 w' s'" and "setting_name x \<notin> N"
    and "setting_ok sc w1 x"
  shows "shows_setting sc w s w' s' x"
proof (cases x)
  case (Set_gauge n a v)
  then show ?thesis using assms(1,3,4) leaves_aloneD(1) [OF assms(2), of "stat_name sc n" a] by simp
next
  case (Set_counter n a v)
  then show ?thesis
    using assms(1,3,4) leaves_aloneD(2) [OF assms(2), of "stat_name sc n" a]
      leaves_aloneD(3) [OF assms(2), of "stat_name sc n"] by simp
qed

lemma shows_setting_from:
  assumes "shows_setting sc w1 s1 w' s' x" and "leaves_alone sc N w s w1 s1" and "setting_name x \<notin> N"
    and "setting_ok sc w x"
  shows "shows_setting sc w s w' s' x"
proof (cases x)
  case (Set_counter n a v)
  then show ?thesis
    using assms(1,3,4) leaves_aloneD(2) [OF assms(2), of "stat_name sc n" a]
      leaves_aloneD(3) [OF assms(2), of "stat_name sc n"] by simp
qed (use assms(1) in simp)

lemma settled_Cons:
  assumes "settled_as sc [x] w s w1 s1" and "settled_as sc xs w1 s1 w' s'"
    and "distinct (map setting_name (x # xs))" and "\<forall>y \<in> set (x # xs). setting_ok sc w y"
  shows "settled_as sc (x # xs) w s w' s'"
proof -
  have refs: "same_refs w w1" "same_refs w w'" and st: "same_store s s'"
    using assms(1,2) by (auto simp: settled_as_def same_refs_def same_store_def)
  have l: "leaves_alone sc {setting_name x} w s w1 s1" "leaves_alone sc (setting_name ` set xs) w1 s1 w' s'"
    using assms(1,2) by (simp_all add: settled_as_def)
  have x: "shows_setting sc w s w1 s1 x" "setting_name x \<notin> setting_name ` set xs" "setting_ok sc w x"
    using assms by (simp_all add: settled_as_def)
  have "shows_setting sc w s w' s' x"
    by (rule shows_setting_kept [OF x(1) l(2) x(2)]) (simp only: setting_ok_same [OF refs(1)] x(3))
  moreover have "shows_setting sc w s w' s' y" if y: "y \<in> set xs" for y
  proof (rule shows_setting_from [OF _ l(1)])
    show "shows_setting sc w1 s1 w' s' y" "setting_ok sc w y" using assms(2,4) y by (simp_all add: settled_as_def)
    have "setting_name y \<in> setting_name ` set xs" using y by simp
    then show "setting_name y \<notin> {setting_name x}" using x(2) by auto
  qed
  ultimately show ?thesis using refs(2) st leaves_alone_trans [OF l refs(1)] by (simp add: settled_as_def)
qed

lemma settle_one:
  assumes "store_run gen w s" and "setting_ok sc w x"
  obtains s' w' where "apply_setting x s = Some s'" "store_run gen w' s'" "settled_as sc [x] w s w' s'"
proof (cases x)
  case (Set_gauge n a v)
  then have ref: "(stat_name sc n, a) \<in> gauge_refs w" using assms(2) by simp
  have "settled_as sc [x] w s w (gauge_Set a v s)"
    using gauge_Set_Value [OF assms(1) ref] Set_gauge
    by (auto simp: settled_as_def same_refs_def same_store_def leaves_alone_def counter_Value_def gauge_Set_def upd_gauge_def)
  moreover have "apply_setting x s = Some (gauge_Set a v s)" using Set_gauge by simp
  ultimately show ?thesis using that store_run.gauge_set [OF assms(1) ref] by blast
next
  case (Set_counter n a v)
  then have ref: "(stat_name sc n, a) \<in> counter_refs w" using assms(2) by simp
  obtain s' where s': "counter_Set a v s = Some s'"
    "store_run gen (wrote (stat_name sc n) (v - counter_Value a s) w) s'"
    "counter_Value a s' = v" "gauges s' = gauges s" "gauge_heap s' = gauge_heap s"
    "statGenerators s' = statGenerators s" "sink_calls s' = sink_calls s"
    "\<And>l b. (l, b) \<in> counter_refs w \<Longrightarrow> l \<noteq> stat_name sc n \<Longrightarrow> counter_Value b s' = counter_Value b s"
    using counter_Set_run [OF assms(1) ref, of v] by blast
  have "settled_as sc [x] w s (wrote (stat_name sc n) (v - counter_Value a s) w) s'"
    using s'(3-8) Set_counter
    by (auto simp: settled_as_def same_refs_def same_store_def leaves_alone_def wrote_def gauge_Value_def)
  then show ?thesis using that s'(1,2) Set_counter by simp
qed

lemma settle_all:
  assumes "store_run gen w s" and "\<forall>x \<in> set xs. setting_ok sc w x" and "distinct (map setting_name xs)"
  shows "\<exists>s' w'. apply_settings xs s = Some s' \<and> store_run gen w' s' \<and> settled_as sc xs w s w' s'"
  using assms
proof (induction xs arbitrary: w s)
  case Nil
  then show ?case by (auto simp: settled_as_def same_refs_def same_store_def leaves_alone_def)
next
  case (Cons x xs)
  obtain s1 w1 where 1: "apply_setting x s = Some s1" "store_run gen w1 s1" "settled_as sc [x] w s w1 s1"
    using settle_one [OF Cons.prems(1), of sc x] Cons.prems(2) by auto
  have "\<forall>y \<in> set xs. setting_ok sc w1 y"
    using Cons.prems(2) 1(3) setting_ok_same by (auto simp: settled_as_def)
  then obtain s' w' where "apply_settings xs s1 = Some s'" "store_run gen w' s'" "settled_as sc xs w1 s1 w' s'"
    using Cons.IH [OF 1(2)] Cons.prems(3) by auto
  then show ?case using 1(1) settled_Cons [OF 1(3) _ Cons.prems(3,2)] by auto
qed

lemma GenerateStats_settles:
  assumes "store_run gen w s" and "runtime_ok sc r w"
  obtains s' w' where "GenerateStats m g r s = Some s'" "store_run gen w' s'"
    "settled_as sc (settings m g r) w s w' s'"
proof -
  have "\<forall>x \<in> set (settings m g r). setting_ok sc w x"
    using assms(2) by (simp add: runtime_ok_def metrics_def settings_def)
  moreover have "distinct (map setting_name (settings m g r))" by (simp add: settings_def)
  ultimately show ?thesis using that settle_all [OF assms(1), of "settings m g r" sc]
    unfolding GenerateStats_settings by blast
qed

section \<open>The share of the garbage collector\<close>

text \<open>
  \<open>gcCPUPercent\<close> is the share in percent, rounded to a neighbouring whole number: the fraction is
  dropped from the rounded product, which may have been rounded up to a whole number.
\<close>

theorem gc_percent_whole:
  assumes "f64_val (GCCPUFraction m) = Some x" and "0 \<le> x" and "x \<le> 1"
  shows "\<lfloor>100 * x\<rfloor> \<le> int (unat (gc_percent m)) \<and> int (unat (gc_percent m)) \<le> \<lceil>100 * x\<rceil>"
proof -
  let ?f = "GCCPUFraction m"
  define P where "P = (2::nat) ^ 1074"
  define u where "u = f64_units ?f"
  have P: "P > 0" "(2::rat) ^ 1074 = of_nat P" by (simp_all only: P_def of_nat_power of_nat_numeral zero_less_power zero_less_numeral)
  have fin: "\<not> f64_is_nan ?f" "\<not> f64_is_inf ?f" using f64_val_fin [OF assms(1)] by simp_all
  have "x = of_int (f64_signed_units ?f) / of_nat P"
    using f64_val_units [OF fin] assms(1) by (simp only: P(2) option.inject)
  then have x: "x = of_nat u / of_nat P"
    using assms(2) P(1) by (auto simp: f64_signed_units_def u_def zero_le_divide_iff)
  then have "u \<le> P" using assms(3) P(1) by (simp add: divide_le_eq)
  have x100: "100 * x = of_nat (u * 100) / of_nat P" by (simp add: x)
  define p where "p = f64_units (f64_mul ?f (f64_of_int 100)) div P"
  have small: "u * 100 < 2 ^ (1074 + 53)"
  proof -
    have "u * 100 \<le> P * 100" using \<open>u \<le> P\<close> by simp
    also have "\<dots> < P * 2 ^ 53" using P(1) by simp
    also have "\<dots> = 2 ^ (1074 + 53)" by (simp only: P_def power_add)
    finally show ?thesis .
  qed
  have hundred: "(100::nat) < 2 ^ 53" "int 100 = 100" by simp_all
  note w = f64_mul_whole [OF fin hundred(1) small [unfolded u_def], folded P_def u_def, unfolded hundred(2), folded p_def]
  have "p \<le> 100" using w(2) [of 100] \<open>u \<le> P\<close> by (simp add: mult.commute)
  then have "unat (gc_percent m) = p"
    unfolding gc_percent_def f64_to_uint64_def P_def [symmetric] p_def [symmetric]
    using \<open>p \<le> 100\<close> by (simp add: unat_of_nat)
  moreover have "\<lfloor>100 * x\<rfloor> = int (u * 100 div P)" unfolding x100 by (rule floor_divide_of_nat_eq)
  moreover have "int p \<le> \<lceil>100 * x\<rceil>"
  proof -
    define c where "c = nat \<lceil>100 * x\<rceil>"
    have "100 * x \<le> of_nat c" using assms(2) by (simp add: c_def of_nat_nat)
    then have "of_nat (u * 100) \<le> (of_nat c * of_nat P :: rat)"
      using P(1) by (simp add: x100 divide_le_eq)
    then have "u * 100 \<le> c * P" by (simp only: of_nat_mult [symmetric] of_nat_le_iff)
    then have "p \<le> c" by (rule w(2))
    then show ?thesis using assms(2) by (simp add: c_def le_nat_iff)
  qed
  ultimately show ?thesis using w(1) by simp
qed

section \<open>A flush with the generator\<close>

text \<open>
  C30: a flush of a store whose generator is the runtime statistics, in any run, whatever became of its
  counters since they were created.  The sink receives every gauge that \<open>GenerateStats\<close> sets, under its
  full name, with the number just read; the total it has received for each counter that is set differs
  from what had been written before by the growth of the number read; and the gauge \<open>sys\<close> and the
  counter \<open>lookups\<close>, which the generator registers as well, are never set.
\<close>

theorem runtime_stats_flushed:
  assumes "store_run gen w s" and "runtime_ok sc r w" and "statGenerators s = [i]"
    and "gen i s = the (GenerateStats m g r s)"
  shows "\<exists>s' w' cs. Flush gen s = Some s' \<and> store_run gen w' s' \<and> runtime_ok sc r w' \<and>
           sink_calls s' = sink_calls s @ cs \<and>
           (\<forall>n a v. Set_gauge n a v \<in> set (settings m g r) \<longrightarrow> FlushGauge (stat_name sc n) v \<in> set cs) \<and>
           (\<forall>n a v. Set_counter n a v \<in> set (settings m g r) \<longrightarrow>
              delivered (stat_name sc n) (sink_calls s') =
                written w (stat_name sc n) + (v - counter_Value a s)) \<and>
           FlushGauge (stat_name sc ''sys'') (gauge_Value (sys r) s) \<in> set cs \<and>
           delivered (stat_name sc ''lookups'') (sink_calls s') = written w (stat_name sc ''lookups'')"
proof -
  obtain t w' where t: "GenerateStats m g r s = Some t" "store_run gen w' t"
    "settled_as sc (settings m g r) w s w' t"
    by (rule GenerateStats_settles [OF assms(1,2), of m g])
  have set: "same_refs w w'" "same_store s t" "\<And>x. x \<in> set (settings m g r) \<Longrightarrow> shows_setting sc w s w' t x"
    "leaves_alone sc (setting_name ` set (settings m g r)) w s w' t"
    using t(3) by (auto simp: settled_as_def)
  have gens: "fold gen (statGenerators s) s = t" using assms(3,4) t(1) by simp
  have inv: "run_inv w' t" by (rule store_run_inv [OF t(2)])
  then have si: "store_inv t" "counters_inv t" by (simp_all add: run_inv_def store_inv_def)
  have fl: "Flush gen s = Some (flush_result t)" using Flush_eq [of gen s] si(1) gens by simp
  have run': "store_run gen w' (flush_result t)"
    by (rule store_run.flush [OF assms(1) _ fl]) (simp only: gens t(2))
  have del: "delivered k (sink_calls (flush_result t)) = written w' k" for k
    using inv si(2) by (simp add: account_flush(2) run_inv_def)
  have ok': "runtime_ok sc r w'" using assms(2) set(1) by (simp add: runtime_ok_def metrics_def same_refs_def)
  obtain cs where cs: "sink_calls (flush_result t) = sink_calls s @ cs"
    "set (map (\<lambda>(k, a). FlushGauge k (gauge_Value a t)) (gauges t)) \<subseteq> set cs"
    using set(2) by (auto simp: flush_result_def same_store_def)
  have sent: "FlushGauge (stat_name sc n) (gauge_Value a t) \<in> set cs"
    if "(stat_name sc n, a) \<in> gauge_refs w" for n a
  proof -
    have "(stat_name sc n, a) \<in> set (gauges t)" using gauge_ref(4) [OF t(2)] that set(1) by (simp add: same_refs_def)
    then show ?thesis using cs(2) by force
  qed
  have refs: "setting_ok sc w x" if "x \<in> set (settings m g r)" for x
    using assms(2) that by (auto simp: runtime_ok_def metrics_def settings_def)
  have g: "FlushGauge (stat_name sc n) v \<in> set cs" if "Set_gauge n a v \<in> set (settings m g r)" for n a v
    using sent [of n a] refs [OF that] set(3) [OF that] by simp
  have c: "delivered (stat_name sc n) (sink_calls (flush_result t)) = written w (stat_name sc n) + (v - counter_Value a s)"
    if "Set_counter n a v \<in> set (settings m g r)" for n a v
    using set(3) [OF that] by (simp add: del)
  have sys: "(stat_name sc ''sys'', sys r) \<in> gauge_refs w" using assms(2) by (simp add: runtime_ok_def metrics_def)
  have "gauge_Value (sys r) t = gauge_Value (sys r) s" "written w' (stat_name sc ''lookups'') = written w (stat_name sc ''lookups'')"
    by (rule leaves_aloneD(1) [OF set(4) sys] leaves_aloneD(3) [OF set(4)], simp add: settings_def)+
  then show ?thesis using fl run' ok' cs(1) g c sent [OF sys] del by (intro exI conjI allI impI) auto
qed

text \<open>In a store whose only generator it is, the first flush sends what was read.\<close>

definition demo_mem :: MemStats where
  "demo_mem = \<lparr>Alloc = 1, TotalAlloc = 2, Mallocs = 3, Frees = 4, HeapAlloc = 5, HeapSys = 6, HeapIdle = 7,
     HeapInuse = 8, HeapReleased = 9, HeapObjects = 10, NextGC = 11, LastGC = 12, PauseTotalNs = 13,
     NumGC = 14, GCCPUFraction = 0\<rparr>"

lemma demo_settings:
  "Set_gauge ''heapSys'' (heapSys r) 6 \<in> set (settings demo_mem 9 r)"
  "Set_counter ''mallocs'' (mallocs r) 3 \<in> set (settings demo_mem 9 r)"
  by (simp_all add: settings_def demo_mem_def)

lemma demo_generator:
  "case NewRuntimeStats Store_scope (empty_store 1 True) of
     None \<Rightarrow> False | Some (r, s) \<Rightarrow> statGenerators s = [] \<and> counter_Value (mallocs r) s = 0"
  by code_simp

theorem runtime_stats_flushed_witness:
  "\<exists>r s s'. NewRuntimeStats Store_scope (empty_store 1 True) = Some (r, s) \<and>
     Flush (\<lambda>_ t. the (GenerateStats demo_mem 9 r t)) (AddStatGenerator 0 s) = Some s' \<and>
     FlushGauge ''heapSys'' 6 \<in> set (sink_calls s') \<and>
     delivered ''mallocs'' (sink_calls s') = 3"
proof -
  obtain r s where r0: "NewRuntimeStats Store_scope (empty_store 1 True) = Some (r, s)"
    using NewRuntimeStats_ok [OF store_run.start [of no_gen 1 True]] by blast
  let ?gen = "\<lambda>(_ :: nat) t. the (GenerateStats demo_mem 9 r t)"
  obtain w where w: "store_run ?gen w s" "runtime_ok Store_scope r w" "written w = (\<lambda>_. 0)"
    using NewRuntimeStats_ok [OF store_run.start [of ?gen 1 True], of Store_scope] r0
    by (auto simp: no_refs_def)
  have new: "statGenerators s = []" "counter_Value (mallocs r) s = 0" using demo_generator r0 by simp_all
  then have gens: "statGenerators (AddStatGenerator 0 s) = [0]" by (simp add: AddStatGenerator_def)
  from runtime_stats_flushed [OF store_run.add_generator [OF w(1)] w(2) gens refl] obtain s' cs where
    s': "Flush ?gen (AddStatGenerator 0 s) = Some s'" "sink_calls s' = sink_calls (AddStatGenerator 0 s) @ cs"
    "\<And>n a v. Set_gauge n a v \<in> set (settings demo_mem 9 r) \<Longrightarrow> FlushGauge (stat_name Store_scope n) v \<in> set cs"
    "\<And>n a v. Set_counter n a v \<in> set (settings demo_mem 9 r) \<Longrightarrow>
       delivered (stat_name Store_scope n) (sink_calls s') =
         written w (stat_name Store_scope n) + (v - counter_Value a (AddStatGenerator 0 s))"
    by blast
  have "FlushGauge ''heapSys'' 6 \<in> set (sink_calls s')"
    using s'(2,3) demo_settings(1) by (fastforce simp: stat_name_def)
  moreover have "delivered ''mallocs'' (sink_calls s') = 3"
    using s'(4) [OF demo_settings(2)] w(3) new(2) by (simp add: stat_name_def counter_Value_def AddStatGenerator_def)
  ultimately show ?thesis using r0 s'(1) by blast
qed

end
