(* ===== verification/LoggingSink.thy ===== *)
theory LoggingSink
  imports Metrics Float_Ops
begin

text \<open>
  \<open>logging_sink.go\<close>: a sink that writes each call as one line of JSON.  What the code uses of
  \<open>encoding/json\<close> is modelled byte by byte: the order of fields and keys, and the escaping of strings,
  which replaces bytes that are not valid UTF-8.  The current time and the formatted message of a log
  call are arguments.
\<close>

section \<open>Strings in JSON\<close>

abbreviation byte :: "char \<Rightarrow> nat" where
  "byte c \<equiv> of_char c"

abbreviation quote_char :: char where "quote_char \<equiv> CHR 0x22"
abbreviation backslash :: char where "backslash \<equiv> CHR 0x5C"

text \<open>
  The first byte of a UTF-8 sequence of more than one byte: the length, and the bounds of the second
  byte; the others lie between \<open>0x80\<close> and \<open>0xBF\<close>.
\<close>

definition lead :: "nat \<Rightarrow> (nat \<times> nat \<times> nat) option" where
  "lead b =
     (if 0xC2 \<le> b \<and> b \<le> 0xDF then Some (2, 0x80, 0xBF)
      else if b = 0xE0 then Some (3, 0xA0, 0xBF)
      else if b = 0xED then Some (3, 0x80, 0x9F)
      else if 0xE1 \<le> b \<and> b \<le> 0xEF then Some (3, 0x80, 0xBF)
      else if b = 0xF0 then Some (4, 0x90, 0xBF)
      else if 0xF1 \<le> b \<and> b \<le> 0xF3 then Some (4, 0x80, 0xBF)
      else if b = 0xF4 then Some (4, 0x80, 0x8F)
      else None)"

text \<open>The length of the UTF-8 sequence at the head, 0 if there is none.\<close>

definition rune_len :: "nat list \<Rightarrow> nat" where
  "rune_len bs =
     (case bs of
        [] \<Rightarrow> 0
      | b # cs \<Rightarrow>
          if b < 0x80 then 1
          else (case lead b of
                  None \<Rightarrow> 0
                | Some (n, lo, hi) \<Rightarrow>
                    if n \<le> length bs \<and> lo \<le> bs ! 1 \<and> bs ! 1 \<le> hi \<and>
                       (\<forall>c \<in> set (take (n - 2) (drop 2 bs)). 0x80 \<le> c \<and> c \<le> 0xBF)
                    then n else 0))"

definition hex_digit :: "nat \<Rightarrow> char" where
  "hex_digit n = (if n < 10 then char_of (48 + n) else char_of (87 + n))"

text \<open>Quotes, control characters, and the characters that mean something in HTML.\<close>

definition escape_ascii :: "char \<Rightarrow> string" where
  "escape_ascii c =
     (if c = quote_char \<or> c = backslash then [backslash, c]
      else if c = CHR 0x0A then [backslash, CHR ''n'']
      else if c = CHR 0x0D then [backslash, CHR ''r'']
      else if c = CHR 0x09 then [backslash, CHR ''t'']
      else if byte c < 0x20 \<or> c = CHR ''<'' \<or> c = CHR ''>'' \<or> c = CHR ''&''
      then backslash # ''u00'' @ [hex_digit (byte c div 16), hex_digit (byte c mod 16)]
      else [c])"

text \<open>The line separators U+2028 and U+2029 are escaped as well.\<close>

definition escape_rune :: "string \<Rightarrow> string" where
  "escape_rune r =
     (if r = [CHR 0xE2, CHR 0x80, CHR 0xA8] then backslash # ''u2028''
      else if r = [CHR 0xE2, CHR 0x80, CHR 0xA9] then backslash # ''u2029''
      else r)"

function escape :: "string \<Rightarrow> string" where
  "escape s =
     (case s of
        [] \<Rightarrow> []
      | c # cs \<Rightarrow>
          let n = rune_len (map byte s) in
          if n = 0 then backslash # ''ufffd'' @ escape cs
          else if n = 1 then escape_ascii c @ escape cs
          else escape_rune (take n s) @ escape (drop n s))"
  by pat_completeness auto
termination by (relation "measure length") auto

declare escape.simps [simp del]

definition json_string :: "string \<Rightarrow> string" where
  "json_string s = quote_char # escape s @ [quote_char]"

text \<open>An object from keys and encoded values.\<close>

fun json_members :: "(string \<times> string) list \<Rightarrow> string" where
  "json_members [] = []"
| "json_members [(k, v)] = json_string k @ '':'' @ v"
| "json_members ((k, v) # m # ms) = json_string k @ '':'' @ v @ '','' @ json_members (m # ms)"

definition json_object :: "(string \<times> string) list \<Rightarrow> string" where
  "json_object ms = ''{'' @ json_members ms @ ''}''"

text \<open>A map is written in the order of its keys.\<close>

definition json_map :: "string go_map \<Rightarrow> string" where
  "json_map m = json_object (map (\<lambda>(k, v). (k, json_string v)) (sort_key fst m))"

section \<open>The sink\<close>

type_synonym sixDecimalPlacesFloat = float64

definition sixDecimalPlacesFloat_MarshalJSON :: "sixDecimalPlacesFloat \<Rightarrow> string" where
  "sixDecimalPlacesFloat_MarshalJSON f = [] @ go_FormatFloat6 f"

record logLine =
  Level :: string
  Timestamp :: sixDecimalPlacesFloat
  Logger :: string
  Message :: string
  JSON :: "string go_map"

definition json_logLine :: "logLine \<Rightarrow> string" where
  "json_logLine l =
     json_object
       [(''level'', json_string (Level l)),
        (''ts'', sixDecimalPlacesFloat_MarshalJSON (Timestamp l)),
        (''logger'', json_string (Logger l)),
        (''msg'', json_string (Message l)),
        (''json'', json_map (JSON l))]"

text \<open>The sink's writer, as the list of what it was given, call by call.\<close>

record loggingSink =
  log_writes :: "string list"

definition NewLoggingSink :: loggingSink where
  "NewLoggingSink = \<lparr>log_writes = []\<rparr>"

text \<open>
  \<open>Encode\<close> writes the value and a newline at once, or nothing when the marshaller returns no valid
  JSON, as for a number that is not finite.
\<close>

definition Encode :: "logLine \<Rightarrow> loggingSink \<Rightarrow> loggingSink" where
  "Encode l s =
     (if f64_is_nan (Timestamp l) \<or> f64_is_inf (Timestamp l) then s
      else s\<lparr>log_writes := log_writes s @ [json_logLine l @ [newline]]\<rparr>)"

definition emptyMap :: "string go_map" where
  "emptyMap = []"

definition Second :: int where "Second = 1000000000"

definition logMessage :: "string \<Rightarrow> string \<Rightarrow> int \<Rightarrow> loggingSink \<Rightarrow> loggingSink" where
  "logMessage level msg nanos s =
     (let sec = f64_div (f64_of_int nanos) (f64_of_int Second)
      in Encode \<lparr>Level = level, Timestamp = sec, Logger = ''gostats.loggingsink'', Message = msg,
                 JSON = emptyMap\<rparr> s)"

definition logging_log :: "string \<Rightarrow> string \<Rightarrow> float64 \<Rightarrow> int \<Rightarrow> loggingSink \<Rightarrow> loggingSink" where
  "logging_log name typ value nanos s =
     (let sec = f64_div (f64_of_int nanos) (f64_of_int Second);
          kv = [(''type'', typ), (''value'', go_FormatFloat6 value)];
          kv = (if name \<noteq> '''' then kv @ [(''name'', name)] else kv)
      in Encode \<lparr>Level = ''debug'', Timestamp = sec, Logger = ''gostats.loggingsink'',
                 Message = ''flushing '' @ typ, JSON = kv\<rparr> s)"

definition logging_FlushCounter :: "string \<Rightarrow> u64 \<Rightarrow> int \<Rightarrow> loggingSink \<Rightarrow> loggingSink" where
  "logging_FlushCounter name value = logging_log name ''counter'' (f64_of_int (uint value))"

definition logging_FlushGauge :: "string \<Rightarrow> u64 \<Rightarrow> int \<Rightarrow> loggingSink \<Rightarrow> loggingSink" where
  "logging_FlushGauge name value = logging_log name ''gauge'' (f64_of_int (uint value))"

definition logging_FlushTimer :: "string \<Rightarrow> float64 \<Rightarrow> int \<Rightarrow> loggingSink \<Rightarrow> loggingSink" where
  "logging_FlushTimer name value = logging_log name ''timer'' value"

definition logging_Flush :: "int \<Rightarrow> loggingSink \<Rightarrow> loggingSink" where
  "logging_Flush = logging_log '''' ''all stats'' (f64_of_int 0)"

definition logging_Errorf :: "string \<Rightarrow> int \<Rightarrow> loggingSink \<Rightarrow> loggingSink" where
  "logging_Errorf msg = logMessage ''error'' msg"

definition logging_Warnf :: "string \<Rightarrow> int \<Rightarrow> loggingSink \<Rightarrow> loggingSink" where
  "logging_Warnf msg = logMessage ''warn'' msg"

text \<open>All the calls the sink takes.\<close>

datatype log_call = Sink_call sink_call | Errorf string | Warnf string

definition logging_receive :: "log_call \<Rightarrow> int \<Rightarrow> loggingSink \<Rightarrow> loggingSink" where
  "logging_receive c =
     (case c of
        Sink_call k \<Rightarrow>
          (case k of
             FlushCounter n v \<Rightarrow> logging_FlushCounter n v
           | FlushGauge n v \<Rightarrow> logging_FlushGauge n v
           | FlushTimer n w \<Rightarrow> logging_FlushTimer n w
           | FlushSink \<Rightarrow> logging_Flush)
      | Errorf m \<Rightarrow> logging_Errorf m
      | Warnf m \<Rightarrow> logging_Warnf m)"

end
