(* ===== verification/Log_Reader.thy ===== *)
theory Log_Reader
  imports LoggingSink
begin

text \<open>
  A reader of the lines of the logging sink: of JSON strings, of an object of strings, and of the fields
  of a line.
\<close>

section \<open>Bytes\<close>

lemma char_of_code: "n < 256 \<Longrightarrow> n = byte c \<Longrightarrow> char_of n = c"
  by (simp add: char_of_eq_iff take_bit_eq_mod)

text \<open>The bytes of the sequences that \<open>rune_len\<close> recognises.\<close>

lemma lead_bounds: "lead b = Some (n, lo, hi) \<Longrightarrow> 2 \<le> n \<and> 128 \<le> lo \<and> 128 \<le> b"
  by (auto simp: lead_def split: if_splits)

lemma rune_len_Cons:
  assumes "rune_len bs \<noteq> 0" and "rune_len bs \<noteq> 1"
  obtains b lo hi where "bs = b # tl bs" "128 \<le> b" "2 \<le> rune_len bs" "rune_len bs \<le> length bs" "128 \<le> lo" "lo \<le> bs ! 1"
    "\<forall>c \<in> set (take (rune_len bs - 2) (drop 2 bs)). 128 \<le> c"
proof (cases bs)
  case (Cons b cs)
  then have b: "\<not> b < 128" using assms by (auto simp: rune_len_def)
  then obtain n lo hi where l: "lead b = Some (n, lo, hi)"
    "n \<le> length bs \<and> lo \<le> bs ! 1 \<and> bs ! 1 \<le> hi \<and> (\<forall>c \<in> set (take (n - 2) (drop 2 bs)). 128 \<le> c \<and> c \<le> 191)"
    using assms Cons by (auto simp: rune_len_def split: option.splits if_splits)
  then have "rune_len bs = n" using b Cons by (simp add: rune_len_def)
  then show ?thesis using that [of b lo] lead_bounds [OF l(1)] l(2) Cons by auto
qed (use assms in \<open>simp add: rune_len_def\<close>)

lemma rune_len_one: "rune_len (map byte (c # cs)) = 1 \<longleftrightarrow> byte c < 128"
  using lead_bounds [of "byte c"] by (auto simp: rune_len_def split: option.split)

lemma rune_len_le: "rune_len bs \<le> length bs"
proof -
  consider "rune_len bs = 0" | "rune_len bs = 1" | "rune_len bs \<noteq> 0" "rune_len bs \<noteq> 1" by blast
  then show ?thesis
  proof cases
    case 2
    then show ?thesis by (cases bs) (auto simp: rune_len_def)
  next
    case 3
    then show ?thesis by (rule rune_len_Cons)
  qed simp
qed

lemma rune_len_high:
  assumes "rune_len bs \<noteq> 0" and "rune_len bs \<noteq> 1" and "i < rune_len bs"
  shows "128 \<le> bs ! i"
proof -
  obtain b lo hi where r: "bs = b # tl bs" "128 \<le> b" "2 \<le> rune_len bs" "rune_len bs \<le> length bs" "128 \<le> lo" "lo \<le> bs ! 1"
    "\<forall>c \<in> set (take (rune_len bs - 2) (drop 2 bs)). 128 \<le> c"
    by (rule rune_len_Cons [OF assms(1,2)])
  consider "i = 0" | "i = 1" | "2 \<le> i" by linarith
  then show ?thesis
  proof cases
    case 1
    have "bs ! 0 = b" by (subst r(1)) simp
    then show ?thesis using 1 r(2) by simp
  next
    case 3
    then obtain j where j: "i = 2 + j" by (auto simp: le_iff_add)
    then have "take (rune_len bs - 2) (drop 2 bs) ! j = bs ! i" "j < length (take (rune_len bs - 2) (drop 2 bs))"
      using assms(3) r(4) by simp_all
    then show ?thesis using r(7) nth_mem by metis
  qed (use r(5,6) in simp)
qed

lemma rune_bytes_high:
  assumes "rune_len (map byte s) \<noteq> 0" and "rune_len (map byte s) \<noteq> 1"
    and "c \<in> set (take (rune_len (map byte s)) s)"
  shows "128 \<le> byte c"
proof -
  let ?n = "rune_len (map byte s)"
  have n: "?n \<le> length s" using rune_len_le [of "map byte s"] by simp
  obtain i where "i < ?n" "c = s ! i" using assms(3) n by (auto simp: in_set_conv_nth)
  then show ?thesis using rune_len_high [OF assms(1,2), of i] n by simp
qed

section \<open>Strings\<close>

definition hex_val :: "char \<Rightarrow> nat option" where
  "hex_val c =
     (let b = byte c in
      if 48 \<le> b \<and> b \<le> 57 then Some (b - 48)
      else if 97 \<le> b \<and> b \<le> 102 then Some (b - 87)
      else if 65 \<le> b \<and> b \<le> 70 then Some (b - 55)
      else None)"

definition utf8_encode :: "nat \<Rightarrow> string" where
  "utf8_encode n =
     (if n < 0x80 then [char_of n]
      else if n < 0x800 then [char_of (0xC0 + n div 64), char_of (0x80 + n mod 64)]
      else [char_of (0xE0 + n div 4096), char_of (0x80 + n div 64 mod 64), char_of (0x80 + n mod 64)])"

definition simple_escape :: "char \<Rightarrow> char option" where
  "simple_escape e =
     map_of [(quote_char, quote_char), (backslash, backslash), (CHR ''/'', CHR ''/''), (CHR ''b'', CHR 0x08),
       (CHR ''f'', CHR 0x0C), (CHR ''n'', CHR 0x0A), (CHR ''r'', CHR 0x0D), (CHR ''t'', CHR 0x09)] e"

definition prepend :: "string \<Rightarrow> (string \<times> string) option \<Rightarrow> (string \<times> string) option" where
  "prepend p = map_option (\<lambda>(t, r). (p @ t, r))"

text \<open>What follows an opening quote: the content of the string, and the rest after the closing quote.\<close>

function scan :: "string \<Rightarrow> (string \<times> string) option" where
  "scan s =
     (case s of
        [] \<Rightarrow> None
      | c # cs \<Rightarrow>
          if c = quote_char then Some ([], cs)
          else if c = backslash
          then (case cs of
                  [] \<Rightarrow> None
                | e # es \<Rightarrow>
                    if e = CHR ''u''
                    then (case map hex_val (take 4 es) of
                            [Some x1, Some x2, Some x3, Some x4] \<Rightarrow>
                              prepend (utf8_encode (x1 * 4096 + x2 * 256 + x3 * 16 + x4)) (scan (drop 4 es))
                          | _ \<Rightarrow> None)
                    else (case simple_escape e of None \<Rightarrow> None | Some d \<Rightarrow> prepend [d] (scan es)))
          else if byte c < 32 then None
          else prepend [c] (scan cs))"
  by pat_completeness auto
termination by (relation "measure length") auto

declare scan.simps [simp del]

definition read_string :: "string \<Rightarrow> (string \<times> string) option" where
  "read_string s = (case s of [] \<Rightarrow> None | c # cs \<Rightarrow> if c = quote_char then scan cs else None)"

text \<open>What remains of a string: bytes that are not valid UTF-8 turn into U+FFFD.\<close>

function to_valid :: "string \<Rightarrow> string" where
  "to_valid s =
     (case s of
        [] \<Rightarrow> []
      | c # cs \<Rightarrow>
          let n = rune_len (map byte s) in
          if n = 0 then [CHR 0xEF, CHR 0xBF, CHR 0xBD] @ to_valid cs
          else take n s @ to_valid (drop n s))"
  by pat_completeness auto
termination by (relation "measure length") auto

declare to_valid.simps [simp del]

lemma to_valid_Nil [simp]: "to_valid [] = []"
  by (simp add: to_valid.simps)

lemma to_valid_ascii: "\<forall>c \<in> set s. byte c < 128 \<Longrightarrow> to_valid s = s"
proof (induction s)
  case (Cons c cs)
  then show ?case using rune_len_one [of c cs] by (simp add: to_valid.simps [of "c # cs"])
qed simp

lemma scan_plain:
  "32 \<le> byte c \<Longrightarrow> c \<noteq> quote_char \<Longrightarrow> c \<noteq> backslash \<Longrightarrow> scan (c # x) = prepend [c] (scan x)"
  by (simp add: scan.simps [of "c # x"])

lemma prepend_prepend: "prepend p (prepend q r) = prepend (p @ q) r"
  by (cases r) (auto simp: prepend_def)

lemma prepend_Nil [simp]: "prepend [] r = r"
  by (cases r) (auto simp: prepend_def)

lemma scan_high: "\<forall>c \<in> set r. 128 \<le> byte c \<Longrightarrow> scan (r @ x) = prepend r (scan x)"
proof (induction r)
  case (Cons c r)
  then have "32 \<le> byte c" "c \<noteq> quote_char" "c \<noteq> backslash" by auto
  then show ?case using Cons by (simp add: scan_plain prepend_prepend)
qed simp

lemma hex_digits: "k < 16 \<Longrightarrow> hex_val (hex_digit k) = Some k"
  by (simp add: hex_val_def hex_digit_def)

lemma scan_u:
  assumes "x1 < 16" "x2 < 16" "x3 < 16" "x4 < 16"
    and "hs = [hex_digit x1, hex_digit x2, hex_digit x3, hex_digit x4]"
  shows "scan (backslash # CHR ''u'' # hs @ x) =
           prepend (utf8_encode (x1 * 4096 + x2 * 256 + x3 * 16 + x4)) (scan x)"
  using assms by (simp add: scan.simps [of "backslash # y" for y] hex_digits)

lemma hex_digit_chars:
  "hex_digit 0 = CHR ''0''" "hex_digit 2 = CHR ''2''" "hex_digit 8 = CHR ''8''" "hex_digit 9 = CHR ''9''"
  "hex_digit 13 = CHR ''d''" "hex_digit 15 = CHR ''f''"
  by (simp_all add: hex_digit_def char_of_code)

lemma scan_escape_ascii:
  assumes "byte c < 128"
  shows "scan (escape_ascii c @ x) = prepend [c] (scan x)"
proof -
  consider (simple) "c \<in> {quote_char, backslash, CHR 0x0A, CHR 0x0D, CHR 0x09}"
    | (hex) "escape_ascii c = backslash # ''u00'' @ [hex_digit (byte c div 16), hex_digit (byte c mod 16)]"
    | (plain) "escape_ascii c = [c]" "32 \<le> byte c" "c \<noteq> quote_char" "c \<noteq> backslash"
  proof -
    assume c: "c \<in> {quote_char, backslash, CHR 0x0A, CHR 0x0D, CHR 0x09} \<Longrightarrow> thesis"
      "escape_ascii c = backslash # ''u00'' @ [hex_digit (byte c div 16), hex_digit (byte c mod 16)] \<Longrightarrow> thesis"
      "escape_ascii c = [c] \<Longrightarrow> 32 \<le> byte c \<Longrightarrow> c \<noteq> quote_char \<Longrightarrow> c \<noteq> backslash \<Longrightarrow> thesis"
    show thesis
    proof (cases "c \<in> {quote_char, backslash, CHR 0x0A, CHR 0x0D, CHR 0x09}")
      case False
      show thesis
      proof (cases "byte c < 0x20 \<or> c = CHR ''<'' \<or> c = CHR ''>'' \<or> c = CHR ''&''")
        case True
        show thesis by (rule c(2)) (use False True in \<open>simp only: escape_ascii_def insert_iff empty_iff if_False if_True de_Morgan_disj simp_thms\<close>)
      next
        case plain: False
        show thesis
          by (rule c(3)) (use False plain in \<open>simp_all add: escape_ascii_def\<close>)
      qed
    qed (rule c(1))
  qed
  then show ?thesis
  proof cases
    case simple
    have "scan ([backslash, e] @ x) = prepend [d] (scan x)"
      if "simple_escape e = Some d" "e \<noteq> CHR ''u''" for d e
      using that by (simp add: scan.simps [of "backslash # y" for y])
    then show ?thesis using simple by (auto simp: escape_ascii_def simple_escape_def)
  next
    case hex
    then have "escape_ascii c =
        backslash # CHR ''u'' # [hex_digit 0, hex_digit 0, hex_digit (byte c div 16), hex_digit (byte c mod 16)]"
      by (simp add: hex_digit_chars)
    moreover have "byte c div 16 < 16" "byte c mod 16 < 16" using assms by simp_all
    moreover have "byte c div 16 * 16 + byte c mod 16 = byte c" by simp
    ultimately show ?thesis using assms scan_u [of 0 0 "byte c div 16" "byte c mod 16" _ x]
      by (simp add: utf8_encode_def)
  next
    case plain
    then show ?thesis by (simp add: scan_plain)
  qed
qed

lemma utf8_chars:
  "utf8_encode (2 * 4096 + 0 * 256 + 2 * 16 + 8) = [CHR 0xE2, CHR 0x80, CHR 0xA8]"
  "utf8_encode (2 * 4096 + 0 * 256 + 2 * 16 + 9) = [CHR 0xE2, CHR 0x80, CHR 0xA9]"
  "utf8_encode (15 * 4096 + 15 * 256 + 15 * 16 + 13) = [CHR 0xEF, CHR 0xBF, CHR 0xBD]"
  by (simp_all add: utf8_encode_def char_of_code)

lemma scan_escape_rune:
  assumes "\<forall>c \<in> set r. 128 \<le> byte c"
  shows "scan (escape_rune r @ x) = prepend r (scan x)"
  using scan_u [of 2 0 2 8 _ x] scan_u [of 2 0 2 9 _ x] scan_high [OF assms]
  unfolding hex_digit_chars utf8_chars by (simp add: escape_rune_def)

lemma scan_escape: "scan (escape s @ quote_char # x) = Some (to_valid s, x)"
proof (induction s rule: escape.induct)
  case (1 s)
  show ?case
  proof (cases s)
    case Nil
    then show ?thesis by (simp add: escape.simps [of "[]"] scan.simps [of "quote_char # x"])
  next
    case (Cons c cs)
    let ?n = "rune_len (map byte s)"
    consider (invalid) "?n = 0" | (ascii) "?n = 1" | (rune) "?n \<noteq> 0" "?n \<noteq> 1" by blast
    then show ?thesis
    proof cases
      case invalid
      have IH: "scan (escape cs @ quote_char # x) = Some (to_valid cs, x)"
        using 1(1) [OF Cons refl invalid] .
      show ?thesis
        using scan_u [of 15 15 15 13 _ "escape cs @ quote_char # x"] invalid IH unfolding hex_digit_chars utf8_chars
        by (simp add: Cons escape.simps [of "c # cs"] to_valid.simps [of "c # cs"] prepend_def)
    next
      case ascii
      then have c: "byte c < 128" using rune_len_one [of c cs] Cons by simp
      have IH: "scan (escape cs @ quote_char # x) = Some (to_valid cs, x)"
        using 1(2) [OF Cons refl _ ascii] ascii by simp
      show ?thesis using scan_escape_ascii [OF c] ascii IH
        by (simp add: Cons escape.simps [of "c # cs"] to_valid.simps [of "c # cs"] prepend_def)
    next
      case rune
      have IH: "scan (escape (drop ?n s) @ quote_char # x) = Some (to_valid (drop ?n s), x)"
        using 1(3) [OF Cons refl rune] .
      have "\<forall>c \<in> set (take ?n s). 128 \<le> byte c" using rune_bytes_high [OF rune] by blast
      from scan_escape_rune [OF this, of "escape (drop ?n s) @ quote_char # x"] show ?thesis
        using rune IH unfolding Cons
        by (simp add: escape.simps [of "c # cs"] to_valid.simps [of "c # cs"] prepend_def Let_def)
    qed
  qed
qed

end
