(* ===== verification/Float_Quot.thy ===== *)
theory Float_Quot
  imports Float_Ops
begin

text \<open>
  The conversion of large integers and the quotients of integers: how far the result is from the exact
  value.
\<close>

section \<open>Quotients of whole numbers\<close>

lemma f64_of_nat_round:
  assumes "n > 0"
  shows "bit_length n \<le> 900 \<Longrightarrow> f64_of_nat n = f64_round (n * 2 ^ 1074)"
proof (cases "n < 2 ^ 53")
  case True
  then show ?thesis by (simp only: f64_round_of_nat)
next
  case False
  assume L900: "bit_length n \<le> 900"
  define P :: nat where "P = 2 ^ 1074"
  let ?L = "bit_length n"
  note l = long_quotient [OF False]
  have L: "\<not> ?L \<le> 53" using l(1,2) False bit_length_bounds [OF assms] power_increasing [of ?L 53 "2 :: nat"] by auto
  have P: "P > 0" "bit_length (n * P) = ?L + 1074"
    using bit_length_shift [OF assms, of 1074] by (simp_all only: P_def zero_less_power zero_less_numeral)
  have r: "round_half_even (n * P) (?L + 1021) = round_half_even n (?L - 53)"
  proof -
    have e: "?L + 1021 = (?L - 53) + 1074" using L by simp
    show ?thesis unfolding round_half_even_ratio e power_add P_def [symmetric] by (rule round_ratio_scale [OF P(1)])
  qed
  have "\<not> n * P < 2 ^ 53" using False P(1) mult_le_mono [of "2 ^ 53" n 1 P] by simp
  moreover have "bit_length (n * P) - 53 = ?L + 1021" using P(2) by simp
  moreover have "round_half_even n (?L - 53) \<le> 2 ^ 53"
  proof -
    have "round_half_even n (?L - 53) \<le> n div 2 ^ (?L - 53) + 1"
      unfolding round_half_even_ratio by (rule round_ratio_between)
    then show ?thesis using l(3) by simp
  qed
  then have "(?L + 1021) * 2 ^ 52 + round_half_even n (?L - 53) \<le> 2047 * 2 ^ 52" using L900 by simp
  ultimately have "f64_round (n * P) = (?L + 1021) * 2 ^ 52 + round_half_even n (?L - 53)"
    by (simp only: f64_round_def Let_def if_False r min_absorb1)
  then show ?thesis using L assms unfolding P_def f64_of_nat_def Let_def by simp
qed

lemma f64_of_int_round:
  assumes "bit_length (nat \<bar>i\<bar>) \<le> 900"
  shows "f64_of_int i = of_nat ((if i < 0 then 2 ^ 63 else 0) + f64_round (nat \<bar>i\<bar> * 2 ^ 1074))"
proof (cases "i = 0")
  case True
  then show ?thesis by (simp add: f64_of_int_def f64_of_nat_def f64_round_def)
next
  case False
  then have "nat \<bar>i\<bar> > 0" by simp
  note r = f64_of_nat_round [OF this assms, symmetric]
  show ?thesis unfolding r using False by (simp add: f64_of_int_def abs_if)
qed

lemma f64_of_int_units:
  assumes "bit_length (nat \<bar>i\<bar>) \<le> 900"
  shows "f64_units (f64_of_int i) = ratio_units (nat \<bar>i\<bar> * 2 ^ 1074) 1"
    and "\<not> f64_is_nan (f64_of_int i)" and "\<not> f64_is_inf (f64_of_int i)" and "f64_sign (f64_of_int i) \<longleftrightarrow> i < 0"
proof -
  define k where "k = nat \<bar>i\<bar> * 2 ^ 1074"
  have e: "f64_of_int i = of_nat ((if i < 0 then 2 ^ 63 else 0) + f64_round_ratio k 1)"
    using f64_of_int_round [OF assms] f64_round_ratio_whole [of 1 k] by (simp add: k_def)
  have "bit_length k \<le> bit_length (nat \<bar>i\<bar>) + 1074"
    unfolding k_def by (cases "nat \<bar>i\<bar> = 0") (simp_all only: mult_0 bit_length_0 le0 bit_length_shift order_refl neq0_conv)
  then have "bit_length (k div 1) < 2040" using assms by simp
  note r = f64_ratio [OF this, of "if i < 0 then 2 ^ 63 else 0"]
  show "f64_units (f64_of_int i) = ratio_units (nat \<bar>i\<bar> * 2 ^ 1074) 1" "\<not> f64_is_nan (f64_of_int i)"
    "\<not> f64_is_inf (f64_of_int i)" "f64_sign (f64_of_int i) \<longleftrightarrow> i < 0"
    unfolding e k_def [symmetric] using r by simp_all
qed

text \<open>The quotient of an \<open>int64\<close> and a thousand million is right to about two millionths.\<close>

lemma quotient_error:
  fixes N u U P :: rat
  assumes "0 \<le> N" "N \<le> 2 ^ 63" "2 ^ 53 \<le> P"
    and "\<bar>u - N * P\<bar> \<le> 1 / 2 + N * P / 2 ^ 53" and "\<bar>U - u / 10 ^ 9\<bar> \<le> 1 / 2 + u / 10 ^ 9 / 2 ^ 53"
  shows "\<bar>U / P - N / 10 ^ 9\<bar> \<le> 21 / 10 ^ 7"
proof -
  define v V h where "v = u / P" and "V = U / P" and "h = 1 / P"
  have P: "P > 0" using assms(3) by (rule less_le_trans [rotated]) simp
  have h: "0 < h" "h \<le> 1 / 2 ^ 53" using P assms(3) by (simp_all add: h_def frac_le)
  have "v - N = (u - N * P) / P" using P by (simp add: v_def diff_divide_distrib)
  then have "\<bar>v - N\<bar> = \<bar>u - N * P\<bar> / P" using P by simp
  also have "\<dots> \<le> (1 / 2 + N * P / 2 ^ 53) / P" using assms(4) P by (simp add: divide_right_mono)
  also have "\<dots> = h / 2 + N / 2 ^ 53" using P by (simp add: h_def add_divide_distrib)
  finally have v: "\<bar>v - N\<bar> \<le> h / 2 + N / 2 ^ 53" .
  have "V - v / 10 ^ 9 = (U - u / 10 ^ 9) / P" by (simp add: V_def v_def diff_divide_distrib)
  then have "\<bar>V - v / 10 ^ 9\<bar> = \<bar>U - u / 10 ^ 9\<bar> / P" using P by simp
  also have "\<dots> \<le> (1 / 2 + u / 10 ^ 9 / 2 ^ 53) / P" using assms(5) P by (simp add: divide_right_mono)
  also have "\<dots> = h / 2 + v / 10 ^ 9 / 2 ^ 53" by (simp add: h_def v_def add_divide_distrib)
  finally have V: "\<bar>V - v / 10 ^ 9\<bar> \<le> h / 2 + v / 10 ^ 9 / 2 ^ 53" .
  have "v - N \<le> h / 2 + N / 2 ^ 53" "N - v \<le> h / 2 + N / 2 ^ 53"
    "V - v / 10 ^ 9 \<le> h / 2 + v / 10 ^ 9 / 2 ^ 53" "v / 10 ^ 9 - V \<le> h / 2 + v / 10 ^ 9 / 2 ^ 53"
    using v V by (simp_all only: abs_le_iff minus_diff_eq)
  then have "V - N / 10 ^ 9 \<le> 21 / 10 ^ 7" "- (V - N / 10 ^ 9) \<le> 21 / 10 ^ 7"
    using h assms(1,2) by simp_all
  then show ?thesis unfolding V_def [symmetric] by (simp only: abs_le_iff)
qed

theorem f64_div_billion:
  assumes "\<bar>i\<bar> \<le> 2 ^ 63"
  defines "w \<equiv> f64_div (f64_of_int i) (f64_of_int 1000000000)"
  shows "\<exists>x. f64_val w = Some x \<and> \<bar>x - of_int i / 10 ^ 9\<bar> \<le> 21 / 10 ^ 7"
proof -
  define P :: nat where "P = 2 ^ 1074"
  define n where "n = nat \<bar>i\<bar>"
  define sb where "sb = (if i < 0 then 2 ^ 63 else 0 :: nat)"
  have P: "P > 0" "(2 :: rat) ^ 53 \<le> of_nat P"
  proof -
    show "P > 0" by (simp add: P_def)
    have "(2 :: nat) ^ 53 \<le> P" unfolding P_def by (rule power_increasing) simp_all
    then have "of_nat (2 ^ 53) \<le> (of_nat P :: rat)" by (simp only: of_nat_le_iff)
    then show "(2 :: rat) ^ 53 \<le> of_nat P" by simp
  qed
  have n: "n \<le> 2 ^ 63" using assms(1) by (simp add: n_def nat_le_iff)
  then have bl: "bit_length n \<le> 64" by (intro bit_length_le) simp
  then have "bit_length (nat \<bar>i\<bar>) \<le> 900" by (simp add: n_def)
  note f = f64_of_int_units [OF this, folded n_def P_def]
  have "\<bar>1000000000 :: int\<bar> < 2 ^ 53" by simp
  note g = f64_of_int_fields [OF this]
  have "int (f64_units (f64_of_int 1000000000)) = f64_signed_units (f64_of_int 1000000000)"
    using g(3) by (simp add: f64_signed_units_def)
  also have "\<dots> = int (10 ^ 9 * P)" unfolding g(4) P_def of_nat_mult of_nat_power of_nat_numeral by simp
  finally have d: "f64_units (f64_of_int 1000000000) = 10 ^ 9 * P" by (simp only: of_nat_eq_iff)
  define u where "u = ratio_units (n * P) 1"
  define U where "U = ratio_units (u * P) (10 ^ 9 * P)"
  have pos: "0 < (10 :: nat) ^ 9 * P" using P(1) by simp
  have near_u: "\<bar>of_nat u - of_nat n * of_nat P\<bar> \<le> (1 / 2 + of_nat n * of_nat P / 2 ^ 53 :: rat)"
    using ratio_units_near [of 1 "n * P"] by (simp add: u_def)
  have "of_nat (u * P) / of_nat (10 ^ 9 * P) = (of_nat u / 10 ^ 9 :: rat)" using P(1) by simp
  then have near_U: "\<bar>of_nat U - of_nat u / 10 ^ 9\<bar> \<le> (1 / 2 + of_nat u / 10 ^ 9 / 2 ^ 53 :: rat)"
    using ratio_units_near [OF pos, of "u * P"] by (simp only: U_def)
  have "of_nat n \<le> (2 ^ 63 :: rat)" using n by (metis of_nat_le_iff of_nat_numeral of_nat_power)
  from quotient_error [OF _ this P(2) near_u near_U] have err: "\<bar>of_nat U / of_nat P - of_nat n / 10 ^ 9\<bar> \<le> (21 / 10 ^ 7 :: rat)"
    by simp
  have "u \<le> n * P + n * P + 1"
  proof -
    define x :: rat where "x = of_nat n * of_nat P"
    have "0 \<le> x" by (simp add: x_def)
    then have "x / 2 ^ 53 \<le> x" by simp
    moreover have "of_nat u - x \<le> 1 / 2 + x / 2 ^ 53" using near_u by (simp only: abs_le_iff x_def)
    ultimately have "of_nat u \<le> x + x + 1" by linarith
    then have "of_nat u \<le> (of_nat (n * P + n * P + 1) :: rat)" by (simp only: x_def of_nat_add of_nat_mult of_nat_1)
    then show ?thesis by (simp only: of_nat_le_iff)
  qed
  have "u * P div (10 ^ 9 * P) < 2 ^ (1074 + 66)"
  proof -
    have "u * P div (10 ^ 9 * P) = u div 10 ^ 9" using P(1) by simp
    also have "\<dots> \<le> u" by (rule div_le_dividend)
    also have "\<dots> \<le> n * P + n * P + 1" by fact
    also have "\<dots> \<le> 2 ^ 63 * P + 2 ^ 63 * P + 1" using mult_le_mono1 [OF n, of P] by (simp only: add_le_mono order_refl)
    also have "\<dots> < P * 2 ^ 66" using P(1) by simp
    also have "\<dots> = 2 ^ (1074 + 66)" by (simp only: P_def power_add)
    finally show ?thesis .
  qed
  then have "bit_length (u * P div (10 ^ 9 * P)) \<le> 1074 + 66" by (rule bit_length_le)
  then have blq: "bit_length (u * P div (10 ^ 9 * P)) < 2040" by simp
  have sign: "(f64_sign (f64_of_int i) \<noteq> f64_sign (f64_of_int 1000000000)) = (i < 0)" using f(4) g(3) by simp
  have "(10 ^ 9 * P = 0) = False" using P(1) by simp
  then have w: "w = of_nat (sb + f64_round_ratio (u * P) (10 ^ 9 * P))"
    using f(2,3) g(1,2) unfolding w_def f64_div_def Let_def sign d f(1) u_def sb_def P_def
    by (simp only: if_False simp_thms)
  have "sb = 0 \<or> sb = 2 ^ 63" by (simp add: sb_def)
  note r = f64_ratio [OF blq this, folded w U_def]
  have "f64_val w = Some (of_int (f64_signed_units w) / of_nat P)"
    using f64_val_units [OF r(2,3)] by (simp only: P_def of_nat_power of_nat_numeral)
  moreover have "f64_signed_units w = (if i < 0 then - int U else int U)"
    using r(1,4) by (simp add: f64_signed_units_def sb_def)
  moreover have "of_int i = (if i < 0 then - of_nat n else of_nat n :: rat)" by (simp add: n_def)
  ultimately show ?thesis using err by (cases "i < 0") (simp_all add: abs_minus_commute)
qed

end
