(* ===== verification/Logging_Props.thy ===== *)
theory Logging_Props
  imports Log_Reader Float_Quot
begin

text \<open>The lines of the logging sink are read back.\<close>

section \<open>No control characters\<close>

lemma escape_ascii_printable: "byte c < 128 \<Longrightarrow> \<forall>d \<in> set (escape_ascii c). 32 \<le> byte d"
  by (auto simp: escape_ascii_def hex_digit_def)

lemma escape_printable: "\<forall>d \<in> set (escape s). 32 \<le> byte d"
proof (induction s rule: escape.induct)
  case (1 s)
  show ?case
  proof (cases s)
    case Nil
    then show ?thesis by (simp add: escape.simps [of "[]"])
  next
    case (Cons c cs)
    let ?n = "rune_len (map byte s)"
    consider (invalid) "?n = 0" | (ascii) "?n = 1" | (rune) "?n \<noteq> 0" "?n \<noteq> 1" by blast
    then show ?thesis
    proof cases
      case invalid
      then show ?thesis using 1(1) [OF Cons refl] by (simp add: Cons escape.simps [of "c # cs"])
    next
      case ascii
      then have "byte c < 128" using rune_len_one [of c cs] Cons by simp
      from escape_ascii_printable [OF this] show ?thesis using 1(2) [OF Cons refl _ ascii] ascii
        by (auto simp: Cons escape.simps [of "c # cs"])
    next
      case rune
      have "\<forall>d \<in> set (take ?n s). 32 \<le> byte d" using rune_bytes_high [OF rune] by fastforce
      then have "\<forall>d \<in> set (escape_rune (take ?n s)). 32 \<le> byte d" by (simp add: escape_rune_def)
      then show ?thesis using 1(3) [OF Cons refl rune] rune
        by (auto simp: Cons escape.simps [of "c # cs"] Let_def)
    qed
  qed
qed

definition printable :: "string \<Rightarrow> bool" where
  "printable s \<longleftrightarrow> (\<forall>c \<in> set s. 32 \<le> byte c)"

lemma printable_simps [simp]:
  "printable []" "printable (c # s) \<longleftrightarrow> 32 \<le> byte c \<and> printable s"
  "printable (s @ t) \<longleftrightarrow> printable s \<and> printable t"
  by (auto simp: printable_def)

lemma printable_json_string [simp]: "printable (json_string s)"
  using escape_printable [of s] by (simp add: json_string_def printable_def)

lemma printable_members: "\<forall>(k, v) \<in> set ms. printable v \<Longrightarrow> printable (json_members ms)"
  by (induction ms rule: json_members.induct) auto

lemma printable_newline: "printable s \<Longrightarrow> newline \<notin> set s"
  by (auto simp: printable_def)

section \<open>Reading an object and a line\<close>

definition expect :: "string \<Rightarrow> string \<Rightarrow> string option" where
  "expect p s = (if take (length p) s = p then Some (drop (length p) s) else None)"

lemma expect_append [simp]: "expect p (p @ s) = Some s"
  by (simp add: expect_def)

lemma expect_Cons [simp]: "expect [c] (c # s) = Some s"
  by (simp add: expect_def)

lemma read_string_json [simp]: "read_string (json_string k @ x) = Some (to_valid k, x)"
  by (simp add: read_string_def json_string_def scan_escape)

fun read_members :: "nat \<Rightarrow> string \<Rightarrow> ((string \<times> string) list \<times> string) option" where
  "read_members 0 s = None"
| "read_members (Suc n) s = do {
     (k, s) \<leftarrow> read_string s;
     s \<leftarrow> expect '':'' s;
     (v, s) \<leftarrow> read_string s;
     (case expect '','' s of
        Some s \<Rightarrow> do { (ms, s) \<leftarrow> read_members n s; Some ((k, v) # ms, s) }
      | None \<Rightarrow> do { s \<leftarrow> expect ''}'' s; Some ([(k, v)], s) })
   }"

definition read_object :: "string \<Rightarrow> ((string \<times> string) list \<times> string) option" where
  "read_object s = do {
     s \<leftarrow> expect ''{'' s;
     (case expect ''}'' s of Some s \<Rightarrow> Some ([], s) | None \<Rightarrow> read_members (length s) s)
   }"

definition read_key :: "string \<Rightarrow> string \<Rightarrow> string option" where
  "read_key k s = do { (k', s) \<leftarrow> read_string s; if k' = k then expect '':'' s else None }"

text \<open>Level, time, logger, message and the members of the last field.\<close>

definition read_log :: "string \<Rightarrow> (string \<times> rat \<times> string \<times> string \<times> (string \<times> string) list) option" where
  "read_log l = do {
     s \<leftarrow> expect ''{'' l;
     s \<leftarrow> read_key ''level'' s; (level, s) \<leftarrow> read_string s; s \<leftarrow> expect '','' s;
     s \<leftarrow> read_key ''ts'' s;
     ts \<leftarrow> parse_number (takeWhile (\<lambda>c. c \<noteq> CHR '','') s);
     s \<leftarrow> expect '','' (dropWhile (\<lambda>c. c \<noteq> CHR '','') s);
     s \<leftarrow> read_key ''logger'' s; (logger, s) \<leftarrow> read_string s; s \<leftarrow> expect '','' s;
     s \<leftarrow> read_key ''msg'' s; (msg, s) \<leftarrow> read_string s; s \<leftarrow> expect '','' s;
     s \<leftarrow> read_key ''json'' s; (ms, s) \<leftarrow> read_object s;
     s \<leftarrow> expect ''}'' s;
     if s = [] then Some (level, ts, logger, msg, ms) else None
   }"

lemma read_key_json: "to_valid k = k \<Longrightarrow> read_key k (json_string k @ CHR '':'' # x) = Some x"
  by (simp add: read_key_def)

lemma read_members_json:
  assumes "ms \<noteq> []" and "length ms \<le> n"
  shows "read_members n (json_members (map (\<lambda>(k, v). (k, json_string v)) ms) @ CHR ''}'' # x) =
           Some (map (\<lambda>(k, v). (to_valid k, to_valid v)) ms, x)"
  using assms
proof (induction ms arbitrary: n)
  case (Cons m ms)
  obtain k v where m: "m = (k, v)" by (cases m)
  obtain n' where n: "n = Suc n'" using Cons.prems(2) by (cases n) auto
  show ?case
  proof (cases ms)
    case Nil
    then show ?thesis by (simp add: m n expect_def [of "'','' :: string"])
  next
    case (Cons m' ms')
    obtain k' v' where m': "m' = (k', v')" by (cases m')
    have "json_members (map (\<lambda>(k, v). (k, json_string v)) (m # ms)) =
        json_string k @ '':'' @ json_string v @ '','' @ json_members (map (\<lambda>(k, v). (k, json_string v)) ms)"
      by (simp add: Cons m m')
    moreover have "read_members n' (json_members (map (\<lambda>(k, v). (k, json_string v)) ms) @ CHR ''}'' # x) =
        Some (map (\<lambda>(k, v). (to_valid k, to_valid v)) ms, x)"
      using Cons.IH [of n'] Cons.prems(2) n Cons by simp
    ultimately show ?thesis by (simp add: n m)
  qed
qed simp

lemma json_members_length: "length ms \<le> length (json_members ms)"
  by (induction ms rule: json_members.induct) (auto simp: json_string_def)

lemma read_object_map:
  "read_object (json_map m @ x) = Some (map (\<lambda>(k, v). (to_valid k, to_valid v)) (sort_key fst m), x)"
proof (cases "sort_key fst m")
  case Nil
  then show ?thesis by (simp add: read_object_def json_map_def json_object_def)
next
  case (Cons p ps)
  let ?ms = "sort_key fst m"
  let ?js = "json_members (map (\<lambda>(k, v). (k, json_string v)) ?ms)"
  obtain k v where p: "p = (k, v)" by (cases p)
  have "hd (?js @ CHR ''}'' # x) = quote_char"
    unfolding Cons p by (cases ps) (auto simp: json_string_def)
  moreover have "length ?ms \<le> length (?js @ CHR ''}'' # x)"
    using json_members_length [of "map (\<lambda>(k, v). (k, json_string v)) ?ms"] by simp
  then have "read_members (length (?js @ CHR ''}'' # x)) (?js @ CHR ''}'' # x) =
      Some (map (\<lambda>(k, v). (to_valid k, to_valid v)) ?ms, x)"
    by (intro read_members_json) (simp_all add: Cons)
  ultimately show ?thesis
    unfolding read_object_def json_map_def json_object_def
    by (cases "?js @ CHR ''}'' # x") (simp_all add: expect_def)
qed

section \<open>Lines\<close>

text \<open>What a line says of a call.\<close>

definition named :: "string \<Rightarrow> string go_map" where
  "named n = (if n = '''' then [] else [(''name'', n)])"

fun said :: "log_call \<Rightarrow> string \<times> string \<times> string go_map" where
  "said (Errorf m) = (''error'', m, [])"
| "said (Warnf m) = (''warn'', m, [])"
| "said (Sink_call (FlushCounter n v)) =
     (''debug'', ''flushing counter'',
      named n @ [(''type'', ''counter''), (''value'', go_FormatFloat6 (f64_of_int (uint v)))])"
| "said (Sink_call (FlushGauge n v)) =
     (''debug'', ''flushing gauge'',
      named n @ [(''type'', ''gauge''), (''value'', go_FormatFloat6 (f64_of_int (uint v)))])"
| "said (Sink_call (FlushTimer n w)) =
     (''debug'', ''flushing timer'', named n @ [(''type'', ''timer''), (''value'', go_FormatFloat6 w)])"
| "said (Sink_call FlushSink) =
     (''debug'', ''flushing all stats'', [(''type'', ''all stats''), (''value'', go_FormatFloat6 (f64_of_int 0))])"

definition line_of :: "float64 \<Rightarrow> string \<times> string \<times> string go_map \<Rightarrow> string" where
  "line_of ts p =
     (case p of (level, msg, ms) \<Rightarrow>
        json_logLine \<lparr>Level = level, Timestamp = ts, Logger = ''gostats.loggingsink'', Message = msg, JSON = ms\<rparr>)"

lemma sort_fields:
  "sort_key fst [(''type'', t), (''value'', v), (''name'', n)] = [(''name'', n), (''type'', t), (''value'', v :: string)]"
  "sort_key fst [(''type'', t), (''value'', v)] = [(''type'', t), (''value'', v :: string)]"
  "sort_key fst [(''name'', n), (''type'', t), (''value'', v)] = [(''name'', n), (''type'', t), (''value'', v :: string)]"
  by (simp_all add: less_eq_char_def less_char_def)

lemma sort_said: "said c = (l, m, ms) \<Longrightarrow> sort_key fst ms = ms"
  by (cases c rule: said.cases) (auto simp: named_def sort_fields)

lemma receive_line:
  assumes "\<not> f64_is_nan (f64_div (f64_of_int nanos) (f64_of_int Second))"
    and "\<not> f64_is_inf (f64_div (f64_of_int nanos) (f64_of_int Second))"
  shows "log_writes (logging_receive c nanos s) =
           log_writes s @ [line_of (f64_div (f64_of_int nanos) (f64_of_int Second)) (said c) @ [newline]]"
  using assms
  by (cases c rule: said.cases)
    (auto simp: logging_receive_def logging_Errorf_def logging_Warnf_def logging_FlushCounter_def
      logging_FlushGauge_def logging_FlushTimer_def logging_Flush_def logMessage_def logging_log_def Encode_def
      line_of_def emptyMap_def json_logLine_def json_map_def named_def sort_fields Let_def)

lemma ascii_literals [simp]:
  "to_valid ''level'' = ''level''" "to_valid ''ts'' = ''ts''" "to_valid ''logger'' = ''logger''"
  "to_valid ''msg'' = ''msg''" "to_valid ''json'' = ''json''"
  "to_valid ''gostats.loggingsink'' = ''gostats.loggingsink''"
  by (rule to_valid_ascii, simp)+

lemma FormatFloat6_no_comma: "f64_val w = Some x \<Longrightarrow> CHR '','' \<notin> set (go_FormatFloat6 w)"
  by (rule text_chars(2)) (simp_all add: char_digit_def)

lemma read_log_line:
  assumes "f64_val ts = Some x" and "sort_key fst ms = ms"
  shows "read_log (line_of ts (l, m, ms)) =
           Some (to_valid l, f64_fixed ts, ''gostats.loggingsink'', to_valid m,
             map (\<lambda>(k, v). (to_valid k, to_valid v)) ms)"
proof -
  note fin = f64_val_fin [OF assms(1)]
  note num = parse_FormatFloat6 [of ts] fin span_to(1,2) [OF FormatFloat6_no_comma [OF assms(1)]]
  have "line_of ts (l, m, ms) =
      ''{'' @ json_string ''level'' @ CHR '':'' # json_string l @ CHR '','' #
      json_string ''ts'' @ CHR '':'' # go_FormatFloat6 ts @ CHR '','' #
      json_string ''logger'' @ CHR '':'' # json_string ''gostats.loggingsink'' @ CHR '','' #
      json_string ''msg'' @ CHR '':'' # json_string m @ CHR '','' #
      json_string ''json'' @ CHR '':'' # json_map ms @ ''}''"
    by (simp add: line_of_def json_logLine_def json_object_def sixDecimalPlacesFloat_MarshalJSON_def)
  then show ?thesis
    by (simp add: read_log_def read_key_json num read_object_map assms(2))
qed

text \<open>A line has no line feed inside.\<close>

lemma digit_byte: "char_digit c \<noteq> None \<Longrightarrow> 32 \<le> byte c \<and> byte c < 128"
  by (simp add: char_digit_def Let_def split: if_splits)

lemma FormatFloat6_bytes:
  assumes "f64_val w = Some x"
  shows "\<forall>c \<in> set (go_FormatFloat6 w). 32 \<le> byte c \<and> byte c < 128"
  using f64_val_fin [OF assms] format_nat_digits fixed_digits_digits digit_byte
  by (auto simp: go_FormatFloat6_def)

lemma printable_FormatFloat6: "f64_val w = Some x \<Longrightarrow> printable (go_FormatFloat6 w)"
  using FormatFloat6_bytes [of w x] by (simp add: printable_def)

lemma printable_json_map: "printable (json_map m)"
  unfolding json_map_def json_object_def by (auto intro!: printable_members)

lemma line_no_newline:
  assumes "f64_val ts = Some x"
  shows "newline \<notin> set (line_of ts p)"
proof (rule printable_newline, cases p)
  fix l m ms assume "p = (l, m, ms)"
  then show "printable (line_of ts p)"
    using printable_FormatFloat6 [OF assms] printable_json_map
    by (simp add: line_of_def json_logLine_def json_object_def printable_members
        sixDecimalPlacesFloat_MarshalJSON_def)
qed

section \<open>The property\<close>

text \<open>The number a call is about, if it has one that a \<open>float64\<close> represents exactly.\<close>

fun number_of :: "log_call \<Rightarrow> rat option" where
  "number_of (Sink_call (FlushCounter n v)) = (if unat v < 2 ^ 53 then Some (of_nat (unat v)) else None)"
| "number_of (Sink_call (FlushGauge n v)) = (if unat v < 2 ^ 53 then Some (of_nat (unat v)) else None)"
| "number_of (Sink_call (FlushTimer n w)) = f64_val w"
| "number_of (Sink_call FlushSink) = Some 0"
| "number_of (Errorf m) = None"
| "number_of (Warnf m) = None"

lemma value_text:
  assumes "number_of c = Some v" and "said c = (l, m, ms)"
  shows "\<exists>w. map_of ms ''value'' = Some (go_FormatFloat6 w) \<and> f64_val w = Some v"
proof -
  have u: "f64_val (f64_of_int (uint w)) = Some (of_nat (unat w))" if "unat w < 2 ^ 53" for w :: u64
  proof -
    define n where "n = unat w"
    have w: "uint w = int n" by (simp add: n_def)
    show ?thesis using f64_val_of_int [of "int n"] that unfolding w n_def [symmetric] by simp
  qed
  have z: "f64_val (f64_of_int 0) = Some 0" using f64_val_of_int [of 0] by simp
  show ?thesis using assms u z
    by (cases c rule: said.cases) (auto simp: named_def split: if_splits)
qed

lemma near_near: "\<bar>a - x\<bar> \<le> d \<Longrightarrow> \<bar>x - b\<bar> \<le> e \<Longrightarrow> d + e \<le> f \<Longrightarrow> \<bar>a - b\<bar> \<le> (f :: rat)"
  by (simp only: abs_le_iff) linarith

text \<open>
  C31: what the logging sink writes, for every call on it and every time that an \<open>int64\<close> of nanoseconds
  can hold.  It is one line, whatever bytes the name or the message has, and a JSON reader gets back
  the level, the message, and name, type and value in the order of their keys, bytes that are not valid
  UTF-8 replaced by U+FFFD; the time is right to three microseconds, and the value to half a millionth,
  a whole number exactly.
\<close>

theorem logging_lines_read_back:
  assumes "\<bar>nanos\<bar> \<le> 2 ^ 63" and "said c = (l, m, ms)"
  shows "\<exists>line ts. log_writes (logging_receive c nanos s) = log_writes s @ [line @ [newline]] \<and>
           newline \<notin> set line \<and>
           read_log line = Some (to_valid l, ts, ''gostats.loggingsink'', to_valid m,
             map (\<lambda>(k, v). (to_valid k, to_valid v)) ms) \<and>
           \<bar>ts - of_int nanos / 10 ^ 9\<bar> \<le> 3 / 10 ^ 6 \<and>
           (\<forall>v. number_of c = Some v \<longrightarrow>
              (\<exists>t y. map_of ms ''value'' = Some t \<and> parse_number t = Some y \<and>
                 \<bar>y - v\<bar> \<le> 1 / 2000000 \<and> (v \<in> \<int> \<longrightarrow> y = v)))"
proof -
  let ?ts = "f64_div (f64_of_int nanos) (f64_of_int Second)"
  obtain x where x: "f64_val ?ts = Some x" "\<bar>x - of_int nanos / 10 ^ 9\<bar> \<le> 21 / 10 ^ 7"
    using f64_div_billion [OF assms(1)] by (auto simp: Second_def)
  note fin = f64_val_fin [OF x(1)]
  have "log_writes (logging_receive c nanos s) = log_writes s @ [line_of ?ts (l, m, ms) @ [newline]]"
    using receive_line [of nanos c s] fin assms(2) by simp
  moreover have "newline \<notin> set (line_of ?ts (l, m, ms))" by (rule line_no_newline [OF x(1)])
  moreover note read_log_line [OF x(1) sort_said [OF assms(2)], of l m]
  moreover have "\<bar>f64_fixed ?ts - of_int nanos / 10 ^ 9\<bar> \<le> 3 / 10 ^ 6"
    by (rule near_near [OF f64_fixed_near [OF x(1)] x(2)]) simp
  moreover have "\<exists>t y. map_of ms ''value'' = Some t \<and> parse_number t = Some y \<and>
      \<bar>y - v\<bar> \<le> 1 / 2000000 \<and> (v \<in> \<int> \<longrightarrow> y = v)" if v: "number_of c = Some v" for v
  proof -
    obtain w where w: "map_of ms ''value'' = Some (go_FormatFloat6 w)" "f64_val w = Some v"
      using value_text [OF v assms(2)] by blast
    show ?thesis
      using w parse_FormatFloat6 [of w] f64_val_fin [OF w(2)] f64_fixed_near [OF w(2)] fixed_whole [OF w(2)] by simp
  qed
  ultimately show ?thesis by blast
qed

text \<open>A name with a line feed, a quote and an invalid byte.\<close>

theorem logging_lines_read_back_witness:
  "\<exists>line ts. log_writes (logging_FlushCounter [CHR ''a'', newline, quote_char, CHR 0xFF] 420 1640995200000000000 NewLoggingSink) =
       [line @ [newline]] \<and> newline \<notin> set line \<and>
     read_log line = Some (''debug'', ts, ''gostats.loggingsink'', ''flushing counter'',
       [(''name'', [CHR ''a'', newline, quote_char, CHR 0xEF, CHR 0xBF, CHR 0xBD]), (''type'', ''counter''),
        (''value'', go_FormatFloat6 (f64_of_int 420))])"
proof -
  let ?n = "[CHR ''a'', newline, quote_char, CHR 0xFF]"
  let ?c = "Sink_call (FlushCounter ?n 420)"
  have said: "said ?c = (''debug'', ''flushing counter'',
      [(''name'', ?n), (''type'', ''counter''), (''value'', go_FormatFloat6 (f64_of_int 420))])"
    by (simp add: named_def)
  have v: "to_valid ?n = [CHR ''a'', newline, quote_char, CHR 0xEF, CHR 0xBF, CHR 0xBD]"
    by (simp add: to_valid.simps rune_len_def lead_def Let_def)
  have "f64_val (f64_of_int 420) = Some 420" using f64_val_of_int [of 420] by simp
  then have t: "to_valid (go_FormatFloat6 (f64_of_int 420)) = go_FormatFloat6 (f64_of_int 420)"
    using FormatFloat6_bytes by (intro to_valid_ascii) blast
  have lits: "to_valid ''debug'' = ''debug''" "to_valid ''flushing counter'' = ''flushing counter''"
    "to_valid ''name'' = ''name''" "to_valid ''type'' = ''type''" "to_valid ''counter'' = ''counter''"
    "to_valid ''value'' = ''value''"
    by (rule to_valid_ascii, simp)+
  have "\<bar>1640995200000000000 :: int\<bar> \<le> 2 ^ 63" by simp
  from logging_lines_read_back [OF this said, of NewLoggingSink] show ?thesis
    by (simp add: v t lits logging_receive_def NewLoggingSink_def) blast
qed

end
