(* ===== verification/Flush_Loop.thy ===== *)
theory Flush_Loop
  imports Store_Props
begin

text \<open>
  \<open>StartContext\<close> and \<open>Start\<close>: the goroutine that flushes the store at every tick.  An iteration of the
  loop is a pair: what the rest of the program does to the store while the loop waits in its
  \<open>select\<close>, and which case the \<open>select\<close> then takes.
\<close>

section \<open>The loop\<close>

datatype wake = Ctx_Done | Tick

type_synonym iteration = "(statStore \<Rightarrow> statStore) \<times> wake"

text \<open>
  The result tells whether the call has returned; when the iterations are used up it has not, and
  waits.
\<close>

fun StartContext :: "(nat \<Rightarrow> statStore \<Rightarrow> statStore) \<Rightarrow> iteration list \<Rightarrow> statStore \<Rightarrow> (bool \<times> statStore) option" where
  "StartContext gen [] s = Some (False, s)"
| "StartContext gen ((rest, wake) # its) s =
     (case wake of
        Ctx_Done \<Rightarrow> (case Flush gen (rest s) of None \<Rightarrow> None | Some s \<Rightarrow> Some (True, s))
      | Tick \<Rightarrow> (case Flush gen (rest s) of None \<Rightarrow> None | Some s \<Rightarrow> StartContext gen its s))"

text \<open>The context \<open>context.Background()\<close> is never done: its channel is nil.\<close>

definition Start :: "(nat \<Rightarrow> statStore \<Rightarrow> statStore) \<Rightarrow> (statStore \<Rightarrow> statStore) list \<Rightarrow> statStore \<Rightarrow> (bool \<times> statStore) option" where
  "Start gen rests s = StartContext gen (map (\<lambda>rest. (rest, Tick)) rests) s"

section \<open>Properties\<close>

text \<open>The rest of the program, and the generators, use the store as a program can.\<close>

definition uses_store :: "(nat \<Rightarrow> statStore \<Rightarrow> statStore) \<Rightarrow> (statStore \<Rightarrow> statStore) \<Rightarrow> bool" where
  "uses_store gen f \<longleftrightarrow> (\<forall>w s. store_run gen w s \<longrightarrow> (\<exists>w'. store_run gen w' (f s)))"

lemma uses_storeD: "uses_store gen f \<Longrightarrow> store_run gen w s \<Longrightarrow> \<exists>w'. store_run gen w' (f s)"
  by (auto simp: uses_store_def)

lemma uses_store_fold:
  assumes "\<And>i. uses_store gen (gen i)"
  shows "store_run gen w s \<Longrightarrow> \<exists>w'. store_run gen w' (fold gen gs s)"
proof (induction gs arbitrary: w s)
  case Nil
  then show ?case by (simp only: fold_Nil id_apply) (rule exI)
next
  case (Cons g gs)
  obtain w1 where "store_run gen w1 (gen g s)"
    using uses_storeD [OF assms [of g] Cons.prems] by (rule exE)
  from Cons.IH [OF this] show ?case by (simp only: fold_Cons comp_apply)
qed

lemma flush_of_run:
  assumes "\<And>i. uses_store gen (gen i)" and "store_run gen w s"
  obtains s' w' where "Flush gen s = Some s'" "store_run gen w' s'"
    "\<forall>k. delivered k (sink_calls s') = written w' k"
proof -
  obtain w' where w': "store_run gen w' (fold gen (statGenerators s) s)"
    using uses_store_fold [OF assms] by blast
  have inv: "run_inv w' (fold gen (statGenerators s) s)" by (rule store_run_inv [OF w'])
  then obtain s' where s': "Flush gen s = Some s'" "s' = flush_result (fold gen (statGenerators s) s)"
    by (simp add: Flush_eq run_inv_def)
  moreover have "\<forall>k. delivered k (sink_calls s') = written w' k"
    using inv unfolding s'(2) by (simp add: account_flush(2) run_inv_def store_inv_def)
  ultimately show ?thesis using that store_run.flush [OF assms(2) w' s'(1)] by blast
qed

lemma StartContext_run:
  assumes "store_run gen w s" and "\<And>i. uses_store gen (gen i)"
    and "\<forall>(rest, wake) \<in> set its. uses_store gen rest" and "its \<noteq> []"
  shows "\<exists>b s' w'. StartContext gen its s = Some (b, s') \<and> store_run gen w' s' \<and>
           (b \<longleftrightarrow> Ctx_Done \<in> snd ` set its) \<and>
           (b \<longrightarrow> StartContext gen (its @ later) s = Some (b, s')) \<and>
           (\<forall>k. delivered k (sink_calls s') = written w' k)"
  using assms(1,3,4)
proof (induction its arbitrary: w s)
  case (Cons it its)
  obtain rest wake where it: "it = (rest, wake)" by (cases it)
  then obtain w1 where w1: "store_run gen w1 (rest s)" using uses_storeD Cons.prems(1,2) by fastforce
  obtain s2 w2 where fl: "Flush gen (rest s) = Some s2" "store_run gen w2 s2"
    "\<forall>k. delivered k (sink_calls s2) = written w2 k"
    by (rule flush_of_run [OF assms(2) w1])
  show ?case
  proof (cases "wake = Tick \<and> its \<noteq> []")
    case True
    then have "\<forall>(rest, wake) \<in> set its. uses_store gen rest" using Cons.prems(2) by simp
    from Cons.IH [OF fl(2) this] True show ?thesis by (simp add: it fl(1))
  next
    case False
    then show ?thesis using fl by (cases wake) (auto simp: it)
  qed
qed simp

lemma Start_run:
  assumes "store_run gen w s" and "\<And>i. uses_store gen (gen i)" and "\<forall>rest \<in> set rests. uses_store gen rest"
  shows "\<exists>s'. Start gen rests s = Some (False, s')"
proof (cases "rests = []")
  case False
  let ?its = "map (\<lambda>rest. (rest, Tick)) rests"
  have "\<forall>(rest, wake) \<in> set ?its. uses_store gen rest" "?its \<noteq> []" using assms(3) False by auto
  from StartContext_run [OF assms(1,2) this, of "[]"] obtain b s' where
    "StartContext gen ?its s = Some (b, s')" "b \<longleftrightarrow> Ctx_Done \<in> snd ` set ?its" by blast
  then show ?thesis by (auto simp: Start_def)
qed (simp add: Start_def)

text \<open>
  C29: the loop never gets stuck: it goes on for as many ticks as there are, and it returns exactly when
  the context is done, whatever would come afterwards.  After every iteration, the last one included,
  the sink has received all that was written before it woke up.  \<open>Start\<close> never returns.
\<close>

theorem StartContext_flushes:
  assumes "store_run gen w s" and "\<And>i. uses_store gen (gen i)"
    and "\<forall>(rest, wake) \<in> set its. uses_store gen rest" and "its \<noteq> []"
    and "\<forall>rest \<in> set rests. uses_store gen rest"
  shows "(\<exists>b s' w'. StartContext gen its s = Some (b, s') \<and> store_run gen w' s' \<and>
            (b \<longleftrightarrow> Ctx_Done \<in> snd ` set its) \<and>
            (b \<longrightarrow> StartContext gen (its @ later) s = Some (b, s')) \<and>
            (\<forall>k. delivered k (sink_calls s') = written w' k)) \<and>
         (\<exists>s'. Start gen rests s = Some (False, s'))"
  using StartContext_run [OF assms(1-4), of later] Start_run [OF assms(1,2,5)] by (rule conjI)

text \<open>A program that counts something while the loop waits.\<close>

definition demo_rest :: "statStore \<Rightarrow> statStore" where
  "demo_rest s = (case newCounter ''b'' s of (a, s) \<Rightarrow> the (counter_Add a 5 s))"

lemma demo_rest_uses: "uses_store no_gen demo_rest"
  unfolding uses_store_def
proof (intro allI impI)
  fix w s assume run: "store_run no_gen w s"
  obtain a s1 where n: "newCounter ''b'' s = (a, s1)" by (cases "newCounter ''b'' s")
  note run1 = store_run.new_counter [OF run n]
  let ?w = "w\<lparr>counter_refs := insert (''b'', a) (counter_refs w)\<rparr>"
  have ref: "(''b'', a) \<in> counter_refs ?w" by simp
  have "core_inv s1" "a < length (counter_heap s1)"
    using store_run_inv [OF run1] by (auto simp: run_inv_def store_inv_def counters_inv_def)
  then obtain s2 where s2: "counter_Add a 5 s1 = Some s2" by (simp add: counter_Add_eq)
  have "demo_rest s = s2" by (simp add: demo_rest_def n s2)
  then show "\<exists>w'. store_run no_gen w' (demo_rest s)" using store_run.add [OF run1 ref s2] by auto
qed

theorem StartContext_flushes_witness:
  "(\<exists>s'. StartContext no_gen [(demo_rest, Tick), (demo_rest, Ctx_Done), (demo_rest, Tick)] demo_pruned = Some (True, s')) \<and>
   (\<exists>s'. Start no_gen [demo_rest, demo_rest] demo_pruned = Some (False, s'))"
proof -
  let ?its = "[(demo_rest, Tick), (demo_rest, Ctx_Done)]"
  have gens: "\<And>i. uses_store no_gen (no_gen i)" by (auto simp: uses_store_def)
  have its: "\<forall>(rest, wake) \<in> set ?its. uses_store no_gen rest" "?its \<noteq> []"
    and rests: "\<forall>rest \<in> set [demo_rest, demo_rest]. uses_store no_gen rest"
    using demo_rest_uses by simp_all
  show ?thesis
    using StartContext_flushes [OF run_pruned gens its rests, of "[(demo_rest, Tick)]"] by simp blast
qed

end
