(* ===== verification/Scope_Props.thy ===== *)
theory Scope_Props
  imports Scope_Laws
begin

text \<open>
  Properties of the constructors: which metric a name and tags select, whether they are given to
  the store or to a scope.
\<close>

section \<open>One metric for a name\<close>

text \<open>
  C34: asking the store for a name twice gives the same counter, gauge or timer and leaves the
  store unchanged the second time, and different names give different metrics.
\<close>

theorem one_metric_per_name:
  assumes "store_inv s" and "newCounter k s = (c, s1)" and "newCounter l s1 = (d, s2)"
    and "newGauge k s = (g, t1)" and "newGauge l t1 = (h, t2)"
    and "newTimer k b s = (t, u1)" and "newTimer l b u1 = (u, u2)"
  shows "newCounter k s1 = (c, s1) \<and> (c = d \<longleftrightarrow> k = l) \<and>
         newGauge k t1 = (g, t1) \<and> (g = h \<longleftrightarrow> k = l) \<and>
         newTimer k b u1 = (t, u1) \<and> (t = u \<longleftrightarrow> k = l)"
  using cr.new_again [OF assms(1,2)] cr.new_distinct [OF assms(1,2,3)]
    gr.new_again [OF assms(1,4)] gr.new_distinct [OF assms(1,4,5)]
    tr.new_again [OF assms(1,6)] tr.new_distinct [OF assms(1,6,7)] by blast

lemma store_inv_empty: "store_inv (empty_store p fl)"
  using run_inv_start [of p fl] by (simp add: run_inv_def)

theorem one_metric_per_name_witness:
  "fst (newCounter ''a'' (empty_store 1 True)) = 0 \<and>
   fst (newCounter ''b'' (snd (newCounter ''a'' (empty_store 1 True)))) \<noteq> 0"
proof -
  have n: "fst (newCounter ''a'' (empty_store 1 True)) = 0"
    by (simp add: newCounter_miss empty_store_def smap_Load_def)
  note p = prod.collapse [symmetric]
  from one_metric_per_name [where k = "''a''" and l = "''b''" and b = Millisecond,
      OF store_inv_empty [of 1 True] p p p p p p] n
  show ?thesis by simp
qed

section \<open>Names and tags\<close>

text \<open>
  The tags select the metric by what they bind, not by the order in which Go's map iteration
  visits them: the same map, visited in another order in a later call, selects the same metric.
\<close>

theorem tag_order_irrelevant:
  assumes "store_inv s" and "distinct (map fst m)" and "mset m = mset m'"
    and "store_NewCounterWithTags name m s = Some (a, s')"
    and "store_NewGaugeWithTags name m s = Some (g, t')"
    and "store_NewTimerWithTags name m s = Some (t, u')"
  shows "(\<exists>s''. store_NewCounterWithTags name m' s' = Some (a, s'')) \<and>
         (\<exists>t''. store_NewGaugeWithTags name m' t' = Some (g, t'')) \<and>
         (\<exists>u''. store_NewTimerWithTags name m' u' = Some (t, u''))"
proof -
  let ?key = "SerializeTags name m"
  have key: "SerializeTags name m' = ?key"
    using NewTagSet_order [OF assms(2,3)] mset_distinct_keys [OF assms(3,2)] assms(2)
    by (simp add: SerializeTags_eq)
  obtain s1 where s1: "validateTags m s = Some s1" "store_inv s1"
    using validateTags_correct [OF assms(1)] by blast
  have n: "newCounter ?key s1 = (a, s')" "newGauge ?key s1 = (g, t')"
    "newTimer ?key Microsecond s1 = (t, u')"
    using assms(4-6) s1(1)
    by (simp_all add: store_NewCounterWithTags_def store_NewGaugeWithTags_def
        store_NewTimerWithTags_def)
  note f = cr.find_new [OF s1(2) n(1)] gr.find_new [OF s1(2) n(2)] tr.find_new [OF s1(2) n(3)]
  obtain s2 where s2: "validateTags m' s' = Some s2" "store_inv s2"
    "smap_Load (counters s') \<subseteq>\<^sub>m smap_Load (counters s2)"
    using validateTags_correct [of s' m'] f by blast
  obtain t2 where t2: "validateTags m' t' = Some t2" "gauges t2 = gauges t'"
    using validateTags_correct [of t' m'] f by blast
  obtain u2 where u2: "validateTags m' u' = Some u2" "timers u2 = timers u'"
    using validateTags_correct [of u' m'] f by blast
  have "smap_Load (counters s2) ?key = Some a" using f s2(3) by (auto simp: map_le_def dom_def)
  then show ?thesis using f s2 t2 u2 key
    by (simp add: store_NewCounterWithTags_def store_NewGaugeWithTags_def
        store_NewTimerWithTags_def newCounter_hit newGauge_hit newTimer_hit)
qed

lemma validate_none: "fst ` set m \<inter> set ReservedTagWords = {} \<Longrightarrow> validateTags m s = Some s"
  by (induction m) auto

theorem tag_order_irrelevant_witness:
  "\<exists>a s' s''. store_NewCounterWithTags ''n'' [(''x'', ''1''), (''y'', ''2'')] (empty_store 0 True)
       = Some (a, s') \<and>
     store_NewCounterWithTags ''n'' [(''y'', ''2''), (''x'', ''1'')] s' = Some (a, s'')"
proof -
  let ?m = "[(''x'', ''1''), (''y'', ''2'')]" and ?m' = "[(''y'', ''2''), (''x'', ''1'')]"
  have v: "validateTags ?m (empty_store 0 True) = Some (empty_store 0 True)"
    by (rule validate_none) (simp add: ReservedTagWords_def)
  obtain a s' where c: "newCounter (SerializeTags ''n'' ?m) (empty_store 0 True) = (a, s')" by force
  obtain g t' where g: "newGauge (SerializeTags ''n'' ?m) (empty_store 0 True) = (g, t')" by force
  obtain t u' where t: "newTimer (SerializeTags ''n'' ?m) Microsecond (empty_store 0 True) = (t, u')"
    by force
  have m: "distinct (map fst ?m)" "mset ?m = mset ?m'" by simp_all
  have s: "store_NewCounterWithTags ''n'' ?m (empty_store 0 True) = Some (a, s')"
    "store_NewGaugeWithTags ''n'' ?m (empty_store 0 True) = Some (g, t')"
    "store_NewTimerWithTags ''n'' ?m (empty_store 0 True) = Some (t, u')"
    using v c g t by (simp_all add: store_NewCounterWithTags_def store_NewGaugeWithTags_def
        store_NewTimerWithTags_def del: validateTags.simps)
  from tag_order_irrelevant [OF store_inv_empty m s] s(1) show ?thesis by blast
qed

text \<open>
  C22: a scope is a prefix.  Opening a scope, a scope inside it, and asking that for a counter, each
  time with tags, succeeds and gives the counter the store gives for the name \<open>n1.n2.n3\<close> and the
  merged tags, where later tags win; each reserved tag of the two scopes is counted.
\<close>

theorem nested_scope_counter:
  fixes s :: statStore
  assumes "store_inv s" and "distinct (map fst t1)" and "distinct (map fst t2)"
    and "distinct (map fst t3)"
    and "all_tags all (clean_map t1 ++ clean_map t2 ++ clean_map t3)"
  shows "\<exists>sc s1 sc' s2. store_ScopeWithTags n1 t1 s = Some (sc, s1) \<and>
           scope_ScopeWithTags sc n2 t2 s1 = Some (sc', s2) \<and>
           scope_NewCounterWithTags sc' n3 t3 s2 =
             Some (newCounter (SerializeTags (n1 @ ''.'' @ n2 @ ''.'' @ n3) all) s2) \<and>
           account s2 ''reserved_tag'' = account s ''reserved_tag'' +
             of_nat (reserved_count t1) + of_nat (reserved_count t2)"
proof -
  obtain s1 where s1: "validateTags t1 s = Some s1" "store_inv s1"
    "account s1 ''reserved_tag'' = account s ''reserved_tag'' + of_nat (reserved_count t1)"
    using validateTags_correct [OF assms(1), of t1] by auto
  define sc where "sc = newSubScope n1 t1"
  have sc: "store_ScopeWithTags n1 t1 s = Some (sc, s1)" "scope_ok sc"
    "tag_map (scope_tags sc) = clean_map t1" "scope_name sc = n1"
    using s1(1) newSubScope_ok [OF assms(2)] by (simp_all add: store_ScopeWithTags_def sc_def)
  from scope_ScopeWithTags_ok [OF sc(2) assms(3) s1(2), of n2]
  obtain sc' s2 where sc': "scope_ScopeWithTags sc n2 t2 s1 = Some (sc', s2)"
    "validateTags t2 s1 = Some s2" "scope_ok sc'" "scope_name sc' = joinScopes n1 n2"
    "tag_map (scope_tags sc') = clean_map t1 ++ clean_map t2"
    using sc(3,4) by auto
  have "account s2 ''reserved_tag'' = account s1 ''reserved_tag'' + of_nat (reserved_count t2)"
    using validateTags_correct [OF s1(2), of t2] sc'(2) by auto
  moreover have "scope_NewCounterWithTags sc' n3 t3 s2 =
      Some (newCounter (SerializeTags (n1 @ ''.'' @ n2 @ ''.'' @ n3) all) s2)"
    using scope_constructors(1) [OF sc'(3) assms(4), of all n3 s2] assms(5) sc'(4,5)
    by (simp add: joinScopes_def)
  ultimately show ?thesis using sc(1) sc'(1) s1(3)
    by (intro exI [of _ sc] exI [of _ s1] exI [of _ sc'] exI [of _ s2]) simp
qed

lemma clean_map_cons:
  "k \<noteq> [] \<Longrightarrow> v \<noteq> [] \<Longrightarrow> clean_map ((k, v) # m) = (clean_map m)(k \<mapsto> ReplaceChars v)"
  by (auto simp: clean_map_def fun_eq_iff)

theorem nested_scope_counter_witness:
  "\<exists>sc s1 sc' s2. store_ScopeWithTags ''a'' [(''az'', ''x'')] (empty_store 0 True) = Some (sc, s1) \<and>
     scope_ScopeWithTags sc ''b'' [(''k'', ''1'')] s1 = Some (sc', s2) \<and>
     scope_NewCounterWithTags sc' ''c'' [(''k'', ''2'')] s2 =
       Some (newCounter (SerializeTags ''a.b.c'' [(''k'', ''2''), (''az'', ''x'')]) s2) \<and>
     account s2 ''reserved_tag'' = 1"
proof -
  have "all_tags [(''k'', ''2''), (''az'', ''x'')]
      (clean_map [(''az'', ''x'')] ++ clean_map [(''k'', ''1'')] ++ clean_map [(''k'', ''2'')])"
    by (simp add: all_tags_def clean_map_cons)
  moreover have "account (empty_store 0 True) n = 0" for n
    using run_inv_start [of 0 True] by (simp add: run_inv_def no_refs_def)
  ultimately show ?thesis
    using nested_scope_counter [where ?t1.0 = "[(''az'', ''x'')]" and ?t2.0 = "[(''k'', ''1'')]"
        and ?t3.0 = "[(''k'', ''2'')]" and all = "[(''k'', ''2''), (''az'', ''x'')]"
        and ?n1.0 = "''a''" and ?n2.0 = "''b''" and ?n3.0 = "''c''", OF store_inv_empty [of 0 True]]
    by (simp add: reserved_count_def ReservedTagWords_def)
qed

text \<open>
  C33: every one of the twelve constructors of a scope registers its metric under the name the store
  would use for the joined name and the merged tags, the timer constructors in their two units, and
  the per-instance constructors with \<open>_f=i\<close> added unless the scope or the tags bind \<open>_f\<close>; those without
  tags use the tags of the scope.  \<open>NewPerInstanceMilliTimer\<close> counts the reserved tags first.
\<close>

theorem scope_constructor_names:
  assumes "scope_ok sc" and "distinct (map fst tags)"
    and "all_tags all (tag_map (scope_tags sc) ++ clean_map tags)"
    and "all_tags inst (with_instance_tag (tag_map (scope_tags sc) ++ clean_map tags))"
    and "all_tags own (tag_map (scope_tags sc))"
  shows "scope_NewCounter sc name s = Some (newCounter (SerializeTags (scope_name sc @ ''.'' @ name) own) s) \<and>
         scope_NewGauge sc name s = Some (newGauge (SerializeTags (scope_name sc @ ''.'' @ name) own) s) \<and>
         scope_NewTimer sc name s =
           Some (newTimer (SerializeTags (scope_name sc @ ''.'' @ name) own) Microsecond s) \<and>
         scope_NewMilliTimer sc name s =
           Some (newTimer (SerializeTags (scope_name sc @ ''.'' @ name) own) Millisecond s) \<and>
         scope_NewCounterWithTags sc name tags s =
           Some (newCounter (SerializeTags (scope_name sc @ ''.'' @ name) all) s) \<and>
         scope_NewGaugeWithTags sc name tags s =
           Some (newGauge (SerializeTags (scope_name sc @ ''.'' @ name) all) s) \<and>
         scope_NewTimerWithTags sc name tags s =
           Some (newTimer (SerializeTags (scope_name sc @ ''.'' @ name) all) Microsecond s) \<and>
         scope_NewMilliTimerWithTags sc name tags s =
           Some (newTimer (SerializeTags (scope_name sc @ ''.'' @ name) all) Millisecond s) \<and>
         scope_NewPerInstanceCounter sc name tags s =
           newCounter (SerializeTags (scope_name sc @ ''.'' @ name) inst) s \<and>
         scope_NewPerInstanceGauge sc name tags s =
           newGauge (SerializeTags (scope_name sc @ ''.'' @ name) inst) s \<and>
         scope_NewPerInstanceTimer sc name tags s =
           newTimer (SerializeTags (scope_name sc @ ''.'' @ name) inst) Microsecond s \<and>
         scope_NewPerInstanceMilliTimer sc name tags s =
           Option.bind (validateTags tags s)
             (\<lambda>s. Some (newTimer (SerializeTags (scope_name sc @ ''.'' @ name) inst) Millisecond s))"
proof -
  have own: "all_tags own (tag_map (scope_tags sc) ++ clean_map [])" "distinct (map fst ([] :: string go_map))"
    using assms(5) by simp_all
  note plain = scope_constructors [OF assms(1) own(2,1), of name s]
  show ?thesis
    using plain scope_constructors [OF assms(1-3), of name s] scope_per_instance [OF assms(1,2,4), of name s]
    by (simp add: joinScopes_def scope_NewCounter_def scope_NewGauge_def scope_NewTimer_def scope_NewMilliTimer_def)
qed

theorem scope_constructor_names_witness:
  "scope_NewPerInstanceCounter (newSubScope ''a'' [(''k'', ''1'')]) ''c'' [(''l'', ''2'')] (empty_store 0 True) =
     newCounter (SerializeTags ''a.c'' [(''_f'', ''i''), (''l'', ''2''), (''k'', ''1'')]) (empty_store 0 True) \<and>
   scope_NewMilliTimer (newSubScope ''a'' [(''k'', ''1'')]) ''c'' (empty_store 0 True) =
     Some (newTimer (SerializeTags ''a.c'' [(''k'', ''1'')]) Millisecond (empty_store 0 True))"
proof -
  let ?sc = "newSubScope ''a'' [(''k'', ''1'')]"
  have sc: "scope_ok ?sc" "tag_map (scope_tags ?sc) = clean_map [(''k'', ''1'')]" "scope_name ?sc = ''a''"
    using newSubScope_ok [of "[(''k'', ''1'')]" "''a''"] by simp_all
  have i: "ReplaceChars ''i'' = ''i''" by (simp add: ReplaceChars_eq)
  have all: "all_tags [(''l'', ''2''), (''k'', ''1'')] (tag_map (scope_tags ?sc) ++ clean_map [(''l'', ''2'')])"
    "all_tags [(''_f'', ''i''), (''l'', ''2''), (''k'', ''1'')]
       (with_instance_tag (tag_map (scope_tags ?sc) ++ clean_map [(''l'', ''2'')]))"
    "all_tags [(''k'', ''1'')] (tag_map (scope_tags ?sc))"
    by (simp_all add: sc(2) all_tags_def clean_map_cons with_instance_tag_def i)
  have d: "distinct (map fst [(''l'', ''2'')])" by simp
  from scope_constructor_names [OF sc(1) d all, of "''c''" "empty_store 0 True"] sc(3)
  show ?thesis by simp
qed

section \<open>Reserved tags and per-instance metrics of the store\<close>

text \<open>
  \<open>validateTags\<close> never fails, adds to the counter \<open>reserved_tag\<close> one for each key that is a
  reserved word, and changes no other balance, no gauge and no timer.
\<close>

theorem reserved_tags_counted:
  assumes "store_inv s"
  shows "\<exists>s'. validateTags tags s = Some s' \<and> store_inv s' \<and>
           gauges s' = gauges s \<and> timers s' = timers s \<and>
           (\<forall>n. account s' n = account s n +
              (if n = ''reserved_tag''
               then of_nat (length (filter (\<lambda>kv. fst kv \<in> set ReservedTagWords) tags)) else 0))"
  using validateTags_correct [OF assms, of tags] unfolding reserved_count_def by blast

theorem reserved_tags_counted_witness:
  "\<exists>s'. validateTags [(''az'', ''1''), (''x'', ''2''), (''host'', ''3'')] (empty_store 0 True) = Some s' \<and>
     account s' ''reserved_tag'' = account (empty_store 0 True) ''reserved_tag'' + 2"
proof -
  have "filter (\<lambda>kv. fst kv \<in> set ReservedTagWords)
      [(''az'', ''1''), (''x'', ''2''), (''host'', ''3'')] = [(''az'', ''1''), (''host'', ''3'')]"
    by (simp add: ReservedTagWords_def)
  with reserved_tags_counted [OF store_inv_empty [of 0 True],
      of "[(''az'', ''1''), (''x'', ''2''), (''host'', ''3'')]"]
  show ?thesis by (auto simp del: validateTags.simps)
qed

text \<open>
  the per-instance constructors of the store count the reserved tags and register the name
  with \<open>_f=i\<close> added when the map has no key \<open>_f\<close>, and with the tags as given when it has one.
\<close>

theorem store_per_instance_names:
  assumes "distinct (map fst tags)"
    and "all_tags all (if map_of tags ''_f'' = None then (clean_map tags)(''_f'' \<mapsto> ''i'')
                       else clean_map tags)"
  shows "store_NewPerInstanceCounter name tags s =
           Option.bind (validateTags tags s) (\<lambda>s. Some (newCounter (SerializeTags name all) s)) \<and>
         store_NewPerInstanceGauge name tags s =
           Option.bind (validateTags tags s) (\<lambda>s. Some (newGauge (SerializeTags name all) s)) \<and>
         store_NewPerInstanceTimer name tags s =
           Option.bind (validateTags tags s)
             (\<lambda>s. Some (newTimer (SerializeTags name all) Microsecond s)) \<and>
         store_NewPerInstanceMilliTimer name tags s =
           Option.bind (validateTags tags s)
             (\<lambda>s. Some (newTimer (SerializeTags name all) Millisecond s))"
proof -
  have all: "all_tags all (store_instance_map tags)"
    using assms(2) by (simp only: store_instance_map_def)
  show ?thesis using store_per_instance [OF assms(1) all, of name s] by blast
qed

theorem store_per_instance_names_witness:
  "store_NewPerInstanceGauge ''g'' [(''k'', ''1'')] (empty_store 0 True) =
     Some (newGauge (SerializeTags ''g'' [(''_f'', ''i''), (''k'', ''1'')]) (empty_store 0 True))"
proof -
  have i: "ReplaceChars ''i'' = ''i''" by (simp add: ReplaceChars_eq)
  have d: "distinct (map fst [(''k'', ''1'')])" by simp
  have a: "all_tags [(''_f'', ''i''), (''k'', ''1'')]
      (if map_of [(''k'', ''1'')] ''_f'' = None then (clean_map [(''k'', ''1'')])(''_f'' \<mapsto> ''i'')
       else clean_map [(''k'', ''1'')])"
    by (simp add: all_tags_def clean_map_cons i)
  have "validateTags [(''k'', ''1'')] (empty_store 0 True) = Some (empty_store 0 True)"
    by (rule validate_none) (simp add: ReservedTagWords_def)
  with store_per_instance_names [OF d a, of "''g''" "empty_store 0 True"] show ?thesis by simp
qed

text \<open>
  C38: the store and a scope disagree on a per-instance metric whose tag \<open>_f\<close> is the empty string:
  the store registers it without any tag \<open>_f\<close>, under the name of the plain metric, where the merge
  that a scope uses adds \<open>_f=i\<close>.
\<close>

theorem store_per_instance_empty_value:
  "store_NewPerInstanceCounter name [(''_f'', [])] s = Some (newCounter name s) \<and>
   tag_map (MergePerInstanceTags [] [(''_f'', [])]) = [''_f'' \<mapsto> ''i'']"
proof -
  have c: "clean_map [(''_f'', [])] = Map.empty" by (simp add: clean_map_single)
  have all: "all_tags [] (store_instance_map [(''_f'', [])])"
    by (simp add: all_tags_def store_instance_map_def c)
  have name: "SerializeTags name [] = name" 
    using NewTagSet_correct(2) [of "[]"] NewTagSet_eq [of "[]"]
    by (simp add: SerializeTags_eq Serialize_eq Sort_def)
  have "validateTags [(''_f'', [])] s = Some s"
    by (rule validate_none) (simp add: ReservedTagWords_def)
  then have "store_NewPerInstanceCounter name [(''_f'', [])] s = Some (newCounter name s)"
    using store_per_instance(1) [OF _ all, of name s] by (simp add: name)
  moreover have "tag_map (MergePerInstanceTags [] [(''_f'', [])]) = [''_f'' \<mapsto> ''i'']"
    using MergePerInstanceTags_correct(3) [of "[]" "[(''_f'', [])]"]
    by (simp add: clean_tags_def c with_instance_tag_def)
  ultimately show ?thesis ..
qed

end
