(* ===== verification/Settings_Props.thy ===== *)
theory Settings_Props
  imports Settings
begin

text \<open>Properties of the configuration: parsing, defaults, panics, and the pruning limit.\<close>

definition env_of :: "(string \<times> string) list \<Rightarrow> env" where
  "env_of vars k = (case map_of vars k of None \<Rightarrow> [] | Some v \<Rightarrow> v)"

lemmas settings_eval =
  envInt_def env_of_def go_Atoi_def parse_signed_def char_digit_def Let_def
  DefaultPruneIdleSeconds_def DefaultFlushIntervalS_def

text \<open>
  Past \<open>2 ^ 63\<close> the sum wraps around before the clamp is applied.  With the largest number of
  idle seconds and a flush interval of four seconds the limit is one: a counter is pruned at its
  first idle flush, where the settings ask that it never be.
\<close>

lemma prune_limit_overflow:
  "uint (pruneAfterFlushesFromEnv (env_of
     [(''GOSTATS_PRUNE_IDLE_SECONDS'', ''9223372036854775807''),
      (''GOSTATS_FLUSH_INTERVAL_SECONDS'', ''4'')])) = 1"
proof -
  let ?e = "env_of
     [(''GOSTATS_PRUNE_IDLE_SECONDS'', ''9223372036854775807''),
      (''GOSTATS_FLUSH_INTERVAL_SECONDS'', ''4'')]"
  have "prune_seconds ?e = 9223372036854775807" "flush_seconds ?e = 4"
    by (simp_all add: prune_seconds_def flush_seconds_def settings_eval)
  then show ?thesis
    by (simp add: prune_flushes_eq Let_def wrap_int64_def go_div_def MaxUint32_def uint_word_of_int
        min_def)
qed

text \<open>
  C37: as long as the two settings add up to at most \<open>2 ^ 63\<close>, the pruning limit is their quotient
  rounded up, cut off at the largest \<open>uint32\<close>: it is zero exactly when pruning is off, and unless
  it is cut off, that many flushes take at least the requested number of seconds, and one flush
  fewer would take less.  Beyond \<open>2 ^ 63\<close> this is lost: the sum wraps around before the limit is cut
  off, and with the largest number of idle seconds and a flush interval of four seconds a counter is
  pruned at its first idle flush.
\<close>

theorem prune_limit:
  assumes "prune_seconds e + flush_seconds e \<le> 2 ^ 63"
  defines "n \<equiv> uint (pruneAfterFlushesFromEnv e)"
  shows "n = min ((prune_seconds e + flush_seconds e - 1) div flush_seconds e) (2 ^ 32 - 1) \<and>
         (n = 0 \<longleftrightarrow> prune_seconds e = 0) \<and>
         (n < 2 ^ 32 - 1 \<longrightarrow>
            prune_seconds e \<le> n * flush_seconds e \<and>
            (0 < n \<longrightarrow> (n - 1) * flush_seconds e < prune_seconds e)) \<and>
         uint (pruneAfterFlushesFromEnv (env_of
           [(''GOSTATS_PRUNE_IDLE_SECONDS'', ''9223372036854775807''),
            (''GOSTATS_FLUSH_INTERVAL_SECONDS'', ''4'')])) = 1"
proof -
  let ?p = "prune_seconds e" and ?f = "flush_seconds e"
  let ?q = "(?p + ?f - 1) div ?f"
  note r = seconds_range [of e]
  have n: "n = min ?q (2 ^ 32 - 1)"
    using prune_flushes_ceil [OF assms(1)] by (simp add: n_def MaxUint32_def)
  have "?q * ?f = ?p + ?f - 1 - (?p + ?f - 1) mod ?f" by (simp add: minus_mod_eq_div_mult)
  moreover have "0 \<le> (?p + ?f - 1) mod ?f" "(?p + ?f - 1) mod ?f < ?f" using r by simp_all
  ultimately have q: "?p \<le> ?q * ?f" "(?q - 1) * ?f < ?p"
    by (simp_all add: left_diff_distrib)
  have pos: "?q = 0 \<longleftrightarrow> ?p = 0" using r q
    by (auto simp: div_eq_0_iff)
  show ?thesis using n q pos r prune_limit_overflow by (auto simp: min_def)
qed

theorem prune_limit_witness:
  "uint (pruneAfterFlushesFromEnv (env_of [(''GOSTATS_PRUNE_IDLE_SECONDS'', ''12'')])) = 3"
proof -
  let ?e = "env_of [(''GOSTATS_PRUNE_IDLE_SECONDS'', ''12'')]"
  have "prune_seconds ?e = 12" "flush_seconds ?e = 5"
    by (simp_all add: prune_seconds_def flush_seconds_def settings_eval)
  with prune_limit [of ?e] show ?thesis by simp
qed

definition settings_spec :: "env \<Rightarrow> panic + Settings \<Rightarrow> bool" where
  "settings_spec e r \<longleftrightarrow>
     (let bools = {''USE_STATSD'', ''GOSTATS_LOGGING_SINK_DISABLED''};
          ints = {''STATSD_PORT'', ''GOSTATS_FLUSH_INTERVAL_SECONDS'', ''GOSTATS_PRUNE_IDLE_SECONDS''}
      in case r of
           Inl p \<Rightarrow>
             \<exists>k err. p = Panic_env \<lparr>env_Key = k, env_Value = e k, env_Err = err\<rparr> \<and> e k \<noteq> [] \<and>
               (k \<in> bools \<and> go_ParseBool (e k) = Inl err \<or> k \<in> ints \<and> go_Atoi (e k) = Inl err)
         | Inr st \<Rightarrow>
             (\<forall>k \<in> bools. e k = [] \<or> (\<exists>b. go_ParseBool (e k) = Inr b)) \<and>
             (\<forall>k \<in> ints. e k = [] \<or> (\<exists>i. go_Atoi (e k) = Inr i)) \<and>
             UseStatsd st = fst (envBool e ''USE_STATSD'' True) \<and>
             LoggingSinkDisabled st = fst (envBool e ''GOSTATS_LOGGING_SINK_DISABLED'' False) \<and>
             StatsdHost st = envOr e ''STATSD_HOST'' ''localhost'' \<and>
             StatsdProtocol st = envOr e ''STATSD_PROTOCOL'' ''tcp'' \<and>
             StatsdPort st = fst (envInt e ''STATSD_PORT'' 8125) \<and>
             FlushIntervalS st = fst (envInt e ''GOSTATS_FLUSH_INTERVAL_SECONDS'' 5) \<and>
             PruneIdleSeconds st = fst (envInt e ''GOSTATS_PRUNE_IDLE_SECONDS'' 0))"

lemma check_env_split:
  "(\<And>err. snd r = Some err \<Longrightarrow> P (Inl (Panic_env err))) \<Longrightarrow>
     (snd r = None \<Longrightarrow> P (k (fst r))) \<Longrightarrow> P (check_env r k)"
  by (cases "snd r") (simp_all add: check_env_def)

lemma envInt_None: "snd (envInt e k d) = None \<Longrightarrow> e k = [] \<or> (\<exists>i. go_Atoi (e k) = Inr i)"
  by (auto simp: envInt_def Let_def split: sum.splits if_splits)

lemma envInt_error:
  "snd (envInt e k d) = Some err \<Longrightarrow>
     \<exists>x. err = \<lparr>env_Key = k, env_Value = e k, env_Err = x\<rparr> \<and> e k \<noteq> [] \<and> go_Atoi (e k) = Inl x"
  by (auto simp: envInt_def Let_def split: sum.splits if_splits)

lemma envBool_None: "snd (envBool e k d) = None \<Longrightarrow> e k = [] \<or> (\<exists>b. go_ParseBool (e k) = Inr b)"
  by (auto simp: envBool_def Let_def split: sum.splits if_splits)

lemma envBool_error:
  "snd (envBool e k d) = Some err \<Longrightarrow>
     \<exists>x. err = \<lparr>env_Key = k, env_Value = e k, env_Err = x\<rparr> \<and> e k \<noteq> [] \<and> go_ParseBool (e k) = Inl x"
  by (auto simp: envBool_def Let_def split: sum.splits if_splits)

lemma settings_spec_int:
  "snd (envInt e k d) = Some err \<Longrightarrow>
     k \<in> {''STATSD_PORT'', ''GOSTATS_FLUSH_INTERVAL_SECONDS'', ''GOSTATS_PRUNE_IDLE_SECONDS''} \<Longrightarrow>
     settings_spec e (Inl (Panic_env err))"
proof -
  assume "snd (envInt e k d) = Some err"
  then obtain x where "err = \<lparr>env_Key = k, env_Value = e k, env_Err = x\<rparr>" "e k \<noteq> []" "go_Atoi (e k) = Inl x"
    using envInt_error by blast
  moreover assume "k \<in> {''STATSD_PORT'', ''GOSTATS_FLUSH_INTERVAL_SECONDS'', ''GOSTATS_PRUNE_IDLE_SECONDS''}"
  ultimately show ?thesis unfolding settings_spec_def Let_def sum.case
    by (intro exI [of _ k] exI [of _ x]) simp
qed

lemma settings_spec_bool:
  "snd (envBool e k d) = Some err \<Longrightarrow> k \<in> {''USE_STATSD'', ''GOSTATS_LOGGING_SINK_DISABLED''} \<Longrightarrow>
     settings_spec e (Inl (Panic_env err))"
proof -
  assume "snd (envBool e k d) = Some err"
  then obtain x where "err = \<lparr>env_Key = k, env_Value = e k, env_Err = x\<rparr>" "e k \<noteq> []" "go_ParseBool (e k) = Inl x"
    using envBool_error by blast
  moreover assume "k \<in> {''USE_STATSD'', ''GOSTATS_LOGGING_SINK_DISABLED''}"
  ultimately show ?thesis unfolding settings_spec_def Let_def sum.case
    by (intro exI [of _ k] exI [of _ x]) simp
qed

text \<open>
  \<open>GetSettings\<close> panics exactly when one of the five parsed variables is set to a value that
  does not parse, and names that variable; otherwise each field is the parsed value, or the default
  where the variable is not set.
\<close>

theorem GetSettings_total: "settings_spec e (GetSettings e)"
  unfolding GetSettings_def
proof (intro check_env_split [where P = "settings_spec e"])
  assume n: "snd (envBool e ''USE_STATSD'' DefaultUseStatsd) = None"
    "snd (envInt e ''STATSD_PORT'' DefaultStatsdPort) = None"
    "snd (envInt e ''GOSTATS_FLUSH_INTERVAL_SECONDS'' DefaultFlushIntervalS) = None"
    "snd (envBool e ''GOSTATS_LOGGING_SINK_DISABLED'' DefaultLoggingSinkDisabled) = None"
    "snd (envInt e ''GOSTATS_PRUNE_IDLE_SECONDS'' DefaultPruneIdleSeconds) = None"
  have "\<forall>k \<in> {''USE_STATSD'', ''GOSTATS_LOGGING_SINK_DISABLED''}.
      e k = [] \<or> (\<exists>b. go_ParseBool (e k) = Inr b)"
    unfolding ball_simps using envBool_None [OF n(1)] envBool_None [OF n(4)] by blast
  moreover have "\<forall>k \<in> {''STATSD_PORT'', ''GOSTATS_FLUSH_INTERVAL_SECONDS'',
      ''GOSTATS_PRUNE_IDLE_SECONDS''}. e k = [] \<or> (\<exists>i. go_Atoi (e k) = Inr i)"
    unfolding ball_simps
    using envInt_None [OF n(2)] envInt_None [OF n(3)] envInt_None [OF n(5)] by blast
  ultimately show "settings_spec e (Inr \<lparr>UseStatsd = fst (envBool e ''USE_STATSD'' DefaultUseStatsd),
      StatsdHost = envOr e ''STATSD_HOST'' DefaultStatsdHost,
      StatsdProtocol = envOr e ''STATSD_PROTOCOL'' DefaultStatsdProtocol,
      StatsdPort = fst (envInt e ''STATSD_PORT'' DefaultStatsdPort),
      FlushIntervalS = fst (envInt e ''GOSTATS_FLUSH_INTERVAL_SECONDS'' DefaultFlushIntervalS),
      LoggingSinkDisabled = fst (envBool e ''GOSTATS_LOGGING_SINK_DISABLED'' DefaultLoggingSinkDisabled),
      PruneIdleSeconds = fst (envInt e ''GOSTATS_PRUNE_IDLE_SECONDS'' DefaultPruneIdleSeconds)\<rparr>)"
    unfolding settings_spec_def Let_def sum.case DefaultUseStatsd_def DefaultStatsdHost_def
      DefaultStatsdProtocol_def DefaultStatsdPort_def DefaultFlushIntervalS_def
      DefaultLoggingSinkDisabled_def DefaultPruneIdleSeconds_def Settings.simps
    by (intro conjI refl)
qed (rule settings_spec_int settings_spec_bool, assumption, simp)+

text \<open>
  A number set in the environment is read back exactly, over the whole range of \<open>int\<close>.
\<close>

theorem env_int_roundtrip:
  assumes "is_int64 i"
  shows "envInt (env_of [(key, go_Itoa i)]) key d = (i, None)"
  using envInt_Itoa [OF _ assms] by (simp add: env_of_def)

theorem env_int_roundtrip_witness:
  "envInt (env_of [(''STATSD_PORT'', go_Itoa (- 42))]) ''STATSD_PORT'' 8125 = (- 42, None)"
  by (rule env_int_roundtrip) simp

text \<open>
  the default store, for flush intervals of up to \<open>9 * 10 ^ 9\<close> seconds.  With statsd in use its
  ticker runs at the configured interval, and an interval that is not positive panics; without,
  it runs every ten seconds.
\<close>

theorem NewDefaultStore_ticker:
  assumes "GetSettings e = Inr st" and "\<bar>FlushIntervalS st\<bar> \<le> 9 * 10 ^ 9"
  shows "NewDefaultStore e =
           (if \<not> UseStatsd st
            then Inr (if LoggingSinkDisabled st then NullSink else LoggingSink,
                      empty_store (pruneAfterFlushesFromEnv e) True, 10 ^ 10)
            else if FlushIntervalS st \<le> 0 then Inl Panic_ticker
            else Inr (TCPStatsdSink, empty_store (pruneAfterFlushesFromEnv e) True,
                      FlushIntervalS st * 10 ^ 9))"
proof -
  have "wrap_int64 (FlushIntervalS st * Second) = FlushIntervalS st * 10 ^ 9"
  proof -
    have "is_int64 (FlushIntervalS st * 10 ^ 9)" using assms(2) by (simp, linarith)
    then show ?thesis by (simp add: Second_def)
  qed
  then show ?thesis using assms(1)
    by (simp add: NewDefaultStore_def NewStore_def new_ticker_def Second_def mult_le_0_iff)
qed

theorem NewDefaultStore_ticker_witness:
  "NewDefaultStore (env_of []) = Inr (TCPStatsdSink, empty_store 0 True, 5000000000)"
proof -
  have g: "GetSettings (env_of []) = Inr \<lparr>UseStatsd = True, StatsdHost = ''localhost'',
      StatsdProtocol = ''tcp'', StatsdPort = 8125, FlushIntervalS = 5, LoggingSinkDisabled = False,
      PruneIdleSeconds = 0\<rparr>"
    by (simp add: GetSettings_def check_env_def envBool_def envOr_def settings_eval
        DefaultUseStatsd_def DefaultStatsdHost_def DefaultStatsdProtocol_def DefaultStatsdPort_def
        DefaultLoggingSinkDisabled_def)
  have "pruneAfterFlushesFromEnv (env_of []) = 0"
    by (simp add: pruneAfterFlushesFromEnv_def settings_eval)
  with NewDefaultStore_ticker [OF g] show ?thesis by simp
qed

end
