(* ===== verification/Concurrent.thy ===== *)
theory Concurrent
  imports Flush_Counters
begin

text \<open>
  The counters of a store under concurrency.  Threads call \<open>Add\<close>, \<open>Set\<close> and \<open>newCounter\<close> while one
  thread at a time, the holder of \<open>flushMu\<close>, runs the counter part of \<open>Flush\<close>; each step of the model
  is one atomic operation of the code: a load, a store, an atomic add or a compare-and-swap on a
  field, one call on the map, one call on the sink.
\<close>

section \<open>State\<close>

text \<open>The list \<open>names\<close> records the name each counter was created under, for the statements only.\<close>

record shared =
  ctrs :: "counter list"
  names :: "string list"
  cmap :: "nat smap"
  limit :: u32
  calls :: "sink_call list"

abbreviation ctr_at :: "'a shared_scheme \<Rightarrow> nat \<Rightarrow> counter" where
  "ctr_at s a \<equiv> ctrs s ! a"

definition upd_ctr :: "nat \<Rightarrow> (counter \<Rightarrow> counter) \<Rightarrow> 'a shared_scheme \<Rightarrow> 'a shared_scheme" where
  "upd_ctr a f s = s\<lparr>ctrs := (ctrs s)[a := f (ctr_at s a)]\<rparr>"

text \<open>Where a call of \<open>latch\<close> is in its loop: before its first load, its second, or its swap.\<close>

datatype latch = Load_value | Load_last u64 | Swap u64 u64

text \<open>One step of \<open>latch\<close>: it goes on with \<open>Inl\<close> or returns with \<open>Inr\<close>.\<close>

definition latch_step :: "nat \<Rightarrow> latch \<Rightarrow> 'a shared_scheme \<Rightarrow> (latch + u64) \<times> 'a shared_scheme" where
  "latch_step a l s =
     (case l of
        Load_value \<Rightarrow> (Inl (Load_last (currentValue (ctr_at s a))), s)
      | Load_last value \<Rightarrow>
          (let lastSent = lastSentValue (ctr_at s a)
           in if value = lastSent then (Inr 0, s) else (Inl (Swap value lastSent), s))
      | Swap value lastSent \<Rightarrow>
          if lastSentValue (ctr_at s a) = lastSent
          then (Inr (value - lastSent), upd_ctr a (lastSentValue_update (\<lambda>_. value)) s)
          else (Inl Load_value, s))"

text \<open>
  Where a thread is: outside every call; before the write of \<open>Add\<close> or \<open>Set\<close>; before the load of
  \<open>detached\<close> in \<open>maybeRejoin\<close>; before \<open>LoadOrStore\<close> in \<open>rejoin\<close>; in the \<open>latch\<close> of \<open>rejoin\<close> on behalf of
  another counter, to which it then adds; before \<open>Load\<close> and before \<open>LoadOrStore\<close> in \<open>newCounter\<close>.
\<close>

datatype pc = Idle
  | Add_to nat u64
  | Store_to nat u64
  | Check nat
  | Rejoin nat
  | Forward nat nat latch
  | Lookup string
  | Create string

definition thread_step :: "pc \<Rightarrow> 'a shared_scheme \<Rightarrow> pc \<times> 'a shared_scheme" where
  "thread_step p s =
     (case p of
        Idle \<Rightarrow> (Idle, s)
      | Add_to a delta \<Rightarrow> (Check a, upd_ctr a (currentValue_update (\<lambda>v. v + delta)) s)
      | Store_to a value \<Rightarrow> (Check a, upd_ctr a (currentValue_update (\<lambda>_. value)) s)
      | Check a \<Rightarrow>
          (if counter_store (ctr_at s a) \<and> detached (ctr_at s a) \<noteq> 0 then Rejoin a else Idle, s)
      | Rejoin a \<Rightarrow>
          (case smap_LoadOrStore (cmap s) (counter_name (ctr_at s a)) a of (m, v, loaded) \<Rightarrow>
             (if loaded \<and> v \<noteq> a then Forward a v Load_value else Idle, s\<lparr>cmap := m\<rparr>))
      | Forward a other l \<Rightarrow>
          (case latch_step a l s of
             (Inl l, s) \<Rightarrow> (Forward a other l, s)
           | (Inr d, s) \<Rightarrow> (Add_to other d, s))
      | Lookup k \<Rightarrow> (if smap_Load (cmap s) k = None then Create k else Idle, s)
      | Create k \<Rightarrow>
          if smap_Load (cmap s) k \<noteq> None then (Idle, s)
          else let c = (if limit s > 0
                        then zero_counter\<lparr>counter_store := True, counter_name := k\<rparr>
                        else zero_counter)
               in (Idle, s\<lparr>cmap := fst (smap_LoadOrStore (cmap s) k (length (ctrs s))),
                           ctrs := ctrs s @ [c], names := names s @ [k]\<rparr>))"

text \<open>
  Where the flushing thread is: outside; between two callbacks of \<open>Range\<close>; in the \<open>latch\<close> of a
  callback; before the call on the sink; before the store of \<open>idleFlushes\<close>; before the store that
  clears \<open>detached\<close>; before the idle count is compared; before \<open>Delete\<close>; before the store that sets
  \<open>detached\<close>; in the second \<open>latch\<close>; before the second call on the sink; before the second store of
  \<open>idleFlushes\<close>; in \<open>rejoin\<close>.
\<close>

datatype flush_pc = F_idle | F_range
  | F_latch string nat latch
  | F_send string nat u64
  | F_active string nat
  | F_attach string nat
  | F_count string nat
  | F_delete string nat
  | F_detach string nat
  | F_relatch string nat latch
  | F_resend string nat u64
  | F_reset string nat
  | F_rejoin pc

definition flush_step :: "flush_pc \<Rightarrow> 'a shared_scheme \<Rightarrow> flush_pc \<times> 'a shared_scheme" where
  "flush_step p s =
     (case p of
        F_idle \<Rightarrow> (F_idle, s)
      | F_range \<Rightarrow> (F_range, s)
      | F_latch k a l \<Rightarrow>
          (case latch_step a l s of
             (Inl l, s) \<Rightarrow> (F_latch k a l, s)
           | (Inr value, s) \<Rightarrow> (if value \<noteq> 0 then F_send k a value else F_count k a, s))
      | F_send k a value \<Rightarrow> (F_active k a, s\<lparr>calls := calls s @ [FlushCounter k value]\<rparr>)
      | F_active k a \<Rightarrow> (F_attach k a, upd_ctr a (idleFlushes_update (\<lambda>_. 0)) s)
      | F_attach k a \<Rightarrow> (F_range, upd_ctr a (detached_update (\<lambda>_. 0)) s)
      | F_count k a \<Rightarrow>
          if limit s = 0 then (F_range, s)
          else let s = upd_ctr a (idleFlushes_update (\<lambda>n. n + 1)) s
               in (if idleFlushes (ctr_at s a) < limit s then F_range else F_delete k a, s)
      | F_delete k a \<Rightarrow> (F_detach k a, s\<lparr>cmap := smap_Delete (cmap s) k\<rparr>)
      | F_detach k a \<Rightarrow> (F_relatch k a Load_value, upd_ctr a (detached_update (\<lambda>_. 1)) s)
      | F_relatch k a l \<Rightarrow>
          (case latch_step a l s of
             (Inl l, s) \<Rightarrow> (F_relatch k a l, s)
           | (Inr v, s) \<Rightarrow> (if v \<noteq> 0 then F_resend k a v else F_range, s))
      | F_resend k a v \<Rightarrow> (F_reset k a, s\<lparr>calls := calls s @ [FlushCounter k v]\<rparr>)
      | F_reset k a \<Rightarrow> (F_rejoin (Rejoin a), upd_ctr a (idleFlushes_update (\<lambda>_. 0)) s)
      | F_rejoin q \<Rightarrow>
          if q = Idle then (F_range, s) else (case thread_step q s of (q, s) \<Rightarrow> (F_rejoin q, s)))"

section \<open>The system\<close>

text \<open>
  \<open>visited\<close> are the keys the current \<open>Range\<close> has visited: it visits a key at most once, and finds for
  it what the map holds at that moment.  \<open>wrote\<close> is the sum of what the calls write under each name.
\<close>

record system = shared +
  threads :: "pc list"
  flusher :: flush_pc
  visited :: "string list"
  wrote_sum :: "string \<Rightarrow> u64"

datatype action = Call_Add nat nat u64
  | Call_Set nat nat u64
  | Call_New nat string
  | Thread nat
  | Flush_begin
  | Visit string
  | Flusher
  | Range_end

definition set_delta :: "pc \<Rightarrow> 'a shared_scheme \<Rightarrow> string \<Rightarrow> u64" where
  "set_delta p s n =
     (case p of Store_to a v \<Rightarrow> if names s ! a = n then v - currentValue (ctr_at s a) else 0 | _ \<Rightarrow> 0)"

fun sys_step :: "action \<Rightarrow> system \<Rightarrow> system option" where
  "sys_step (Call_Add i a d) s =
     (if i < length (threads s) \<and> threads s ! i = Idle \<and> a < length (ctrs s)
      then Some (s\<lparr>threads := (threads s)[i := Add_to a d],
                   wrote_sum := (wrote_sum s)(names s ! a := wrote_sum s (names s ! a) + d)\<rparr>)
      else None)"
| "sys_step (Call_Set i a v) s =
     (if i < length (threads s) \<and> threads s ! i = Idle \<and> a < length (ctrs s)
      then Some (s\<lparr>threads := (threads s)[i := Store_to a v]\<rparr>) else None)"
| "sys_step (Call_New i k) s =
     (if i < length (threads s) \<and> threads s ! i = Idle
      then Some (s\<lparr>threads := (threads s)[i := Lookup k]\<rparr>) else None)"
| "sys_step (Thread i) s =
     (if i < length (threads s)
      then case thread_step (threads s ! i) s of
             (p, s') \<Rightarrow> Some (s'\<lparr>threads := (threads s)[i := p],
                                 wrote_sum := (\<lambda>n. wrote_sum s n + set_delta (threads s ! i) s n)\<rparr>)
      else None)"
| "sys_step Flush_begin s =
     (if flusher s = F_idle then Some (s\<lparr>flusher := F_range, visited := []\<rparr>) else None)"
| "sys_step (Visit k) s =
     (if flusher s = F_range \<and> k \<notin> set (visited s)
      then case smap_Load (cmap s) k of
             None \<Rightarrow> None
           | Some a \<Rightarrow> Some (s\<lparr>flusher := F_latch k a Load_value, visited := k # visited s\<rparr>)
      else None)"
| "sys_step Flusher s =
     (case flush_step (flusher s) s of (p, s') \<Rightarrow> Some (s'\<lparr>flusher := p\<rparr>))"
| "sys_step Range_end s =
     (if flusher s = F_range then Some (s\<lparr>flusher := F_idle\<rparr>) else None)"

fun sys_run :: "action list \<Rightarrow> system \<Rightarrow> system option" where
  "sys_run [] s = Some s"
| "sys_run (a # as) s = Option.bind (sys_step a s) (sys_run as)"

definition sys_init :: "nat \<Rightarrow> u32 \<Rightarrow> system" where
  "sys_init n p = \<lparr>ctrs = [], names = [], cmap = [], limit = p, calls = [],
     threads = replicate n Idle, flusher = F_idle, visited = [], wrote_sum = (\<lambda>_. 0)\<rparr>"

text \<open>No call is in progress.\<close>

definition quiescent :: "system \<Rightarrow> bool" where
  "quiescent s \<longleftrightarrow> list_all (\<lambda>p. p = Idle) (threads s) \<and> flusher s = F_idle"

end
