(* ===== verification/Concurrent_Inv.thy ===== *)
theory Concurrent_Inv
  imports Concurrent
begin

text \<open>
  The invariants of the concurrent system: what the program counters know, that no counter is ever
  lost from sight, and that no step loses or duplicates a delta.
\<close>

section \<open>Well-formed states\<close>

definition shared_ok :: "'a shared_scheme \<Rightarrow> bool" where
  "shared_ok s \<longleftrightarrow>
     length (names s) = length (ctrs s) \<and> smap_ok (cmap s) \<and>
     (\<forall>k a. smap_Load (cmap s) k = Some a \<longrightarrow> a < length (ctrs s) \<and> names s ! a = k) \<and>
     (\<forall>a < length (ctrs s). (counter_store (ctr_at s a) \<longleftrightarrow> limit s \<noteq> 0) \<and>
        (limit s \<noteq> 0 \<longrightarrow> counter_name (ctr_at s a) = names s ! a))"

definition pc_ok :: "'a shared_scheme \<Rightarrow> pc \<Rightarrow> bool" where
  "pc_ok s p \<longleftrightarrow>
     (case p of
        Add_to a d \<Rightarrow> a < length (ctrs s)
      | Store_to a v \<Rightarrow> a < length (ctrs s)
      | Check a \<Rightarrow> a < length (ctrs s)
      | Rejoin a \<Rightarrow> a < length (ctrs s) \<and> limit s \<noteq> 0
      | Forward a b l \<Rightarrow> a < length (ctrs s) \<and> b < length (ctrs s) \<and> names s ! a = names s ! b
      | _ \<Rightarrow> True)"

definition rejoining :: "pc \<Rightarrow> bool" where
  "rejoining p \<longleftrightarrow> (case p of Store_to a v \<Rightarrow> False | Lookup k \<Rightarrow> False | Create k \<Rightarrow> False | _ \<Rightarrow> True)"

definition in_map :: "'a shared_scheme \<Rightarrow> string \<Rightarrow> nat \<Rightarrow> bool" where
  "in_map s k a \<longleftrightarrow> smap_Load (cmap s) k = Some a"

definition removed :: "'a shared_scheme \<Rightarrow> string \<Rightarrow> nat \<Rightarrow> bool" where
  "removed s k a \<longleftrightarrow> a < length (ctrs s) \<and> names s ! a = k \<and> limit s \<noteq> 0"

definition flush_ok :: "'a shared_scheme \<Rightarrow> flush_pc \<Rightarrow> bool" where
  "flush_ok s p \<longleftrightarrow>
     (case p of
        F_latch k a l \<Rightarrow> in_map s k a
      | F_send k a v \<Rightarrow> in_map s k a
      | F_active k a \<Rightarrow> in_map s k a
      | F_attach k a \<Rightarrow> in_map s k a
      | F_count k a \<Rightarrow> in_map s k a
      | F_delete k a \<Rightarrow> in_map s k a \<and> limit s \<noteq> 0
      | F_detach k a \<Rightarrow> removed s k a
      | F_relatch k a l \<Rightarrow> removed s k a
      | F_resend k a v \<Rightarrow> removed s k a
      | F_reset k a \<Rightarrow> removed s k a
      | F_rejoin q \<Rightarrow> pc_ok s q \<and> rejoining q
      | _ \<Rightarrow> True)"

text \<open>
  A counter is in sight when it is in the map under its name, or marked, so that its next write
  sees the mark, or about to be marked by the flushing thread.
\<close>

definition in_sight :: "'a shared_scheme \<Rightarrow> flush_pc \<Rightarrow> nat \<Rightarrow> bool" where
  "in_sight s p a \<longleftrightarrow> in_map s (names s ! a) a \<or> limit s \<noteq> 0 \<and> detached (ctr_at s a) \<noteq> 0 \<or>
     (\<exists>k. p = F_detach k a)"

section \<open>The balance\<close>

definition held :: "'a shared_scheme \<Rightarrow> string \<Rightarrow> u64" where
  "held s n = (\<Sum>a < length (ctrs s). if names s ! a = n then pending (ctr_at s a) else 0)"

definition inflight :: "'a shared_scheme \<Rightarrow> string \<Rightarrow> pc \<Rightarrow> u64" where
  "inflight s n p = (case p of Add_to a d \<Rightarrow> if names s ! a = n then d else 0 | _ \<Rightarrow> 0)"

definition flush_inflight :: "'a shared_scheme \<Rightarrow> string \<Rightarrow> flush_pc \<Rightarrow> u64" where
  "flush_inflight s n p =
     (case p of
        F_send k a v \<Rightarrow> if k = n then v else 0
      | F_resend k a v \<Rightarrow> if k = n then v else 0
      | F_rejoin q \<Rightarrow> inflight s n q
      | _ \<Rightarrow> 0)"

definition total :: "system \<Rightarrow> string \<Rightarrow> u64" where
  "total s n = delivered n (calls s) + held s n +
     sum_list (map (inflight s n) (threads s)) + flush_inflight s n (flusher s)"

section \<open>Effects of the steps\<close>

lemma upd_ctr_sel [simp]:
  "names (upd_ctr a f s) = names s" "cmap (upd_ctr a f s) = cmap s"
  "limit (upd_ctr a f s) = limit s" "calls (upd_ctr a f s) = calls s"
  "length (ctrs (upd_ctr a f s)) = length (ctrs s)"
  "in_map (upd_ctr a f s) k b = in_map s k b"
  by (simp_all add: upd_ctr_def in_map_def)

lemma upd_ctr_at:
  "b < length (ctrs s) \<Longrightarrow>
     ctr_at (upd_ctr a f s) b = (if a = b then f (ctr_at s a) else ctr_at s b)"
  by (simp add: upd_ctr_def nth_list_update)

lemma held_upd:
  assumes "a < length (ctrs s)"
  shows "held (upd_ctr a f s) n =
           held s n + (if names s ! a = n then pending (f (ctr_at s a)) - pending (ctr_at s a) else 0)"
proof -
  let ?A = "{..<length (ctrs s)}"
  let ?g = "\<lambda>b. if names s ! b = n then pending (ctr_at s b) else 0"
  let ?h = "\<lambda>b. if names s ! b = n then pending (ctr_at (upd_ctr a f s) b) else 0"
  have "sum ?h ?A = ?h a + sum ?h (?A - {a})" using assms by (intro sum.remove) auto
  also have "sum ?h (?A - {a}) = sum ?g (?A - {a})" by (intro sum.cong) (auto simp: upd_ctr_at)
  also have "?h a = (if names s ! a = n then pending (f (ctr_at s a)) else 0)"
    using assms by (simp add: upd_ctr_at)
  finally have h: "sum ?h ?A =
      (if names s ! a = n then pending (f (ctr_at s a)) else 0) + sum ?g (?A - {a})" .
  have g: "sum ?g ?A = ?g a + sum ?g (?A - {a})" using assms by (intro sum.remove) auto
  show ?thesis unfolding held_def by (simp add: h g)
qed

lemma shared_ok_upd:
  "shared_ok s \<Longrightarrow> counter_store (f (ctr_at s a)) = counter_store (ctr_at s a) \<Longrightarrow>
     counter_name (f (ctr_at s a)) = counter_name (ctr_at s a) \<Longrightarrow> shared_ok (upd_ctr a f s)"
  by (auto simp: shared_ok_def upd_ctr_at)

text \<open>\<open>latch\<close> changes nothing until it returns, and returns what it takes off the pending delta.\<close>

lemma latch_step_Inl: "latch_step a l s = (Inl l', s') \<Longrightarrow> s' = s"
  by (auto simp: latch_step_def Let_def split: latch.splits if_splits)

lemma latch_step_Inr:
  assumes "latch_step a l s = (Inr d, s')"
  obtains v where "s' = upd_ctr a (lastSentValue_update (\<lambda>_. v)) s"
    "d = v - lastSentValue (ctr_at s a)"
proof (cases l)
  case (Load_last v)
  have "lastSentValue_update (\<lambda>_. lastSentValue c) c = c" for c :: counter by (cases c) simp
  with Load_last assms show ?thesis
    by (intro that [of "lastSentValue (ctr_at s a)"])
       (auto simp: latch_step_def Let_def upd_ctr_def split: if_splits)
qed (use assms that in \<open>auto simp: latch_step_def split: if_splits\<close>)

text \<open>What a step of a thread may do to the state that others rely on.\<close>

definition extends :: "'a shared_scheme \<Rightarrow> 'a shared_scheme \<Rightarrow> bool" where
  "extends s s' \<longleftrightarrow> length (ctrs s) \<le> length (ctrs s') \<and> limit s' = limit s \<and>
     (\<forall>a < length (ctrs s). names s' ! a = names s ! a)"

definition keeps :: "'a shared_scheme \<Rightarrow> 'a shared_scheme \<Rightarrow> bool" where
  "keeps s s' \<longleftrightarrow> extends s s' \<and> (\<forall>k a. in_map s k a \<longrightarrow> in_map s' k a) \<and>
     (\<forall>a < length (ctrs s). detached (ctr_at s' a) = detached (ctr_at s a)) \<and>
     (\<forall>a < length (ctrs s'). length (ctrs s) \<le> a \<longrightarrow> in_map s' (names s' ! a) a) \<and>
     calls s' = calls s"

lemma extends_pc_ok: "extends s s' \<Longrightarrow> pc_ok s p \<Longrightarrow> pc_ok s' p"
  by (auto simp: extends_def pc_ok_def split: pc.splits)

lemma extends_inflight: "extends s s' \<Longrightarrow> pc_ok s p \<Longrightarrow> inflight s' n p = inflight s n p"
  by (auto simp: extends_def pc_ok_def inflight_def split: pc.splits)

lemma keeps_flush_ok:
  assumes "keeps s s'" and "flush_ok s p"
  shows "flush_ok s' p"
proof -
  have "extends s s'" "\<And>k a. in_map s k a \<Longrightarrow> in_map s' k a" "limit s' = limit s"
    "\<And>k a. removed s k a \<Longrightarrow> removed s' k a"
    using assms(1) by (auto simp: keeps_def extends_def removed_def)
  then show ?thesis using assms(2) extends_pc_ok [of s s']
    by (auto simp: flush_ok_def split: flush_pc.splits)
qed

lemma keeps_flush_inflight:
  "keeps s s' \<Longrightarrow> flush_ok s p \<Longrightarrow> flush_inflight s' n p = flush_inflight s n p"
  by (auto simp: keeps_def flush_inflight_def flush_ok_def extends_inflight split: flush_pc.splits)

lemma keeps_in_sight:
  assumes "keeps s s'" and "\<forall>a < length (ctrs s). in_sight s p a" and "a < length (ctrs s')"
  shows "in_sight s' p a"
proof (cases "a < length (ctrs s)")
  case True
  with assms show ?thesis by (auto simp: in_sight_def keeps_def extends_def)
next
  case False
  with assms show ?thesis by (auto simp: in_sight_def keeps_def)
qed

lemma keeps_upd:
  "detached (f (ctr_at s a)) = detached (ctr_at s a) \<Longrightarrow> keeps s (upd_ctr a f s)"
  by (auto simp: keeps_def extends_def upd_ctr_at)

lemma keeps_refl: "keeps s s"
  by (simp add: keeps_def extends_def)

section \<open>A step of a thread\<close>

definition thread_good :: "'a shared_scheme \<Rightarrow> pc \<Rightarrow> pc \<Rightarrow> 'a shared_scheme \<Rightarrow> bool" where
  "thread_good s p p' s' \<longleftrightarrow> shared_ok s' \<and> pc_ok s' p' \<and> (rejoining p \<longrightarrow> rejoining p') \<and> keeps s s' \<and>
     (\<forall>n. held s' n + inflight s' n p' = held s n + inflight s n p + set_delta p s n)"

lemma thread_step_Forward:
  assumes "shared_ok s" and "pc_ok s (Forward a b l)" and "thread_step (Forward a b l) s = (p', s')"
  shows "thread_good s (Forward a b l) p' s'"
proof -
  have ab: "a < length (ctrs s)" "b < length (ctrs s)" "names s ! a = names s ! b"
    using assms(2) by (simp_all add: pc_ok_def)
  obtain r t where lt: "latch_step a l s = (r, t)" by force
  show ?thesis
  proof (cases r)
    case (Inl l')
    with lt assms(3) latch_step_Inl have "p' = Forward a b l'" "s' = s"
      by (auto simp: thread_step_def)
    then show ?thesis using assms
      by (simp add: thread_good_def pc_ok_def rejoining_def keeps_refl inflight_def set_delta_def)
  next
    case (Inr d)
    with lt obtain v where v: "t = upd_ctr a (lastSentValue_update (\<lambda>_. v)) s"
      "d = v - lastSentValue (ctr_at s a)"
      by (auto elim: latch_step_Inr)
    with lt Inr assms(3) have "p' = Add_to b d" "s' = upd_ctr a (lastSentValue_update (\<lambda>_. v)) s"
      by (auto simp: thread_step_def)
    then show ?thesis using ab v(2) assms(1)
      by (simp add: thread_good_def pc_ok_def rejoining_def keeps_upd inflight_def set_delta_def
          shared_ok_upd held_upd pending_def)
  qed
qed

lemma LoadOrStore_cases:
  obtains (found) b where "smap_Load m k = Some b" "smap_LoadOrStore m k a = (m, b, True)"
  | (stored) "smap_Load m k = None" "smap_LoadOrStore m k a = (m @ [(k, a)], a, False)"
  by (cases "map_of m k") (auto simp: smap_Load_def smap_LoadOrStore_def)

lemma smap_Load_snoc:
  "smap_Load m k = None \<Longrightarrow> smap_Load (m @ [(k, a)]) l = (if l = k then Some a else smap_Load m l)"
  using smap_Load_append [of m k a] by (simp add: smap_Load_def)

lemma smap_ok_snoc: "smap_ok m \<Longrightarrow> smap_Load m k = None \<Longrightarrow> smap_ok (m @ [(k, a)])"
  by (auto simp: smap_ok_def smap_Load_def map_of_eq_None_iff)

lemma thread_step_Rejoin:
  assumes "shared_ok s" and "pc_ok s (Rejoin a)" and "thread_step (Rejoin a) s = (p', s')"
  shows "thread_good s (Rejoin a) p' s'"
proof -
  have a: "a < length (ctrs s)" "counter_name (ctr_at s a) = names s ! a"
    using assms(1,2) by (auto simp: pc_ok_def shared_ok_def)
  show ?thesis
  proof (cases rule: LoadOrStore_cases [of "cmap s" "names s ! a" a])
    case (found b)
    then have "b < length (ctrs s)" "names s ! b = names s ! a"
      using assms(1) by (auto simp: shared_ok_def)
    with found assms(1,3) a show ?thesis
      by (auto simp: thread_step_def thread_good_def pc_ok_def rejoining_def keeps_refl inflight_def
          set_delta_def)
  next
    case stored
    with assms(3) a have s': "p' = Idle" "s' = s\<lparr>cmap := cmap s @ [(names s ! a, a)]\<rparr>"
      by (auto simp: thread_step_def)
    have "shared_ok s'" using assms(1) a stored(1)
      by (auto simp: s' shared_ok_def smap_Load_snoc smap_ok_snoc split: if_splits)
    then show ?thesis using s' stored(1)
      by (auto simp: thread_good_def pc_ok_def rejoining_def keeps_def extends_def in_map_def
          smap_Load_snoc inflight_def set_delta_def held_def cong: if_cong)
  qed
qed

lemma thread_step_Create:
  assumes "shared_ok s" and "thread_step (Create k) s = (p', s')"
  shows "thread_good s (Create k) p' s'"
proof (cases "smap_Load (cmap s) k")
  case (Some b)
  with assms show ?thesis
    by (simp add: thread_step_def thread_good_def pc_ok_def rejoining_def keeps_refl inflight_def
        set_delta_def)
next
  case None
  let ?L = "length (ctrs s)"
  define c where "c = (if limit s > 0 then zero_counter\<lparr>counter_store := True, counter_name := k\<rparr>
                        else zero_counter)"
  have c: "pending c = 0" "counter_store c \<longleftrightarrow> limit s \<noteq> 0" "limit s \<noteq> 0 \<longrightarrow> counter_name c = k"
    by (auto simp: c_def zero_counter_def pending_def word_gt_0)
  have los: "fst (smap_LoadOrStore (cmap s) k ?L) = cmap s @ [(k, ?L)]"
    using None by (simp add: smap_Load_def smap_LoadOrStore_def)
  have s': "p' = Idle" "s' = s\<lparr>cmap := cmap s @ [(k, ?L)], ctrs := ctrs s @ [c], names := names s @ [k]\<rparr>"
    using assms(2) None by (auto simp: thread_step_def c_def los Let_def)
  have len: "length (names s) = ?L" using assms(1) by (simp add: shared_ok_def)
  have "shared_ok s'"
    using assms(1) None len c
    by (auto simp: s' shared_ok_def smap_Load_snoc smap_ok_snoc nth_append less_Suc_eq split: if_splits)
  moreover have "held s' n = held s n" for n
    using c(1) len by (simp add: held_def s' nth_append cong: if_cong sum.cong_simp)
  ultimately show ?thesis using s' None len
    by (auto simp: thread_good_def pc_ok_def rejoining_def keeps_def extends_def in_map_def
        smap_Load_snoc inflight_def set_delta_def nth_append)
qed

theorem thread_step_good:
  assumes "shared_ok s" and "pc_ok s p" and "thread_step p s = (p', s')"
  shows "thread_good s p p' s'"
proof (cases p)
  case (Rejoin a)
  with assms show ?thesis using thread_step_Rejoin by blast
next
  case (Forward a b l)
  with assms show ?thesis using thread_step_Forward by blast
next
  case (Create k)
  with assms show ?thesis using thread_step_Create by blast
next
  case (Check a)
  with assms show ?thesis
    by (auto simp: thread_step_def thread_good_def pc_ok_def rejoining_def keeps_refl inflight_def
        set_delta_def shared_ok_def)
qed (use assms in \<open>auto simp: thread_step_def thread_good_def pc_ok_def rejoining_def keeps_refl
       keeps_upd inflight_def set_delta_def shared_ok_upd held_upd pending_def\<close>)

section \<open>A step of the flushing thread\<close>

definition flush_good :: "'a shared_scheme \<Rightarrow> flush_pc \<Rightarrow> flush_pc \<Rightarrow> 'a shared_scheme \<Rightarrow> bool" where
  "flush_good s p p' s' \<longleftrightarrow> shared_ok s' \<and> flush_ok s' p' \<and> extends s s' \<and>
     (\<forall>a < length (ctrs s'). in_sight s' p' a) \<and>
     (\<forall>n. delivered n (calls s') + held s' n + flush_inflight s' n p' =
          delivered n (calls s) + held s n + flush_inflight s n p)"

lemma in_sight_switch:
  "in_sight s p a \<Longrightarrow> (\<And>k. p \<noteq> F_detach k a) \<Longrightarrow> in_sight s p' a"
  by (auto simp: in_sight_def)

lemma in_map_range: "shared_ok s \<Longrightarrow> in_map s k a \<Longrightarrow> a < length (ctrs s) \<and> names s ! a = k"
  by (auto simp: shared_ok_def in_map_def)

lemma in_sight_upd:
  "in_sight s p b \<Longrightarrow> b < length (ctrs s) \<Longrightarrow> detached (f (ctr_at s a)) = detached (ctr_at s a) \<Longrightarrow>
     in_sight (upd_ctr a f s) p b"
  by (auto simp: in_sight_def upd_ctr_at)

text \<open>A step that changes at most one counter, and not its mark, and keeps the map.\<close>

lemma flush_good_upd:
  assumes "shared_ok s" and "\<forall>b < length (ctrs s). in_sight s p b" and "a < length (ctrs s)"
    and "\<And>k a. p \<noteq> F_detach k a"
    and "counter_store (f (ctr_at s a)) = counter_store (ctr_at s a)"
    and "counter_name (f (ctr_at s a)) = counter_name (ctr_at s a)"
    and "detached (f (ctr_at s a)) = detached (ctr_at s a)"
    and "flush_ok (upd_ctr a f s) p'"
    and "\<And>n. (if names s ! a = n then pending (f (ctr_at s a)) - pending (ctr_at s a) else 0) +
            flush_inflight s n p' = flush_inflight s n p"
  shows "flush_good s p p' (upd_ctr a f s)"
proof -
  have "in_sight (upd_ctr a f s) p' b" if "b < length (ctrs s)" for b
    using in_sight_switch [OF in_sight_upd] assms(2,4,7) that by blast
  moreover have "flush_inflight (upd_ctr a f s) n p' = flush_inflight s n p'" for n
    by (simp add: flush_inflight_def inflight_def split: flush_pc.split pc.split)
  ultimately show ?thesis using assms
    by (simp add: flush_good_def shared_ok_upd extends_def held_upd add.assoc)
qed

lemma flush_good_stay:
  assumes "shared_ok s" and "\<forall>b < length (ctrs s). in_sight s p b" and "\<And>k a. p \<noteq> F_detach k a"
    and "flush_ok s p'" and "\<And>n. flush_inflight s n p' = flush_inflight s n p"
  shows "flush_good s p p' s"
proof -
  have "in_sight s p' b" if "b < length (ctrs s)" for b
    using in_sight_switch [of s p b p'] assms(2,3) that by blast
  then show ?thesis using assms(1,4,5) by (simp add: flush_good_def extends_def)
qed

lemma flush_good_send:
  assumes "shared_ok s" and "\<forall>b < length (ctrs s). in_sight s p b" and "\<And>k a. p \<noteq> F_detach k a"
    and "flush_ok (s\<lparr>calls := calls s @ [FlushCounter k v]\<rparr>) p'"
    and "\<And>n. (if k = n then v else 0) + flush_inflight s n p' = flush_inflight s n p"
  shows "flush_good s p p' (s\<lparr>calls := calls s @ [FlushCounter k v]\<rparr>)"
proof -
  let ?t = "s\<lparr>calls := calls s @ [FlushCounter k v]\<rparr>"
  have "in_sight ?t p' b" if "b < length (ctrs s)" for b
    using in_sight_switch [of s p b p'] assms(2,3) that by (simp add: in_sight_def in_map_def)
  moreover have "flush_inflight ?t n p' = flush_inflight s n p'" "held ?t n = held s n" for n
    by (simp_all add: flush_inflight_def inflight_def held_def split: flush_pc.split pc.split cong: if_cong)
  moreover have "shared_ok ?t" using assms(1) by (simp add: shared_ok_def)
  ultimately show ?thesis using assms(4,5)
    by (simp add: flush_good_def extends_def add_ac)
qed

lemma flush_step_latch:
  assumes "shared_ok s" and "\<forall>b < length (ctrs s). in_sight s p b" and "\<And>k a. p \<noteq> F_detach k a"
    and "a < length (ctrs s)" and "names s ! a = k" and "\<And>n. flush_inflight s n p = 0"
    and "latch_step a l s = (r, t)"
    and "\<And>l'. r = Inl l' \<Longrightarrow> flush_ok s p' \<and> (\<forall>n. flush_inflight s n p' = 0)"
    and "\<And>d. r = Inr d \<Longrightarrow> (\<forall>f. flush_ok (upd_ctr a f s) p') \<and>
            (\<forall>n. flush_inflight s n p' = (if k = n then d else 0))"
  shows "flush_good s p p' t"
proof (cases r)
  case (Inl l')
  then have "t = s" using assms(7) latch_step_Inl by blast
  then show ?thesis using assms(1-3,6,8) Inl by (auto intro!: flush_good_stay)
next
  case (Inr d)
  with assms(7) obtain v where "t = upd_ctr a (lastSentValue_update (\<lambda>_. v)) s"
    "d = v - lastSentValue (ctr_at s a)"
    by (auto elim: latch_step_Inr)
  with assms(1-6) assms(9) [OF Inr] show ?thesis
    by (auto intro!: flush_good_upd simp: pending_def)
qed

lemma flush_ok_upd [simp]: "flush_ok (upd_ctr a f s) p = flush_ok s p"
  by (simp add: flush_ok_def removed_def pc_ok_def split: flush_pc.split pc.split)

lemma flush_step_delete:
  assumes "shared_ok s" and "flush_ok s (F_delete k a)"
    and "\<forall>b < length (ctrs s). in_sight s (F_delete k a) b"
  shows "flush_good s (F_delete k a) (F_detach k a) (s\<lparr>cmap := smap_Delete (cmap s) k\<rparr>)"
proof -
  let ?t = "s\<lparr>cmap := smap_Delete (cmap s) k\<rparr>"
  have k: "in_map s k a" "limit s \<noteq> 0" using assms(2) by (simp_all add: flush_ok_def)
  note a = in_map_range [OF assms(1) k(1)]
  have load: "smap_Load (cmap ?t) l = (if l = k then None else smap_Load (cmap s) l)" for l
    using sm.load_delete [of "cmap s" k] assms(1) by (simp add: shared_ok_def)
  have "shared_ok ?t" using assms(1) sm.ok_delete [of "cmap s" k] load
    by (auto simp: shared_ok_def split: if_splits)
  moreover have "in_sight ?t (F_detach k a) b" if "b < length (ctrs s)" for b
    using assms(3) that k(1) load by (fastforce simp: in_sight_def in_map_def)
  ultimately show ?thesis using a k(2)
    by (simp add: flush_good_def flush_ok_def removed_def extends_def held_def flush_inflight_def
        cong: if_cong)
qed

lemma flush_step_detach:
  assumes "shared_ok s" and "flush_ok s (F_detach k a)"
    and "\<forall>b < length (ctrs s). in_sight s (F_detach k a) b"
  shows "flush_good s (F_detach k a) (F_relatch k a Load_value) (upd_ctr a (detached_update (\<lambda>_. 1)) s)"
proof -
  let ?t = "upd_ctr a (detached_update (\<lambda>_. 1)) s"
  have a: "removed s k a" using assms(2) by (simp add: flush_ok_def)
  then have "in_sight ?t (F_relatch k a Load_value) b" if "b < length (ctrs s)" for b
    using assms(3) that by (auto simp: in_sight_def upd_ctr_at removed_def)
  then show ?thesis using assms(1) a
    by (simp add: flush_good_def shared_ok_upd flush_ok_def removed_def extends_def held_upd
        flush_inflight_def pending_def)
qed

lemma flush_step_attach:
  assumes "shared_ok s" and "flush_ok s (F_attach k a)"
    and "\<forall>b < length (ctrs s). in_sight s (F_attach k a) b"
  shows "flush_good s (F_attach k a) F_range (upd_ctr a (detached_update (\<lambda>_. 0)) s)"
proof -
  let ?t = "upd_ctr a (detached_update (\<lambda>_. 0)) s"
  have k: "in_map s k a" using assms(2) by (simp add: flush_ok_def)
  note a = in_map_range [OF assms(1) k]
  then have "in_sight ?t F_range b" if "b < length (ctrs s)" for b
    using assms(3) that k by (auto simp: in_sight_def upd_ctr_at)
  then show ?thesis using assms(1) a
    by (simp add: flush_good_def shared_ok_upd flush_ok_def extends_def held_upd
        flush_inflight_def pending_def)
qed

lemma flush_step_rejoin:
  assumes "shared_ok s" and "flush_ok s (F_rejoin q)"
    and "\<forall>b < length (ctrs s). in_sight s (F_rejoin q) b" and "thread_step q s = (q', s')"
  shows "flush_good s (F_rejoin q) (F_rejoin q') s'"
proof -
  have q: "pc_ok s q" "rejoining q" using assms(2) by (simp_all add: flush_ok_def)
  have g: "thread_good s q q' s'" by (rule thread_step_good [OF assms(1) q(1) assms(4)])
  then have "in_sight s' (F_rejoin q') b" if "b < length (ctrs s')" for b
    using keeps_in_sight [OF _ assms(3) that] in_sight_switch
    by (auto simp: thread_good_def)
  moreover have "set_delta q s n = 0" for n
    using q(2) by (auto simp: set_delta_def rejoining_def split: pc.splits)
  ultimately show ?thesis using g q
    by (auto simp: flush_good_def thread_good_def flush_ok_def keeps_def flush_inflight_def add.assoc)
qed

theorem flush_step_good:
  assumes "shared_ok s" and "flush_ok s p" and "\<forall>b < length (ctrs s). in_sight s p b"
    and "flush_step p s = (p', s')"
  shows "flush_good s p p' s'"
proof (cases p)
  case (F_latch k a l)
  obtain r t where lt: "latch_step a l s = (r, t)" by force
  have a: "in_map s k a" using assms(2) F_latch by (simp add: flush_ok_def)
  show ?thesis
    using flush_step_latch [OF assms(1) _ _ _ _ _ lt, of p k p'] assms F_latch lt a
      in_map_range [OF assms(1) a]
    by (cases r) (auto simp: flush_step_def flush_ok_def flush_inflight_def split: if_splits)
next
  case (F_relatch k a l)
  obtain r t where lt: "latch_step a l s = (r, t)" by force
  have a: "removed s k a" using assms(2) F_relatch by (simp add: flush_ok_def)
  show ?thesis
    using flush_step_latch [OF assms(1) _ _ _ _ _ lt, of p k p'] assms F_relatch lt a
    by (cases r) (auto simp: flush_step_def flush_ok_def flush_inflight_def removed_def split: if_splits)
next
  case (F_send k a v)
  with assms flush_good_send [OF assms(1,3)] show ?thesis
    by (auto simp: flush_step_def flush_ok_def flush_inflight_def in_map_def)
next
  case (F_resend k a v)
  with assms flush_good_send [OF assms(1,3)] show ?thesis
    by (auto simp: flush_step_def flush_ok_def flush_inflight_def removed_def)
next
  case (F_active k a)
  with assms in_map_range [OF assms(1), of k a] show ?thesis
    by (auto simp: flush_step_def flush_ok_def flush_inflight_def pending_def intro!: flush_good_upd)
next
  case (F_reset k a)
  with assms show ?thesis
    by (auto simp: flush_step_def flush_ok_def flush_inflight_def pending_def removed_def inflight_def
        pc_ok_def rejoining_def intro!: flush_good_upd)
next
  case (F_count k a)
  have a: "in_map s k a" using assms(2) F_count by (simp add: flush_ok_def)
  note r = in_map_range [OF assms(1) a]
  show ?thesis
  proof (cases "limit s = 0")
    case True
    with assms F_count show ?thesis
      by (auto simp: flush_step_def flush_ok_def flush_inflight_def intro!: flush_good_stay)
  next
    case False
    with assms F_count a r show ?thesis
      by (auto simp: flush_step_def flush_ok_def flush_inflight_def Let_def pending_def
          intro!: flush_good_upd)
  qed
next
  case (F_delete k a)
  with assms flush_step_delete [OF assms(1), of k a] show ?thesis by (simp add: flush_step_def)
next
  case (F_detach k a)
  with assms flush_step_detach [OF assms(1), of k a] show ?thesis by (simp add: flush_step_def)
next
  case (F_attach k a)
  with assms flush_step_attach [OF assms(1), of k a] show ?thesis by (simp add: flush_step_def)
next
  case (F_rejoin q)
  then show ?thesis
  proof (cases "q = Idle")
    case True
    with assms F_rejoin show ?thesis
      by (auto simp: flush_step_def flush_ok_def flush_inflight_def inflight_def intro!: flush_good_stay)
  next
    case False
    with assms F_rejoin flush_step_rejoin [OF assms(1), of q] show ?thesis
      by (auto simp: flush_step_def split: prod.splits)
  qed
qed (use assms in \<open>auto simp: flush_step_def flush_ok_def flush_inflight_def intro!: flush_good_stay\<close>)

section \<open>The system\<close>

definition sys_ok :: "system \<Rightarrow> bool" where
  "sys_ok s \<longleftrightarrow> shared_ok s \<and> (\<forall>p \<in> set (threads s). pc_ok s p) \<and> flush_ok s (flusher s) \<and>
     (\<forall>a < length (ctrs s). in_sight s (flusher s) a) \<and> (\<forall>n. total s n = wrote_sum s n)"

lemma system_sel [simp]:
  fixes s :: system
  shows "shared_ok (s\<lparr>threads := ts\<rparr>) = shared_ok s" "shared_ok (s\<lparr>flusher := p\<rparr>) = shared_ok s"
    "shared_ok (s\<lparr>visited := vs\<rparr>) = shared_ok s" "shared_ok (s\<lparr>wrote_sum := w\<rparr>) = shared_ok s"
    "pc_ok (s\<lparr>threads := ts\<rparr>) = pc_ok s" "pc_ok (s\<lparr>flusher := p\<rparr>) = pc_ok s"
    "pc_ok (s\<lparr>visited := vs\<rparr>) = pc_ok s" "pc_ok (s\<lparr>wrote_sum := w\<rparr>) = pc_ok s"
    "flush_ok (s\<lparr>threads := ts\<rparr>) = flush_ok s" "flush_ok (s\<lparr>flusher := p\<rparr>) = flush_ok s"
    "flush_ok (s\<lparr>visited := vs\<rparr>) = flush_ok s" "flush_ok (s\<lparr>wrote_sum := w\<rparr>) = flush_ok s"
    "in_sight (s\<lparr>threads := ts\<rparr>) = in_sight s" "in_sight (s\<lparr>flusher := p\<rparr>) = in_sight s"
    "in_sight (s\<lparr>visited := vs\<rparr>) = in_sight s" "in_sight (s\<lparr>wrote_sum := w\<rparr>) = in_sight s"
    "held (s\<lparr>threads := ts\<rparr>) = held s" "held (s\<lparr>flusher := p\<rparr>) = held s"
    "held (s\<lparr>visited := vs\<rparr>) = held s" "held (s\<lparr>wrote_sum := w\<rparr>) = held s"
    "inflight (s\<lparr>threads := ts\<rparr>) = inflight s" "inflight (s\<lparr>flusher := p\<rparr>) = inflight s"
    "inflight (s\<lparr>visited := vs\<rparr>) = inflight s" "inflight (s\<lparr>wrote_sum := w\<rparr>) = inflight s"
    "flush_inflight (s\<lparr>threads := ts\<rparr>) = flush_inflight s"
    "flush_inflight (s\<lparr>flusher := p\<rparr>) = flush_inflight s"
    "flush_inflight (s\<lparr>visited := vs\<rparr>) = flush_inflight s"
    "flush_inflight (s\<lparr>wrote_sum := w\<rparr>) = flush_inflight s"
  by (simp_all add: shared_ok_def pc_ok_def [abs_def] flush_ok_def [abs_def] in_sight_def [abs_def]
      in_map_def [abs_def] removed_def [abs_def] held_def [abs_def] inflight_def [abs_def] flush_inflight_def [abs_def]
      cong: if_cong)

lemma sum_list_upd:
  "i < length xs \<Longrightarrow> sum_list (xs[i := x]) = sum_list xs + x - (xs ! i :: 'a::ab_group_add)"
  by (induction xs arbitrary: i) (auto simp: algebra_simps split: nat.split)

lemma sys_ok_init: "sys_ok (sys_init n p)"
  by (simp add: sys_ok_def sys_init_def shared_ok_def smap_ok_def smap_Load_def pc_ok_def flush_ok_def
      total_def held_def flush_inflight_def inflight_def [abs_def] sum_list_replicate)

text \<open>A call is begun by an idle thread.\<close>

lemma sys_ok_call:
  assumes "sys_ok s" and "i < length (threads s)" and "threads s ! i = Idle" and "pc_ok s p"
    and "\<And>n. w n = wrote_sum s n + inflight s n p"
  shows "sys_ok (s\<lparr>threads := (threads s)[i := p], wrote_sum := w\<rparr>)"
proof -
  have "inflight s n Idle = 0" for n by (simp add: inflight_def)
  then have "total (s\<lparr>threads := (threads s)[i := p], wrote_sum := w\<rparr>) n = total s n + inflight s n p" for n
    using assms(2,3) by (simp add: total_def map_update sum_list_upd)
  then show ?thesis using assms
    by (auto simp: sys_ok_def dest!: set_update_subset_insert [THEN subsetD])
qed

lemma wrote_sum_id: "s\<lparr>threads := ts\<rparr> = s\<lparr>threads := ts, wrote_sum := wrote_sum s\<rparr>" for s :: system
  by simp

lemma sys_ok_thread:
  assumes "sys_ok s" and "i < length (threads s)" and "thread_step (threads s ! i) s = (p', s')"
  shows "sys_ok (s'\<lparr>threads := (threads s)[i := p'],
                    wrote_sum := (\<lambda>n. wrote_sum s n + set_delta (threads s ! i) s n)\<rparr>)"
    (is "sys_ok ?t")
proof -
  let ?p = "threads s ! i"
  have ok: "shared_ok s" "pc_ok s ?p" "flush_ok s (flusher s)"
    "\<forall>a < length (ctrs s). in_sight s (flusher s) a" "\<forall>p \<in> set (threads s). pc_ok s p"
    using assms(1,2) by (simp_all add: sys_ok_def)
  have g: "thread_good s ?p p' s'" by (rule thread_step_good [OF ok(1,2) assms(3)])
  then have k: "keeps s s'" "extends s s'" by (simp_all add: thread_good_def keeps_def)
  have same: "flusher s' = flusher s" "calls s' = calls s"
    using assms(3) k(1)
    by (auto simp: keeps_def thread_step_def latch_step_def upd_ctr_def Let_def
        split: pc.splits latch.splits prod.splits if_splits)
  have map_eq: "map (inflight s' n) (threads s) = map (inflight s n) (threads s)" for n
    using extends_inflight [OF k(2)] ok(5) by simp
  have "total ?t n = delivered n (calls s) + held s' n +
      (sum_list (map (inflight s n) (threads s)) + inflight s' n p' - inflight s n ?p) +
      flush_inflight s n (flusher s)" for n
    using assms(2) extends_inflight [OF k(2) ok(2)]
    by (simp add: total_def same map_update sum_list_upd map_eq keeps_flush_inflight [OF k(1) ok(3)])
  moreover have "held s' n + inflight s' n p' = held s n + inflight s n ?p + set_delta ?p s n" for n
    using g by (simp add: thread_good_def)
  then have "held s' n + inflight s' n p' - inflight s n ?p = held s n + set_delta ?p s n" for n
    by simp
  then have "held s' n + (x + inflight s' n p' - inflight s n ?p) = held s n + set_delta ?p s n + x" for n x
    by (metis (no_types, lifting) add.commute add.left_commute add_diff_eq)
  ultimately have "total ?t n = total s n + set_delta ?p s n" for n
    by (simp add: total_def add_ac)
  moreover have "pc_ok s' p" if "p \<in> set ((threads s)[i := p'])" for p
    using that ok(5) g extends_pc_ok [OF k(2)]
    by (auto simp: thread_good_def dest!: set_update_subset_insert [THEN subsetD])
  ultimately show ?thesis
    using assms(1) g keeps_flush_ok [OF k(1) ok(3)] keeps_in_sight [OF k(1) ok(4)]
    by (simp add: sys_ok_def thread_good_def same)
qed

lemma sys_ok_flusher:
  assumes "sys_ok s" and "flush_step (flusher s) s = (p', s')"
  shows "sys_ok (s'\<lparr>flusher := p'\<rparr>)"
proof -
  have ok: "shared_ok s" "flush_ok s (flusher s)"
    "\<forall>a < length (ctrs s). in_sight s (flusher s) a" "\<forall>p \<in> set (threads s). pc_ok s p"
    using assms(1) by (simp_all add: sys_ok_def)
  have g: "flush_good s (flusher s) p' s'" by (rule flush_step_good [OF ok(1-3) assms(2)])
  then have e: "extends s s'" by (simp add: flush_good_def)
  have same: "threads s' = threads s" "wrote_sum s' = wrote_sum s"
    using assms(2)
    by (auto simp: flush_step_def thread_step_def latch_step_def upd_ctr_def Let_def
        split: flush_pc.splits pc.splits latch.splits prod.splits if_splits)
  have map_eq: "map (inflight s' n) (threads s) = map (inflight s n) (threads s)" for n
    using extends_inflight [OF e] ok(4) by simp
  have "total (s'\<lparr>flusher := p'\<rparr>) n = total s n" for n
    using g by (simp add: flush_good_def total_def same map_eq add_ac)
  then show ?thesis using assms(1) g ok(4) extends_pc_ok [OF e]
    by (simp add: sys_ok_def flush_good_def same)
qed

lemma sys_ok_flush_pc:
  assumes "sys_ok s" and "flush_ok s p" and "\<And>k a. flusher s \<noteq> F_detach k a"
    and "\<And>n. flush_inflight s n p = flush_inflight s n (flusher s)"
  shows "sys_ok (s\<lparr>flusher := p, visited := vs\<rparr>)"
proof -
  have "in_sight s p a" if "a < length (ctrs s)" for a
    using in_sight_switch [of s "flusher s" a p] assms(1,3) that by (simp add: sys_ok_def)
  then show ?thesis using assms by (simp add: sys_ok_def total_def)
qed

theorem sys_step_ok: "sys_ok s \<Longrightarrow> sys_step act s = Some s' \<Longrightarrow> sys_ok s'"
proof (cases act)
  case (Call_Add i a d)
  assume s: "sys_ok s" "sys_step act s = Some s'"
  then have *: "i < length (threads s)" "threads s ! i = Idle" "pc_ok s (Add_to a d)"
    using Call_Add by (auto simp: pc_ok_def split: if_splits)
  have "sys_ok (s\<lparr>threads := (threads s)[i := Add_to a d],
      wrote_sum := (wrote_sum s)(names s ! a := wrote_sum s (names s ! a) + d)\<rparr>)"
    by (rule sys_ok_call [OF s(1) *]) (simp add: inflight_def)
  then show ?thesis using s(2) Call_Add by (auto split: if_splits)
next
  case (Call_Set i a v)
  assume s: "sys_ok s" "sys_step act s = Some s'"
  then have *: "i < length (threads s)" "threads s ! i = Idle" "pc_ok s (Store_to a v)"
    using Call_Set by (auto simp: pc_ok_def split: if_splits)
  have "sys_ok (s\<lparr>threads := (threads s)[i := Store_to a v], wrote_sum := wrote_sum s\<rparr>)"
    by (rule sys_ok_call [OF s(1) *]) (simp add: inflight_def)
  then show ?thesis using s(2) Call_Set by (auto split: if_splits)
next
  case (Call_New i k)
  assume s: "sys_ok s" "sys_step act s = Some s'"
  then have *: "i < length (threads s)" "threads s ! i = Idle" "pc_ok s (Lookup k)"
    using Call_New by (auto simp: pc_ok_def split: if_splits)
  have "sys_ok (s\<lparr>threads := (threads s)[i := Lookup k], wrote_sum := wrote_sum s\<rparr>)"
    by (rule sys_ok_call [OF s(1) *]) (simp add: inflight_def)
  then show ?thesis using s(2) Call_New by (auto split: if_splits)
next
  case (Thread i)
  assume s: "sys_ok s" "sys_step act s = Some s'"
  then show ?thesis using Thread sys_ok_thread [OF s(1)] by (auto split: if_splits prod.splits)
next
  case Flusher
  assume s: "sys_ok s" "sys_step act s = Some s'"
  then show ?thesis using Flusher sys_ok_flusher [OF s(1)] by (auto split: prod.splits)
next
  case Flush_begin
  assume s: "sys_ok s" "sys_step act s = Some s'"
  then show ?thesis using Flush_begin sys_ok_flush_pc [OF s(1), of F_range "[]"]
    by (auto simp: flush_ok_def flush_inflight_def split: if_splits)
next
  case (Visit k)
  assume s: "sys_ok s" "sys_step act s = Some s'"
  then obtain a where a: "smap_Load (cmap s) k = Some a" "flusher s = F_range"
    "s' = s\<lparr>flusher := F_latch k a Load_value, visited := k # visited s\<rparr>"
    using Visit by (auto split: if_splits option.splits)
  then show ?thesis using sys_ok_flush_pc [OF s(1), of "F_latch k a Load_value" "k # visited s"]
    by (simp add: flush_ok_def in_map_def flush_inflight_def)
next
  case Range_end
  assume s: "sys_ok s" "sys_step act s = Some s'"
  then show ?thesis using Range_end sys_ok_flush_pc [OF s(1), of F_idle "visited s"]
    by (auto simp: flush_ok_def flush_inflight_def split: if_splits)
qed

theorem sys_run_ok: "sys_ok s \<Longrightarrow> sys_run acts s = Some s' \<Longrightarrow> sys_ok s'"
proof (induction acts arbitrary: s)
  case (Cons a acts)
  then obtain t where "sys_step a s = Some t" "sys_run acts t = Some s'"
    by (auto simp: bind_eq_Some_conv)
  with Cons sys_step_ok show ?case by blast
qed simp

end
