(* ===== verification/Concurrent_Cover.thy ===== *)
theory Concurrent_Cover
  imports Concurrent_Inv
begin

text \<open>
  As long as no two calls of \<open>latch\<close> on one counter overlap, no write is left stranded: a counter
  outside the map holds nothing back, or some thread is on its way to take care of it.
\<close>

section \<open>Who takes care of a counter\<close>

definition fresh_latch :: "'a shared_scheme \<Rightarrow> nat \<Rightarrow> latch \<Rightarrow> bool" where
  "fresh_latch s a l \<longleftrightarrow>
     (case l of
        Load_value \<Rightarrow> True
      | Load_last v \<Rightarrow> v = currentValue (ctr_at s a)
      | Swap v w \<Rightarrow> v = currentValue (ctr_at s a))"

definition responsible :: "'a shared_scheme \<Rightarrow> nat \<Rightarrow> pc \<Rightarrow> bool" where
  "responsible s a p \<longleftrightarrow>
     (case p of
        Check b \<Rightarrow> b = a
      | Rejoin b \<Rightarrow> b = a
      | Forward b c l \<Rightarrow> b = a \<and> fresh_latch s a l
      | _ \<Rightarrow> False)"

definition latches :: "pc \<Rightarrow> nat \<Rightarrow> bool" where
  "latches p a \<longleftrightarrow> (case p of Forward b c l \<Rightarrow> b = a | _ \<Rightarrow> False)"

text \<open>
  The flushing thread seen as one of the threads: about to mark a counter, it is as good as about to
  check the mark; in a \<open>latch\<close>, it is like a thread in \<open>latch\<close>.
\<close>

definition role :: "flush_pc \<Rightarrow> pc" where
  "role p =
     (case p of
        F_latch k a l \<Rightarrow> Forward a a l
      | F_relatch k a l \<Rightarrow> Forward a a l
      | F_detach k a \<Rightarrow> Check a
      | F_rejoin q \<Rightarrow> q
      | _ \<Rightarrow> Idle)"

definition roles :: "system \<Rightarrow> pc list" where
  "roles s = role (flusher s) # threads s"

text \<open>No two of the threads are in a \<open>latch\<close> of one counter.\<close>

fun exclusive :: "pc list \<Rightarrow> bool" where
  "exclusive [] = True"
| "exclusive (p # ps) =
     ((case p of Forward a b l \<Rightarrow> list_all (\<lambda>q. \<not> latches q a) ps | _ \<Rightarrow> True) \<and> exclusive ps)"

lemma exclusive_order:
  "exclusive ps \<Longrightarrow> i < j \<Longrightarrow> j < length ps \<Longrightarrow> latches (ps ! i) a \<Longrightarrow> \<not> latches (ps ! j) a"
proof (induction ps arbitrary: i j)
  case (Cons p ps)
  then show ?case
    by (cases i; cases j) (auto simp: latches_def list_all_length split: pc.splits)
qed simp

lemma exclusive_nth:
  "exclusive ps \<Longrightarrow> i < length ps \<Longrightarrow> j < length ps \<Longrightarrow> latches (ps ! i) a \<Longrightarrow> latches (ps ! j) a \<Longrightarrow> i = j"
  using exclusive_order by (metis linorder_neqE_nat)

definition covered :: "'a shared_scheme \<Rightarrow> pc list \<Rightarrow> nat \<Rightarrow> bool" where
  "covered s ps a \<longleftrightarrow>
     in_map s (names s ! a) a \<or>
     (\<exists>j < length ps. responsible s a (ps ! j)) \<or>
     pending (ctr_at s a) = 0 \<and> (\<forall>j < length ps. \<not> latches (ps ! j) a)"

section \<open>One thread moves\<close>

text \<open>
  For each counter, one of: the counter is in the map; the moving thread takes care of it; the
  counter is as it was, and the thread does not give it up, or another one has it; or the thread
  returns from a \<open>latch\<close> of it that left nothing pending if it had read the current value.
\<close>

definition moves :: "'a shared_scheme \<Rightarrow> pc list \<Rightarrow> nat \<Rightarrow> pc \<Rightarrow> 'a shared_scheme \<Rightarrow> nat \<Rightarrow> bool" where
  "moves s ps i p' s' a \<longleftrightarrow>
     in_map s' (names s' ! a) a \<or> responsible s' a p' \<or>
     names s' ! a = names s ! a \<and> currentValue (ctr_at s' a) = currentValue (ctr_at s a) \<and>
     (in_map s (names s ! a) a \<longrightarrow> in_map s' (names s ! a) a) \<and>
     (if latches (ps ! i) a \<and> \<not> latches p' a
      then responsible s a (ps ! i) \<longrightarrow> pending (ctr_at s' a) = 0
      else lastSentValue (ctr_at s' a) = lastSentValue (ctr_at s a) \<and>
           (latches p' a \<longrightarrow> latches (ps ! i) a) \<and>
           (responsible s a (ps ! i) \<longrightarrow>
              (\<exists>j < length ps. j \<noteq> i \<and> responsible s a (ps ! j))))"

lemma responsible_same:
  "currentValue (ctr_at s' a) = currentValue (ctr_at s a) \<Longrightarrow> responsible s' a p = responsible s a p"
  by (simp add: responsible_def fresh_latch_def split: pc.split latch.split)

lemma responsible_not_latching:
  "responsible s a p \<Longrightarrow> \<not> latches p a \<Longrightarrow> responsible s' a p"
  by (auto simp: responsible_def latches_def split: pc.splits)

lemma moves_covered:
  assumes "moves s ps i p' s' a" and "covered s ps a" and "exclusive ps" and "i < length ps"
  shows "covered s' (ps[i := p']) a"
proof -
  have other: "j < length ps \<Longrightarrow> j \<noteq> i \<Longrightarrow> responsible s' a (ps ! j) \<Longrightarrow>
      covered s' (ps[i := p']) a" for j
    unfolding covered_def by (metis length_list_update nth_list_update_neq)
  have own: "responsible s' a p' \<Longrightarrow> covered s' (ps[i := p']) a"
    using assms(4) unfolding covered_def by (metis length_list_update nth_list_update_eq)
  consider "in_map s' (names s' ! a) a" | "responsible s' a p'"
    | (same) "names s' ! a = names s ! a" "currentValue (ctr_at s' a) = currentValue (ctr_at s a)"
        "in_map s (names s ! a) a \<longrightarrow> in_map s' (names s ! a) a"
        "if latches (ps ! i) a \<and> \<not> latches p' a
         then responsible s a (ps ! i) \<longrightarrow> pending (ctr_at s' a) = 0
         else lastSentValue (ctr_at s' a) = lastSentValue (ctr_at s a) \<and>
           (latches p' a \<longrightarrow> latches (ps ! i) a) \<and>
           (responsible s a (ps ! i) \<longrightarrow> (\<exists>j < length ps. j \<noteq> i \<and> responsible s a (ps ! j)))"
    using assms(1) unfolding moves_def by blast
  then show ?thesis
  proof cases
    case same
    note resp = responsible_same [OF same(2)]
    consider "in_map s (names s ! a) a" | (resp) j where "j < length ps" "responsible s a (ps ! j)"
      | (quiet) "pending (ctr_at s a) = 0" "\<forall>j < length ps. \<not> latches (ps ! j) a"
      using assms(2) unfolding covered_def by blast
    then show ?thesis
    proof cases
      case (resp j)
      show ?thesis
      proof (cases "j = i")
        case False
        then show ?thesis using other resp \<open>\<And>p. responsible s' a p = responsible s a p\<close> by blast
      next
        case True
        show ?thesis
        proof (cases "latches (ps ! i) a \<and> \<not> latches p' a")
          case lat: True
          then have "pending (ctr_at s' a) = 0" using same(4) resp(2) True by simp
          moreover have "\<not> latches (ps[i := p'] ! j) a" if "j < length ps" for j
            using that lat exclusive_nth [OF assms(3,4), of j a]
            by (cases "j = i") auto
          ultimately show ?thesis unfolding covered_def by simp
        next
          case False
          then show ?thesis using same(4) resp(2) True other responsible_same [OF same(2)] by metis
        qed
      qed
    next
      case quiet
      then have "lastSentValue (ctr_at s' a) = lastSentValue (ctr_at s a)" "\<not> latches p' a"
        using same(4) assms(4) by (auto split: if_splits)
      moreover have "\<not> latches (ps[i := p'] ! j) a" if "j < length ps" for j
        using that quiet(2) \<open>\<not> latches p' a\<close> by (cases "j = i") auto
      ultimately have "pending (ctr_at s' a) = 0 \<and> (\<forall>j < length ps. \<not> latches (ps[i := p'] ! j) a)"
        using quiet(1) same(2) by (simp add: pending_def)
      then show ?thesis unfolding covered_def by simp
    qed (use same(1,3) in \<open>auto simp: covered_def\<close>)
  qed (use own in \<open>auto simp: covered_def\<close>)
qed

section \<open>Every step is such a move\<close>

lemma moves_same:
  assumes "names s' ! a = names s ! a" and "ctr_at s' a = ctr_at s a"
    and "in_map s (names s ! a) a \<longrightarrow> in_map s' (names s ! a) a"
    and "\<not> responsible s a (ps ! i)" and "\<not> latches (ps ! i) a" and "\<not> latches p' a"
  shows "moves s ps i p' s' a"
  using assms by (simp add: moves_def)

lemma moves_latch:
  assumes "latch_step a l s = (r, s')" and "ps ! i = Forward a b l" and "a < length (ctrs s)"
    and "p' = (case r of Inl l' \<Rightarrow> Forward a b' l' | Inr d \<Rightarrow> q d)" and "\<And>d. \<not> latches (q d) a"
  shows "moves s ps i p' s' a"
proof (cases l)
  case Load_value
  with assms show ?thesis
    by (auto simp: latch_step_def moves_def responsible_def fresh_latch_def)
next
  case (Load_last v)
  with assms show ?thesis
    by (cases "v = lastSentValue (ctr_at s a)")
       (auto simp: latch_step_def moves_def responsible_def fresh_latch_def latches_def pending_def Let_def)
next
  case (Swap v w)
  with assms show ?thesis
    by (cases "lastSentValue (ctr_at s a) = w")
       (auto simp: latch_step_def moves_def responsible_def fresh_latch_def latches_def pending_def
         Let_def upd_ctr_at)
qed

lemma moves_latch_other:
  assumes "latch_step b l s = (r, s')" and "ps ! i = Forward b c l" and "a \<noteq> b" and "a < length (ctrs s)"
    and "p' = (case r of Inl l' \<Rightarrow> Forward b c' l' | Inr d \<Rightarrow> q d)" and "\<And>d. \<not> latches (q d) a"
  shows "moves s ps i p' s' a"
proof (rule moves_same)
  have "s' = s \<or> (\<exists>v. s' = upd_ctr b (lastSentValue_update (\<lambda>_. v)) s)"
    using assms(1) latch_step_Inl latch_step_Inr by (cases r) blast+
  then show "names s' ! a = names s ! a" "ctr_at s' a = ctr_at s a"
    "in_map s (names s ! a) a \<longrightarrow> in_map s' (names s ! a) a"
    using assms(3,4) by (auto simp: upd_ctr_at)
  show "\<not> latches p' a" using assms(3,5,6) by (simp add: latches_def split: sum.split)
qed (use assms(2,3) in \<open>simp_all add: responsible_def latches_def\<close>)

lemma thread_moves:
  assumes "shared_ok s" and "pc_ok s (ps ! i)" and "thread_step (ps ! i) s = (p', s')"
    and "a < length (ctrs s')" and "a < length (ctrs s) \<Longrightarrow> in_sight s fp a"
    and "\<And>k. fp = F_detach k a \<Longrightarrow> \<exists>j < length ps. j \<noteq> i \<and> responsible s a (ps ! j)"
  shows "moves s ps i p' s' a"
proof (cases "a < length (ctrs s)")
  case False
  have "keeps s s'" using thread_step_good [OF assms(1-3)] by (simp add: thread_good_def)
  then show ?thesis using assms(4) False by (simp add: keeps_def moves_def)
next
  case a: True
  have keep: "keeps s s'" using thread_step_good [OF assms(1-3)] by (simp add: thread_good_def)
  then have nm: "names s' ! a = names s ! a" "in_map s (names s ! a) a \<longrightarrow> in_map s' (names s ! a) a"
    using a by (auto simp: keeps_def extends_def)
  show ?thesis
  proof (cases "ps ! i")
    case (Check b)
    with assms(3) have s': "s' = s" by (simp add: thread_step_def)
    show ?thesis
    proof (cases "a = b \<and> p' = Idle")
      case True
      then have "\<not> (limit s \<noteq> 0 \<and> detached (ctr_at s a) \<noteq> 0)"
        using assms(1,3) a Check by (auto simp: thread_step_def shared_ok_def split: if_splits)
      then have "in_map s (names s ! a) a \<or> (\<exists>k. fp = F_detach k a)"
        using assms(5) a unfolding in_sight_def by blast
      then show ?thesis using assms(6) True Check
        by (auto simp: moves_def s' latches_def)
    next
      case False
      with assms(3) Check have "p' = Rejoin b \<or> p' = Idle \<and> a \<noteq> b"
        by (auto simp: thread_step_def split: if_splits)
      then show ?thesis using Check
        by (auto simp: moves_def s' responsible_def latches_def)
    qed
  next
    case (Rejoin b)
    then have b: "b < length (ctrs s)" "counter_name (ctr_at s b) = names s ! b"
      using assms(1,2) by (auto simp: pc_ok_def shared_ok_def)
    show ?thesis
    proof (cases "a = b")
      case True
      show ?thesis
      proof (cases rule: LoadOrStore_cases [of "cmap s" "names s ! b" b])
        case (found c)
        with assms(3) Rejoin b True show ?thesis
          by (cases "c = b") (auto simp: thread_step_def moves_def responsible_def fresh_latch_def in_map_def)
      next
        case stored
        with assms(3) Rejoin b True show ?thesis
          by (auto simp: thread_step_def moves_def in_map_def smap_Load_snoc)
      qed
    next
      case False
      have "ctr_at s' a = ctr_at s a" "\<not> latches p' a"
        using assms(3) Rejoin False
        by (auto simp: thread_step_def latches_def split: prod.splits if_splits)
      then show ?thesis using nm Rejoin False
        by (intro moves_same) (auto simp: responsible_def latches_def)
    qed
  next
    case (Forward b c l)
    obtain r t where lt: "latch_step b l s = (r, t)" by force
    have "s' = t" "p' = (case r of Inl l' \<Rightarrow> Forward b c l' | Inr d \<Rightarrow> Add_to c d)"
      using assms(3) Forward lt by (auto simp: thread_step_def split: sum.splits)
    then show ?thesis using moves_latch [OF lt] moves_latch_other [OF lt] Forward a
      by (cases "a = b") (auto simp: latches_def)
  next
    case (Add_to b d)
    with assms(3) a nm show ?thesis
      by (cases "a = b") (auto simp: thread_step_def moves_def responsible_def latches_def upd_ctr_at)
  next
    case (Store_to b d)
    with assms(3) a nm show ?thesis
      by (cases "a = b") (auto simp: thread_step_def moves_def responsible_def latches_def upd_ctr_at)
  next
    case (Create k)
    with assms(3) a nm show ?thesis
      by (auto simp: thread_step_def responsible_def latches_def nth_append Let_def
          intro!: moves_same split: if_splits)
  qed (use assms(3) nm in \<open>auto simp: thread_step_def responsible_def latches_def
         intro!: moves_same split: if_splits\<close>)
qed

lemma flusher_moves:
  assumes "shared_ok s" and "flush_ok s p" and "\<forall>b < length (ctrs s). in_sight s p b"
    and "flush_step p s = (p', s')" and "ps ! i = role p" and "a < length (ctrs s')"
  shows "moves s ps i (role p') s' a"
proof (cases "\<exists>q. p = F_rejoin q \<and> q \<noteq> Idle")
  case True
  then obtain q where q: "p = F_rejoin q" "q \<noteq> Idle" by blast
  then obtain q' where q': "thread_step q s = (q', s')" "p' = F_rejoin q'"
    using assms(4) by (auto simp: flush_step_def split: prod.splits)
  have "ps ! i = q" using assms(5) q by (simp add: role_def)
  with thread_moves [OF assms(1), of ps i q' s' a p] assms(2,3,6) q q' show ?thesis
    by (auto simp: role_def flush_ok_def)
next
  case False
  have len: "length (ctrs s') = length (ctrs s)"
    using assms(4) False
    by (auto simp: flush_step_def latch_step_def Let_def split: flush_pc.splits latch.splits if_splits)
  then have a: "a < length (ctrs s)" using assms(6) by simp
  show ?thesis
  proof (cases p)
    case (F_latch k b l)
    obtain r t where lt: "latch_step b l s = (r, t)" by force
    have "s' = t" "role p' = (case r of Inl l' \<Rightarrow> Forward b b l' | Inr d \<Rightarrow> Idle)"
      using assms(4) F_latch lt by (auto simp: flush_step_def role_def split: sum.splits if_splits)
    then show ?thesis using moves_latch [OF lt] moves_latch_other [OF lt] F_latch assms(5) a
      by (cases "a = b") (auto simp: latches_def role_def)
  next
    case (F_relatch k b l)
    obtain r t where lt: "latch_step b l s = (r, t)" by force
    have "s' = t" "role p' = (case r of Inl l' \<Rightarrow> Forward b b l' | Inr d \<Rightarrow> Idle)"
      using assms(4) F_relatch lt by (auto simp: flush_step_def role_def split: sum.splits if_splits)
    then show ?thesis using moves_latch [OF lt] moves_latch_other [OF lt] F_relatch assms(5) a
      by (cases "a = b") (auto simp: latches_def role_def)
  next
    case (F_delete k b)
    have k: "in_map s k b" using assms(2) F_delete by (simp add: flush_ok_def)
    note b = in_map_range [OF assms(1) k]
    have s': "s' = s\<lparr>cmap := smap_Delete (cmap s) k\<rparr>" "role p' = Check b"
      using assms(4) F_delete by (auto simp: flush_step_def role_def)
    have "smap_Load (cmap s') l = (if l = k then None else smap_Load (cmap s) l)" for l
      using sm.load_delete [of "cmap s" k] assms(1) by (simp add: shared_ok_def s')
    then have "a \<noteq> b \<Longrightarrow> in_map s (names s ! a) a \<longrightarrow> in_map s' (names s ! a) a"
      using k by (auto simp: in_map_def)
    then show ?thesis using s' assms(5) F_delete
      by (cases "a = b") (auto simp: moves_def responsible_def latches_def role_def)
  next
    case (F_detach k b)
    with assms(4,5) a show ?thesis
      by (cases "a = b")
         (auto simp: flush_step_def moves_def responsible_def latches_def role_def fresh_latch_def upd_ctr_at)
  next
    case (F_rejoin q)
    with False assms(4,5) show ?thesis
      by (auto simp: flush_step_def role_def responsible_def latches_def intro!: moves_same)
  next
    case (F_reset k b)
    with assms(4,5) a show ?thesis
      by (cases "a = b")
         (auto simp: flush_step_def moves_def responsible_def latches_def role_def upd_ctr_at)
  qed (use assms(4,5) a in \<open>auto simp: flush_step_def moves_def responsible_def latches_def role_def
         upd_ctr_at in_map_def Let_def split: if_splits\<close>)
qed

section \<open>The system\<close>

fun exclusive_run :: "action list \<Rightarrow> system \<Rightarrow> system option" where
  "exclusive_run [] s = Some s"
| "exclusive_run (a # as) s =
     (if exclusive (roles s) then Option.bind (sys_step a s) (exclusive_run as) else None)"

lemma covered_sel [simp]:
  fixes s :: system
  shows "covered (s\<lparr>threads := ts\<rparr>) = covered s" "covered (s\<lparr>flusher := p\<rparr>) = covered s"
    "covered (s\<lparr>visited := vs\<rparr>) = covered s" "covered (s\<lparr>wrote_sum := w\<rparr>) = covered s"
  by (simp_all add: covered_def [abs_def] in_map_def responsible_def fresh_latch_def
      cong: pc.case_cong latch.case_cong)

definition all_covered :: "system \<Rightarrow> bool" where
  "all_covered s \<longleftrightarrow> (\<forall>a < length (ctrs s). covered s (roles s) a)"

lemma roles_nth [simp]: "roles s ! 0 = role (flusher s)" "roles s ! Suc i = threads s ! i"
  "length (roles s) = Suc (length (threads s))"
  by (simp_all add: roles_def)

lemma flusher_detach_covers:
  "flusher s = F_detach k a \<Longrightarrow> \<exists>j < length (roles s). j \<noteq> Suc i \<and> responsible s a (roles s ! j)"
  by (intro exI [of _ 0]) (simp add: role_def responsible_def)

text \<open>A thread begins a call, which is no business of any counter yet.\<close>

lemma covered_call:
  assumes "all_covered s" and "exclusive (roles s)" and "i < length (threads s)" and "threads s ! i = Idle"
    and "\<And>a. \<not> latches p a"
  shows "a < length (ctrs s) \<Longrightarrow> covered s ((roles s)[Suc i := p]) a"
  using assms
  by (intro moves_covered [where s = s] moves_same) (auto simp: all_covered_def responsible_def latches_def)

lemma all_covered_thread:
  assumes "all_covered s" and "sys_ok s" and "exclusive (roles s)" and "i < length (threads s)"
    and "thread_step (threads s ! i) s = (p', s')"
  shows "a < length (ctrs s') \<Longrightarrow> covered s' ((roles s)[Suc i := p']) a"
proof -
  assume a: "a < length (ctrs s')"
  have ok: "shared_ok s" "pc_ok s (roles s ! Suc i)" "flush_ok s (flusher s)"
    "\<forall>a < length (ctrs s). in_sight s (flusher s) a"
    using assms(2,4) by (auto simp: sys_ok_def)
  have step: "thread_step (roles s ! Suc i) s = (p', s')" using assms(5) by simp
  have "moves s (roles s) (Suc i) p' s' a"
    by (rule thread_moves [OF ok(1,2) step a, where fp = "flusher s"])
       (use ok(4) flusher_detach_covers in auto)
  moreover have "a < length (ctrs s) \<Longrightarrow> covered s (roles s) a"
    using assms(1) by (simp add: all_covered_def)
  moreover have "\<not> a < length (ctrs s) \<Longrightarrow> in_map s' (names s' ! a) a"
    using thread_step_good [OF ok(1,2) step] a by (auto simp: thread_good_def keeps_def)
  ultimately show ?thesis
  proof (cases "a < length (ctrs s)")
    case True
    then have "covered s (roles s) a" using assms(1) unfolding all_covered_def by blast
    with \<open>moves s (roles s) (Suc i) p' s' a\<close> show ?thesis
      using assms(4) by (intro moves_covered [OF _ _ assms(3)]) auto
  qed (simp add: covered_def)
qed

lemma all_covered_flusher:
  assumes "all_covered s" and "sys_ok s" and "exclusive (roles s)"
    and "flush_step (flusher s) s = (p', s')"
  shows "a < length (ctrs s') \<Longrightarrow> covered s' ((roles s)[0 := role p']) a"
proof -
  assume a: "a < length (ctrs s')"
  have ok: "shared_ok s" "flush_ok s (flusher s)"
    "\<forall>a < length (ctrs s). in_sight s (flusher s) a"
    using assms(2) by (simp_all add: sys_ok_def)
  have m: "moves s (roles s) 0 (role p') s' a"
    by (rule flusher_moves [OF ok assms(4) _ a]) simp
  show ?thesis
  proof (cases "a < length (ctrs s)")
    case True
    then show ?thesis using moves_covered [OF m _ assms(3)] assms(1) by (simp add: all_covered_def)
  next
    case False
    have "\<exists>q. flusher s = F_rejoin q \<and> q \<noteq> Idle"
    proof (rule ccontr)
      assume "\<not> ?thesis"
      then have "length (ctrs s') = length (ctrs s)" using assms(4)
        by (auto simp: flush_step_def latch_step_def Let_def split: flush_pc.splits latch.splits if_splits)
      with a False show False by simp
    qed
    then obtain q q' where q: "flusher s = F_rejoin q" "thread_step q s = (q', s')"
      using assms(4) by (auto simp: flush_step_def split: prod.splits)
    then have "keeps s s'" using thread_step_good [OF ok(1)] q(1) ok(2)
      by (auto simp: flush_ok_def thread_good_def)
    then show ?thesis using a False by (simp add: keeps_def covered_def)
  qed
qed

theorem all_covered_step:
  assumes "sys_ok s" and "all_covered s" and "exclusive (roles s)" and "sys_step act s = Some s'"
  shows "all_covered s'"
proof -
  have roles_thread: "roles (t\<lparr>threads := (threads s)[i := p], wrote_sum := w\<rparr>) = (roles s)[Suc i := p]"
    if "flusher t = flusher s" for t i p w
    using that by (simp add: roles_def)
  note call = covered_call [OF assms(2,3)]
  show ?thesis
  proof (cases act)
    case (Call_Add i a d)
    with assms(4) call [of i "Add_to a d"] show ?thesis
      by (auto simp: all_covered_def roles_def latches_def split: if_splits)
  next
    case (Call_Set i a d)
    with assms(4) call [of i "Store_to a d"] show ?thesis
      by (auto simp: all_covered_def roles_def latches_def split: if_splits)
  next
    case (Call_New i k)
    with assms(4) call [of i "Lookup k"] show ?thesis
      by (auto simp: all_covered_def roles_def latches_def split: if_splits)
  next
    case (Thread i)
    then obtain p' t where t: "i < length (threads s)" "thread_step (threads s ! i) s = (p', t)"
      "s' = t\<lparr>threads := (threads s)[i := p'],
              wrote_sum := (\<lambda>n. wrote_sum s n + set_delta (threads s ! i) s n)\<rparr>"
      using assms(4) by (auto split: if_splits prod.splits)
    have "flusher t = flusher s" using t(2)
      by (auto simp: thread_step_def latch_step_def upd_ctr_def Let_def
          split: pc.splits latch.splits prod.splits if_splits)
    then show ?thesis using all_covered_thread [OF assms(2,1,3) t(1,2)]
      by (simp add: all_covered_def t(3) roles_thread)
  next
    case Flusher
    then obtain p' t where t: "flush_step (flusher s) s = (p', t)" "s' = t\<lparr>flusher := p'\<rparr>"
      using assms(4) by (auto split: prod.splits)
    have "threads t = threads s" using t(1)
      by (auto simp: flush_step_def thread_step_def latch_step_def upd_ctr_def Let_def
          split: flush_pc.splits pc.splits latch.splits prod.splits if_splits)
    then have "roles s' = (roles s)[0 := role p']" by (simp add: roles_def t(2))
    then show ?thesis using all_covered_flusher [OF assms(2,1,3) t(1)]
      by (simp add: all_covered_def t(2))
  next
    case Flush_begin
    with assms(2,4) show ?thesis
      by (auto simp: all_covered_def roles_def role_def split: if_splits)
  next
    case (Visit k)
    then obtain a where a: "in_map s k a" "flusher s = F_range"
      "s' = s\<lparr>flusher := F_latch k a Load_value, visited := k # visited s\<rparr>"
      using assms(4) by (auto simp: in_map_def split: if_splits option.splits)
    have r: "roles s' = (roles s)[0 := Forward a a Load_value]" by (simp add: roles_def role_def a(3))
    have "moves s (roles s) 0 (Forward a a Load_value) s b" for b
      using a(2) by (auto simp: moves_def responsible_def fresh_latch_def latches_def role_def)
    then have "covered s (roles s') b" if "b < length (ctrs s)" for b
      unfolding r using assms(2) that by (intro moves_covered [OF _ _ assms(3)]) (auto simp: all_covered_def)
    then show ?thesis by (simp add: all_covered_def a(3))
  next
    case Range_end
    with assms(2,4) show ?thesis
      by (auto simp: all_covered_def roles_def role_def split: if_splits)
  qed
qed

theorem exclusive_run_covered:
  assumes "exclusive_run acts (sys_init n p) = Some s"
  shows "sys_ok s" and "all_covered s"
proof -
  have "sys_ok t \<Longrightarrow> all_covered t \<Longrightarrow> exclusive_run acts t = Some s \<Longrightarrow> sys_ok s \<and> all_covered s" for t
  proof (induction acts arbitrary: t)
    case (Cons a acts)
    then obtain u where "exclusive (roles t)" "sys_step a t = Some u" "exclusive_run acts u = Some s"
      by (auto simp: bind_eq_Some_conv split: if_splits)
    with Cons sys_step_ok all_covered_step show ?case by blast
  qed simp
  moreover have "all_covered (sys_init n p)" by (simp add: all_covered_def sys_init_def)
  ultimately show "sys_ok s" "all_covered s" using assms sys_ok_init by blast+
qed

lemma exclusive_run_run: "exclusive_run acts s = Some s' \<Longrightarrow> sys_run acts s = Some s'"
  by (induction acts arbitrary: s) (auto simp: bind_eq_Some_conv split: if_splits)

end
