(* ===== verification/Concurrent_Props.thy ===== *)
theory Concurrent_Props
  imports Concurrent_Cover
begin

text \<open>
  Properties of every interleaving of the atomic steps of writes, of the creation of counters and of
  flushes that exclude each other.
\<close>

lemmas sys_eval =
  thread_step_def flush_step_def latch_step_def upd_ctr_def set_delta_def zero_counter_def
  smap_Load_def smap_LoadOrStore_def smap_Delete_def Let_def

lemma sys_init_2: "sys_init 2 p = \<lparr>ctrs = [], names = [], cmap = [], limit = p, calls = [],
     threads = [Idle, Idle], flusher = F_idle, visited = [], wrote_sum = (\<lambda>_. 0)\<rparr>"
  by (simp add: sys_init_def numeral_2_eq_2)

text \<open>
  Two threads on a counter that was pruned while another took its name: thread 0 is between the
  \<open>Load\<close> of its \<open>latch\<close> and the next one while the other adds to the same counter, and its delta
  reaches the new counter in two parts.
\<close>

definition pruned_and_replaced :: "action list" where
  "pruned_and_replaced =
     [Call_New 0 ''a'', Thread 0, Thread 0,
      Flush_begin, Visit ''a'', Flusher, Flusher, Flusher, Flusher, Flusher, Flusher, Flusher, Range_end,
      Call_New 0 ''a'', Thread 0, Thread 0]"

definition writes_interleaved :: "action list" where
  "writes_interleaved = pruned_and_replaced @
     [Call_Add 0 0 5, Thread 0, Thread 0, Thread 0, Thread 0,
      Call_Add 1 0 3, Thread 1,
      Thread 0, Thread 0, Thread 0, Thread 0, Thread 1, Thread 1, Thread 1, Thread 1, Thread 1,
      Thread 1, Thread 1]"

text \<open>
  C4: no interleaving loses or duplicates a delta.  At every point, what the sink has received for
  a name, what the counters of the name hold back, and what threads and the flushing thread have
  taken off a counter and not yet passed on, add up to what the calls begun so far write.
\<close>

theorem no_interleaving_loses:
  assumes "sys_run acts (sys_init n p) = Some s"
  shows "delivered k (calls s) +
           (\<Sum>a < length (ctrs s). if names s ! a = k then pending (ctr_at s a) else 0) +
           sum_list (map (inflight s k) (threads s)) + flush_inflight s k (flusher s) = wrote_sum s k"
proof -
  have "sys_ok s" using sys_run_ok [OF sys_ok_init assms] .
  then have "total s k = wrote_sum s k" by (simp add: sys_ok_def)
  then show ?thesis by (simp only: total_def held_def)
qed

theorem no_interleaving_loses_witness:
  "\<exists>s. sys_run writes_interleaved (sys_init 2 1) = Some s \<and>
     delivered ''a'' (calls s) +
       (\<Sum>a < length (ctrs s). if names s ! a = ''a'' then pending (ctr_at s a) else 0) +
       sum_list (map (inflight s ''a'') (threads s)) + flush_inflight s ''a'' (flusher s) = 8"
proof -
  have "\<exists>s. sys_run writes_interleaved (sys_init 2 1) = Some s \<and> wrote_sum s ''a'' = 8"
    by (simp add: writes_interleaved_def pruned_and_replaced_def sys_init_2 sys_eval)
  then obtain s where "sys_run writes_interleaved (sys_init 2 1) = Some s" "wrote_sum s ''a'' = 8"
    by blast
  then show ?thesis using no_interleaving_loses [of writes_interleaved 2 1 s "''a''"] by auto
qed

text \<open>
  C5: no interleaving makes a counter a permanent orphan.  At every point each counter ever created
  is in the map under its name, or carries the mark that makes its next write look for its place
  (and has the reference to its store that this needs), or is being marked by the flushing thread.
\<close>

theorem no_interleaving_orphans:
  assumes "sys_run acts (sys_init n p) = Some s" and "a < length (ctrs s)"
  shows "smap_Load (cmap s) (names s ! a) = Some a \<or>
         counter_store (ctr_at s a) \<and> detached (ctr_at s a) \<noteq> 0 \<and>
           counter_name (ctr_at s a) = names s ! a \<or>
         (\<exists>k. flusher s = F_detach k a)"
proof -
  have "sys_ok s" using sys_run_ok [OF sys_ok_init assms(1)] .
  then have "in_sight s (flusher s) a" "shared_ok s" using assms(2) by (simp_all add: sys_ok_def)
  then show ?thesis using assms(2) by (auto simp: in_sight_def in_map_def shared_ok_def)
qed

theorem no_interleaving_orphans_witness:
  "\<exists>s. sys_run pruned_and_replaced (sys_init 2 1) = Some s \<and>
     smap_Load (cmap s) ''a'' = Some 1 \<and> detached (ctr_at s 0) \<noteq> 0"
proof -
  have "\<exists>s. sys_run pruned_and_replaced (sys_init 2 1) = Some s \<and> flusher s = F_idle \<and>
      length (ctrs s) = Suc (Suc 0) \<and> names s = [''a'', ''a''] \<and> smap_Load (cmap s) ''a'' = Some 1"
    by (simp add: pruned_and_replaced_def sys_init_2 sys_eval)
  then obtain s where s: "sys_run pruned_and_replaced (sys_init 2 1) = Some s" "flusher s = F_idle"
    "length (ctrs s) = Suc (Suc 0)" "names s = [''a'', ''a'']" "smap_Load (cmap s) ''a'' = Some 1"
    by blast
  with no_interleaving_orphans [OF s(1), of 0] show ?thesis by auto
qed


definition latches_meet :: "action list" where
  "latches_meet = pruned_and_replaced @
     [Call_Add 0 0 5, Thread 0, Thread 0, Thread 0, Thread 0,
      Call_Add 1 0 3, Thread 1, Thread 1, Thread 1]"


text \<open>
  Such a run to its end: the sink receives 8 and then \<open>2 ^ 64 - 3\<close>, all threads have returned, and the
  pending 3 is left on a counter that no flush reaches.
\<close>

definition latch_race :: "action list" where
  "latch_race = latches_meet @
     [Thread 1, Thread 1, Thread 1, Thread 1, Thread 1,
      Flush_begin, Visit ''a'', Flusher, Flusher, Flusher, Flusher, Flusher, Flusher, Range_end,
      Thread 0, Thread 0, Thread 0, Thread 0,
      Flush_begin, Visit ''a'', Flusher, Flusher, Flusher, Flusher, Flusher, Flusher, Range_end]"

lemma latch_race_strands:
  "\<exists>s. sys_run latch_race (sys_init 2 1) = Some s \<and> quiescent s \<and> wrote_sum s ''a'' = 8 \<and>
     calls s = [FlushCounter ''a'' 8, FlushCounter ''a'' (- 3)] \<and>
     cmap s = [(''a'', 1)] \<and> names s = [''a'', ''a''] \<and> pending (ctr_at s 0) = 3"
  by (simp add: latch_race_def latches_meet_def pruned_and_replaced_def sys_init_2 sys_eval
      quiescent_def pending_def)

text \<open>
  C6: overlapping calls of \<open>latch\<close> on one counter are the only way to strand a write.  In a run in
  which they do not occur, however the steps interleave otherwise, once no call is in progress
  every counter with a pending delta is in the map, so that the next flush delivers it.
\<close>

theorem exclusive_latches_strand_nothing:
  assumes "exclusive_run acts (sys_init n p) = Some s" and "quiescent s"
    and "a < length (ctrs s)" and "pending (ctr_at s a) \<noteq> 0"
  shows "smap_Load (cmap s) (names s ! a) = Some a"
proof -
  have "covered s (roles s) a"
    using exclusive_run_covered(2) [OF assms(1)] assms(3) by (simp add: all_covered_def)
  moreover have "roles s ! j = Idle" if "j < length (roles s)" for j
    using assms(2) that by (cases j) (auto simp: quiescent_def role_def list_all_length)
  ultimately show ?thesis using assms(4)
    by (auto simp: covered_def in_map_def responsible_def)
qed

theorem exclusive_latches_strand_nothing_witness:
  "\<exists>s. exclusive_run writes_interleaved (sys_init 2 1) = Some s \<and> pending (ctr_at s 1) = 8 \<and>
     smap_Load (cmap s) (names s ! 1) = Some 1"
proof -
  have "\<exists>s. exclusive_run writes_interleaved (sys_init 2 1) = Some s \<and> quiescent s \<and>
      length (ctrs s) = Suc (Suc 0) \<and> pending (ctr_at s 1) = 8"
    by (simp add: writes_interleaved_def pruned_and_replaced_def sys_init_2 sys_eval roles_def
        role_def latches_def quiescent_def pending_def)
  then obtain s where s: "exclusive_run writes_interleaved (sys_init 2 1) = Some s" "quiescent s"
    "length (ctrs s) = Suc (Suc 0)" "pending (ctr_at s 1) = 8"
    by blast
  with exclusive_latches_strand_nothing [OF s(1,2), of 1] show ?thesis by auto
qed

end
